(* ===== verification/Prelude.thy ===== *)
theory Prelude
  imports Main "HOL-Library.Word" "HOL-Library.Multiset"
begin

text \<open>
  The shared base of the development: the machine integer types of the C++ sources, the
  exceptions the library throws or lets through, the stop-aware waits of the standard
  condition variable, and the generic lemmas on words, rings of slots and multisets that the
  component theories use.

  \<^item> \<open>size_t\<close>, \<open>uint64_t\<close> and \<open>intptr_t\<close> are 64-bit words; addition wraps, as in the source.
  \<^item> An operation that may throw returns \<open>exn + 'a\<close>, with \<open>Inl\<close> for the exception.
  \<^item> An operation that may park or spin without returning has an \<open>option\<close> result; \<open>None\<close> says
    that the call does not return without a step of another thread.
\<close>

unbundle bit_operations_syntax

section \<open>Types and collections\<close>

type_synonym size_t = "64 word"
type_synonym uint64_t = "64 word"
type_synonym intptr_t = "64 word"

text \<open>The exceptions of the sources, with their messages; \<open>User_exception\<close> is what an event
  constructor, a callback or an error handler of the application throws.\<close>

datatype exn =
    Invalid_argument string
  | Logic_error string
  | Overflow_error string
  | Runtime_error string
  | Bad_optional_access
  | Bad_alloc
  | User_exception nat

named_theorems ring_simps \<open>indices of a circular buffer\<close>
named_theorems word_simps \<open>64-bit arithmetic that does not wrap\<close>

section \<open>Stop-aware waits of the standard library\<close>

text \<open>
  \<open>condition_variable_any::wait(lock, stop, pred)\<close> evaluates the predicate under the lock. A
  true predicate returns \<open>true\<close>; a false one returns \<open>false\<close> once stop was requested, and
  otherwise parks the thread (\<open>None\<close>). The timed form also stops waiting at the deadline. The
  plain \<open>condition_variable::wait(lock, pred)\<close> is the stop-aware one without a stop request.
\<close>

definition cv_wait :: "bool \<Rightarrow> bool \<Rightarrow> bool option" where
  "cv_wait stop pred = (if pred then Some True else if stop then Some False else None)"

definition cv_wait_until :: "bool \<Rightarrow> bool \<Rightarrow> bool \<Rightarrow> bool option" where
  "cv_wait_until stop expired pred =
     (if pred then Some True else if stop \<or> expired then Some False else None)"

section \<open>Words that do not wrap\<close>

lemma unat_lt_2_64 [simp]: "unat (w :: size_t) < 18446744073709551616"
  using unsigned_less [of w] by simp

lemma unat_plus_one [word_simps]:
  "unat (i :: size_t) < n \<Longrightarrow> n < 18446744073709551616 \<Longrightarrow> unat (i + 1) = unat i + 1"
  by (simp add: unat_word_ariths)

lemma unat_minus_one_size [word_simps]:
  "(i :: size_t) \<noteq> 0 \<Longrightarrow> unat (i - 1) = unat i - 1"
  by (simp add: unat_minus_one)

lemma unat_pos_iff: "(0 < unat (i :: size_t)) = (i \<noteq> 0)"
  by (metis unat_eq_zero gr0I less_irrefl)

lemma unat_of_nat_small [word_simps]:
  "n < 18446744073709551616 \<Longrightarrow> unat (of_nat n :: size_t) = n"
  by (simp add: unat_of_nat take_bit_nat_eq_self)

lemma eq_of_nat_iff [word_simps]:
  "n < 18446744073709551616 \<Longrightarrow> ((i :: size_t) = of_nat n) = (unat i = n)"
  using unat_of_nat_small [of n] by (metis word_unat_eq_iff)

section \<open>Rings of slots\<close>

lemma ring_index_le_inject:
  fixes h n :: nat
  assumes "i \<le> j" "j < n" "(h + i) mod n = (h + j) mod n"
  shows "i = j"
proof -
  have "n dvd (h + j) - (h + i)"
    using assms mod_eq_dvd_iff_nat [of "h + i" "h + j" n] by simp
  then have "n dvd j - i" by simp
  moreover have "j - i < n" using assms by simp
  ultimately have "j - i = 0" using nat_dvd_not_less by blast
  with assms show ?thesis by simp
qed

lemma ring_index_inject [ring_simps]:
  fixes h n :: nat
  assumes "i < n" "j < n"
  shows "((h + i) mod n = (h + j) mod n) = (i = j)"
  using assms ring_index_le_inject [of i j n h] ring_index_le_inject [of j i n h]
  by (cases "i \<le> j") auto

lemma ring_index_less [ring_simps]: "0 < (n::nat) \<Longrightarrow> (h + i) mod n < n"
  by simp

lemma ring_index_suc [ring_simps]: "((h + 1) mod n + i) mod n = (h + Suc i) mod (n::nat)"
  by (simp add: mod_add_left_eq)

lemma ring_index_of:
  assumes "k < n" "0 < (n::nat)"
  obtains i where "i < n" "(h + i) mod n = k"
proof -
  let ?i = "(k + (n - h mod n)) mod n"
  have "(h + ?i) mod n = (h mod n + (k + (n - h mod n))) mod n"
    by (simp add: mod_add_left_eq mod_add_right_eq)
  also have "h mod n + (k + (n - h mod n)) = k + n"
    using mod_less_divisor [OF assms(2), of h] by simp
  also have "(k + n) mod n = k" using assms by simp
  finally show thesis using assms that [of ?i] by simp
qed

text \<open>Reading a ring after a write: the window of \<open>m\<close> slots from \<open>h\<close>.\<close>

definition ring_window :: "'a list \<Rightarrow> nat \<Rightarrow> nat \<Rightarrow> 'a list" where
  "ring_window xs h m = map (\<lambda>i. xs ! ((h + i) mod length xs)) [0..<m]"

lemma length_ring_window [simp]: "length (ring_window xs h m) = m"
  by (simp add: ring_window_def)

lemma ring_window_snoc:
  assumes "m < length xs"
  shows "ring_window (xs[(h + m) mod length xs := v]) h (Suc m) = ring_window xs h m @ [v]"
proof -
  have "xs[(h + m) mod length xs := v] ! ((h + i) mod length xs) = xs ! ((h + i) mod length xs)"
    if "i < m" for i
    using that assms ring_index_inject [of i "length xs" m h] by (simp add: nth_list_update)
  moreover have "(h + m) mod length xs < length xs"
    using assms by (intro mod_less_divisor) linarith
  ultimately show ?thesis using assms by (simp add: ring_window_def)
qed

lemma ring_window_cons:
  assumes "0 < m"
  shows "ring_window xs h m = xs ! (h mod length xs) # ring_window xs (Suc h mod length xs) (m - 1)"
proof -
  have "[0..<m] = 0 # map Suc [0..<m - 1]"
    using assms by (cases m) (simp_all add: map_Suc_upt upt_conv_Cons del: upt_Suc)
  then show ?thesis
    by (simp add: ring_window_def comp_def mod_add_left_eq)
qed

lemma ring_window_update_head:
  assumes "0 < m" "m \<le> length xs"
  shows "ring_window (xs[h mod length xs := v]) (Suc h mod length xs) (m - 1)
       = ring_window xs (Suc h mod length xs) (m - 1)"
proof -
  have "xs[h mod length xs := v] ! ((Suc h mod length xs + i) mod length xs)
      = xs ! ((Suc h mod length xs + i) mod length xs)" if "i < m - 1" for i
  proof -
    have "(Suc h mod length xs + i) mod length xs \<noteq> h mod length xs"
      using that assms ring_index_inject [of "Suc i" "length xs" 0 h] length_0_conv [of xs]
      by (auto simp: mod_add_left_eq simp del: length_0_conv length_greater_0_conv)
    then show ?thesis by simp
  qed
  then show ?thesis by (simp add: ring_window_def)
qed

section \<open>Counting over the threads of a system\<close>

definition tally :: "('a \<Rightarrow> nat) \<Rightarrow> 'a list \<Rightarrow> nat" where
  "tally f ts = sum_list (map f ts)"

lemma tally_update:
  assumes "t < length ts"
  shows "tally f (ts[t := th]) + f (ts ! t) = tally f ts + f th"
  using assms
proof (induction ts arbitrary: t)
  case (Cons a ts)
  then show ?case by (cases t) (auto simp: tally_def)
qed (simp add: tally_def)

lemma tally_keep: "t < length ts \<Longrightarrow> f th = f (ts ! t) \<Longrightarrow> tally f (ts[t := th]) = tally f ts"
  using tally_update [of t ts f th] by simp

lemma tally_update_le: "t < length ts \<Longrightarrow> f th \<le> f (ts ! t) \<Longrightarrow> tally f (ts[t := th]) \<le> tally f ts"
  using tally_update [of t ts f th] by simp

lemma tally_member: "t < length ts \<Longrightarrow> f (ts ! t) \<le> tally f ts"
  by (simp add: tally_def member_le_sum_list)

lemma tally_split:
  assumes "t < length ts"
  shows "\<exists>n. tally f ts = n + f (ts ! t) \<and> (\<forall>y. tally f (ts[t := y]) = n + f y)"
proof -
  have "f (ts ! t) \<le> tally f ts" using assms by (rule tally_member)
  moreover have "tally f (ts[t := y]) + f (ts ! t) = tally f ts + f y" for y using assms by (rule tally_update)
  ultimately have "tally f (ts[t := y]) = (tally f ts - f (ts ! t)) + f y" for y by (metis Nat.add_diff_assoc2 add_diff_cancel_right')
  with \<open>f (ts ! t) \<le> tally f ts\<close> show ?thesis by (intro exI [of _ "tally f ts - f (ts ! t)"]) simp
qed

lemma tally_zero: "(tally f ts = 0) = (\<forall>th \<in> set ts. f th = 0)"
  by (auto simp: tally_def)

lemma tally_le: "(\<And>x. f x \<le> 1) \<Longrightarrow> tally f xs \<le> length xs"
  by (induction xs) (auto simp: tally_def intro: add_mono [of "f _" 1, simplified])

lemma tally_replicate: "tally f (replicate n x) = n * f x"
  by (induction n) (simp_all add: tally_def)

lemma of_nat_tally_update:
  assumes "t < length ts"
  shows "(of_nat (tally f (ts[t := th])) :: 'b :: ring_1) =
    of_nat (tally f ts) + of_nat (f th) - of_nat (f (ts ! t))"
proof -
  have "of_nat (tally f (ts[t := th]) + f (ts ! t)) = (of_nat (tally f ts + f th) :: 'b)"
    using tally_update [OF assms, of f th] by (rule arg_cong)
  then show ?thesis by (simp add: algebra_simps)
qed

lemma list_ex_update: "list_ex Q (xs[t := y]) \<Longrightarrow> list_ex Q xs \<or> Q y"
  using set_update_subset_insert [of xs t y] by (auto simp: list_ex_iff)

text \<open>Everything the threads hold, as a multiset.\<close>

definition gather :: "('a \<Rightarrow> 'b list) \<Rightarrow> 'a list \<Rightarrow> 'b multiset" where
  "gather f ts = mset (concat (map f ts))"

lemma gather_split:
  assumes "t < length ts"
  obtains R where "gather f ts = R + mset (f (ts ! t))" "\<And>y. gather f (ts[t := y]) = R + mset (f y)"
proof
  let ?R = "gather f (take t ts) + gather f (drop (Suc t) ts)"
  show upd: "gather f (ts[t := y]) = ?R + mset (f y)" for y
    using assms by (simp add: upd_conv_take_nth_drop gather_def add_ac)
  show "gather f ts = ?R + mset (f (ts ! t))" using upd [of "ts ! t"] by simp
qed

lemma gather_update:
  "t < length ts \<Longrightarrow> gather f (ts[t := y]) + mset (f (ts ! t)) = gather f ts + mset (f y)"
  by (rule gather_split [of t ts f]) (simp_all add: add_ac)

lemma gather_keep: "t < length ts \<Longrightarrow> f y = f (ts ! t) \<Longrightarrow> gather f (ts[t := y]) = gather f ts"
  using gather_update [of t ts f y] by simp

lemma gather_replicate: "f x = [] \<Longrightarrow> gather f (replicate n x) = {#}"
  by (induction n) (simp_all add: gather_def)

lemma gather_append: "gather f ts + gather g ts = gather (\<lambda>x. f x @ g x) ts"
  by (induction ts) (simp_all add: gather_def add_ac)

lemma gather_twice:
  assumes "t < length ts" "u < length ts" "t \<noteq> u" "i \<in> set (f (ts ! t))" "i \<in> set (f (ts ! u))"
  shows "1 < count (gather f ts) i"
proof -
  let ?R = "gather f (take t ts) + gather f (drop (Suc t) ts)"
  have "gather f (take t ts @ ts ! t # drop (Suc t) ts) = ?R + mset (f (ts ! t))"
    by (simp add: gather_def add_ac)
  then have "gather f ts = ?R + mset (f (ts ! t))"
    by (simp only: id_take_nth_drop [OF assms(1), symmetric])
  moreover have "ts ! u \<in> set (take t ts) \<union> set (drop (Suc t) ts)"
  proof (cases "u < t")
    case True
    then have "take t ts ! u = ts ! u" "u < length (take t ts)" using assms(1) by simp_all
    then show ?thesis by (metis UnI1 nth_mem)
  next
    case False
    then have "drop (Suc t) ts ! (u - Suc t) = ts ! u" "u - Suc t < length (drop (Suc t) ts)"
      using assms(2,3) by simp_all
    then show ?thesis by (metis UnI2 nth_mem)
  qed
  then have "i \<in># ?R" using assms(5) by (auto simp: gather_def)
  then have "0 < count ?R i" by (simp only: count_greater_zero_iff)
  moreover have "0 < count (mset (f (ts ! t))) i" using assms(4) by (simp only: count_greater_zero_iff set_mset_mset)
  ultimately show ?thesis by (metis One_nat_def Suc_lessI add_gr_0 count_union less_add_same_cancel1 nat_neq_iff not_add_less1)
qed

lemma gather_map: "(\<And>x. f (g x) = f x) \<Longrightarrow> gather f (map g ts) = gather f ts"
  by (simp add: gather_def comp_def)

lemma count_list_distinct: "distinct xs \<Longrightarrow> count_list xs x = of_bool (x \<in> set xs)"
  by (induction xs) auto

end
