(* ===== verification/Queue_Contract.thy ===== *)
theory Queue_Contract
  imports Prelude
begin

text \<open>
  The queue policy boundary (\<open>queue/queue_status.hpp\<close>, \<open>queue/pop_result.hpp\<close>,
  \<open>queue/concurrent_queue.hpp\<close>): the status codes, the pop result class, the record of the
  operations a queue policy offers to the dispatcher, and the contract every policy has to
  meet.

  The contract is functional: an abstract bounded queue (capacity, contents in order, closed
  flag) with one specification function per operation, and a locale that says that a policy's
  operations, seen through an abstraction function, are those specification functions. The
  locale is interpreted for the mutex queue and for the lock-free queue; what the dispatcher
  relies on is proved inside it.
\<close>

section \<open>Status codes and pop results\<close>

datatype queue_status = success | full | empty | closed | stopped | timeout

record 'e pop_result =
  pr_status :: queue_status
  pr_value :: "'e option"

definition pop_success :: "'e \<Rightarrow> 'e pop_result" where
  "pop_success e = \<lparr>pr_status = success, pr_value = Some e\<rparr>"

definition pop_empty :: "'e pop_result" where
  "pop_empty = \<lparr>pr_status = empty, pr_value = None\<rparr>"

definition pop_closed :: "'e pop_result" where
  "pop_closed = \<lparr>pr_status = closed, pr_value = None\<rparr>"

definition pop_stopped :: "'e pop_result" where
  "pop_stopped = \<lparr>pr_status = stopped, pr_value = None\<rparr>"

definition has_value :: "'e pop_result \<Rightarrow> bool" where
  "has_value r = (pr_value r \<noteq> None)"

text \<open>\<open>value()\<close> is \<open>std::optional::value\<close>, which throws when it is disengaged.\<close>

definition pop_value :: "'e pop_result \<Rightarrow> exn + 'e" where
  "pop_value r = (case pr_value r of None \<Rightarrow> Inl Bad_optional_access | Some e \<Rightarrow> Inr e)"

lemmas pop_result_defs = pop_success_def pop_empty_def pop_closed_def pop_stopped_def

lemma pop_result_simps [simp]:
  "pr_status (pop_success e) = success" "pr_value (pop_success e) = Some e"
  "pr_status pop_empty = empty" "pr_value pop_empty = None"
  "pr_status pop_closed = closed" "pr_value pop_closed = None"
  "pr_status pop_stopped = stopped" "pr_value pop_stopped = None"
  "pop_success e \<noteq> pop_empty" "pop_success e \<noteq> pop_closed" "pop_success e \<noteq> pop_stopped"
  "pop_empty \<noteq> pop_success e" "pop_closed \<noteq> pop_success e" "pop_stopped \<noteq> pop_success e"
  "pop_empty \<noteq> pop_closed" "pop_closed \<noteq> pop_empty" "pop_stopped \<noteq> pop_closed"
  "pop_closed \<noteq> pop_stopped" "pop_stopped \<noteq> pop_empty" "pop_empty \<noteq> pop_stopped"
  "(pop_success e = pop_success e') = (e = e')"
  by (simp_all add: pop_result_defs)

text \<open>The class invariant of \<open>pop_result\<close>: the value is engaged exactly on success.\<close>

definition pop_result_ok :: "'e pop_result \<Rightarrow> bool" where
  "pop_result_ok r = (has_value r = (pr_status r = success))"

lemma pop_result_ok_cases [simp]:
  "pop_result_ok (pop_success e)" "pop_result_ok pop_empty" "pop_result_ok pop_closed"
  "pop_result_ok pop_stopped"
  by (simp_all add: pop_result_ok_def has_value_def)

lemma pop_value_success [simp]: "pop_value (pop_success e) = Inr e"
  by (simp add: pop_value_def)

section \<open>The operations of a queue policy\<close>

text \<open>
  A push is called with the outcome \<open>exn + 'e\<close> that constructing the \<open>Event\<close> from the forwarded
  argument would have: \<open>Inr e\<close> for the rvalue overloads, whose move constructor the static
  assertion makes non-throwing, and possibly \<open>Inl x\<close> for a copy or for \<open>try_emplace\<close>. Its result
  is the returned status (or the propagated exception) together with a flag that says whether
  the argument was forwarded to the constructor at all, that is, whether a moved-from source is
  left behind.
\<close>

type_synonym push_out = "(exn + queue_status) \<times> bool"

text \<open>
  One record for the template parameter \<open>QueuePolicy\<close>. A result \<open>None\<close> says that the call does
  not return without a step of another thread (it parks). The stop token of the waiting
  operations and the expiry of the deadline are arguments.
\<close>

record ('e, 'q) queue_policy =
  qp_new :: "size_t \<Rightarrow> exn + 'q"
  qp_try_push :: "'q \<Rightarrow> exn + 'e \<Rightarrow> (push_out \<times> 'q) option"
  qp_try_emplace :: "'q \<Rightarrow> exn + 'e \<Rightarrow> (push_out \<times> 'q) option"
  qp_wait_push :: "'q \<Rightarrow> exn + 'e \<Rightarrow> bool \<Rightarrow> (push_out \<times> 'q) option"
  qp_wait_push_until :: "'q \<Rightarrow> exn + 'e \<Rightarrow> bool \<Rightarrow> bool \<Rightarrow> (push_out \<times> 'q) option"
  qp_try_pop :: "'q \<Rightarrow> ('e pop_result \<times> 'q) option"
  qp_wait_pop :: "'q \<Rightarrow> bool \<Rightarrow> ('e pop_result \<times> 'q) option"
  qp_close :: "'q \<Rightarrow> 'q option"
  qp_close_and_discard :: "'q \<Rightarrow> (size_t \<times> 'q) option"
  qp_capacity :: "'q \<Rightarrow> size_t"
  qp_size :: "'q \<Rightarrow> size_t"
  qp_closed :: "'q \<Rightarrow> bool"

section \<open>The abstract bounded queue\<close>

record 'e aqueue =
  aq_cap :: nat
  aq_items :: "'e list"
  aq_closed :: bool

definition spec_push_now :: "'e aqueue \<Rightarrow> exn + 'e \<Rightarrow> push_out \<times> 'e aqueue" where
  "spec_push_now a c = (case c of
       Inl x \<Rightarrow> ((Inl x, True), a)
     | Inr e \<Rightarrow> ((Inr success, True), a\<lparr>aq_items := aq_items a @ [e]\<rparr>))"

definition spec_try_push :: "'e aqueue \<Rightarrow> exn + 'e \<Rightarrow> push_out \<times> 'e aqueue" where
  "spec_try_push a c =
     (if aq_closed a then ((Inr closed, False), a)
      else if length (aq_items a) = aq_cap a then ((Inr full, False), a)
      else spec_push_now a c)"

definition spec_wait_push :: "'e aqueue \<Rightarrow> exn + 'e \<Rightarrow> bool \<Rightarrow> (push_out \<times> 'e aqueue) option" where
  "spec_wait_push a c stop =
     (if aq_closed a then Some ((Inr closed, False), a)
      else if length (aq_items a) = aq_cap a
        then (if stop then Some ((Inr stopped, False), a) else None)
      else Some (spec_push_now a c))"

definition spec_wait_push_until ::
  "'e aqueue \<Rightarrow> exn + 'e \<Rightarrow> bool \<Rightarrow> bool \<Rightarrow> (push_out \<times> 'e aqueue) option" where
  "spec_wait_push_until a c stop expired =
     (if aq_closed a then Some ((Inr closed, False), a)
      else if length (aq_items a) = aq_cap a
        then (if stop then Some ((Inr stopped, False), a)
              else if expired then Some ((Inr timeout, False), a) else None)
      else Some (spec_push_now a c))"

definition spec_try_pop :: "'e aqueue \<Rightarrow> 'e pop_result \<times> 'e aqueue" where
  "spec_try_pop a = (case aq_items a of
       [] \<Rightarrow> (if aq_closed a then pop_closed else pop_empty, a)
     | e # es \<Rightarrow> (pop_success e, a\<lparr>aq_items := es\<rparr>))"

definition spec_wait_pop :: "'e aqueue \<Rightarrow> bool \<Rightarrow> ('e pop_result \<times> 'e aqueue) option" where
  "spec_wait_pop a stop = (case aq_items a of
       [] \<Rightarrow> (if aq_closed a then Some (pop_closed, a)
             else if stop then Some (pop_stopped, a) else None)
     | e # es \<Rightarrow> Some (pop_success e, a\<lparr>aq_items := es\<rparr>))"

definition spec_close :: "'e aqueue \<Rightarrow> 'e aqueue" where
  "spec_close a = a\<lparr>aq_closed := True\<rparr>"

definition spec_close_and_discard :: "'e aqueue \<Rightarrow> size_t \<times> 'e aqueue" where
  "spec_close_and_discard a =
     (of_nat (length (aq_items a)), a\<lparr>aq_items := [], aq_closed := True\<rparr>)"

definition aqueue_ok :: "'e aqueue \<Rightarrow> bool" where
  "aqueue_ok a = (0 < aq_cap a \<and> aq_cap a < 18446744073709551616 \<and> length (aq_items a) \<le> aq_cap a)"

lemmas spec_defs = spec_push_now_def spec_try_push_def spec_wait_push_def spec_wait_push_until_def
  spec_try_pop_def spec_wait_pop_def spec_close_def spec_close_and_discard_def

section \<open>Histories of calls\<close>

text \<open>
  The methods of a queue that many threads use take effect one after the other (under the mutex,
  or at their linearization points). A history is such a sequence of calls on one queue; the log
  records the events that were accepted, the events that were handed out and the number of events
  that \<open>close_and_discard\<close> reported. A call that parks leaves queue and log as they are.
\<close>

datatype 'e queue_call =
    Try_push "exn + 'e"
  | Try_emplace "exn + 'e"
  | Wait_push "exn + 'e" bool
  | Wait_push_until "exn + 'e" bool bool
  | Try_pop
  | Wait_pop bool
  | Close
  | Close_and_discard

record 'e queue_log =
  ql_accepted :: "'e list"
  ql_popped :: "'e list"
  ql_discarded :: nat

definition log_push :: "exn + 'e \<Rightarrow> (push_out \<times> 'q) option \<Rightarrow> 'q \<Rightarrow> 'e queue_log \<Rightarrow> 'q \<times> 'e queue_log" where
  "log_push c res q l = (case res of
       None \<Rightarrow> (q, l)
     | Some ((r, _), q') \<Rightarrow> (q', (case (r, c) of
           (Inr success, Inr e) \<Rightarrow> l\<lparr>ql_accepted := ql_accepted l @ [e]\<rparr> | _ \<Rightarrow> l)))"

definition log_pop :: "('e pop_result \<times> 'q) option \<Rightarrow> 'q \<Rightarrow> 'e queue_log \<Rightarrow> 'q \<times> 'e queue_log" where
  "log_pop res q l = (case res of
       None \<Rightarrow> (q, l)
     | Some (p, q') \<Rightarrow> (q', (case pr_value p of
           Some e \<Rightarrow> l\<lparr>ql_popped := ql_popped l @ [e]\<rparr> | None \<Rightarrow> l)))"

fun queue_step :: "('e, 'q) queue_policy \<Rightarrow> 'q \<times> 'e queue_log \<Rightarrow> 'e queue_call \<Rightarrow> 'q \<times> 'e queue_log" where
  "queue_step P (q, l) (Try_push c) = log_push c (qp_try_push P q c) q l"
| "queue_step P (q, l) (Try_emplace c) = log_push c (qp_try_emplace P q c) q l"
| "queue_step P (q, l) (Wait_push c stop) = log_push c (qp_wait_push P q c stop) q l"
| "queue_step P (q, l) (Wait_push_until c stop expired) =
     log_push c (qp_wait_push_until P q c stop expired) q l"
| "queue_step P (q, l) Try_pop = log_pop (qp_try_pop P q) q l"
| "queue_step P (q, l) (Wait_pop stop) = log_pop (qp_wait_pop P q stop) q l"
| "queue_step P (q, l) Close = (case qp_close P q of None \<Rightarrow> (q, l) | Some q' \<Rightarrow> (q', l))"
| "queue_step P (q, l) Close_and_discard = (case qp_close_and_discard P q of
      None \<Rightarrow> (q, l)
    | Some (n, q') \<Rightarrow> (q', l\<lparr>ql_discarded := ql_discarded l + unat n\<rparr>))"

definition queue_history :: "('e, 'q) queue_policy \<Rightarrow> 'q \<Rightarrow> 'e queue_call list \<Rightarrow> 'q \<times> 'e queue_log" where
  "queue_history P q calls =
     foldl (queue_step P) (q, \<lparr>ql_accepted = [], ql_popped = [], ql_discarded = 0\<rparr>) calls"

text \<open>What the callers see: the response to each call of a history.\<close>

datatype 'e queue_response =
    Pushed push_out
  | Popped "'e pop_result"
  | Closed
  | Discarded size_t
  | Parked

definition push_response :: "(push_out \<times> 'q) option \<Rightarrow> 'q \<Rightarrow> 'e queue_response \<times> 'q" where
  "push_response res q = (case res of None \<Rightarrow> (Parked, q) | Some (r, q') \<Rightarrow> (Pushed r, q'))"

definition pop_response :: "('e pop_result \<times> 'q) option \<Rightarrow> 'q \<Rightarrow> 'e queue_response \<times> 'q" where
  "pop_response res q = (case res of None \<Rightarrow> (Parked, q) | Some (p, q') \<Rightarrow> (Popped p, q'))"

fun respond :: "('e, 'q) queue_policy \<Rightarrow> 'q \<Rightarrow> 'e queue_call \<Rightarrow> 'e queue_response \<times> 'q" where
  "respond P q (Try_push c) = push_response (qp_try_push P q c) q"
| "respond P q (Try_emplace c) = push_response (qp_try_emplace P q c) q"
| "respond P q (Wait_push c stop) = push_response (qp_wait_push P q c stop) q"
| "respond P q (Wait_push_until c stop expired) = push_response (qp_wait_push_until P q c stop expired) q"
| "respond P q Try_pop = pop_response (qp_try_pop P q) q"
| "respond P q (Wait_pop stop) = pop_response (qp_wait_pop P q stop) q"
| "respond P q Close = (case qp_close P q of None \<Rightarrow> (Parked, q) | Some q' \<Rightarrow> (Closed, q'))"
| "respond P q Close_and_discard = (case qp_close_and_discard P q of
      None \<Rightarrow> (Parked, q) | Some (n, q') \<Rightarrow> (Discarded n, q'))"

fun responses :: "('e, 'q) queue_policy \<Rightarrow> 'q \<Rightarrow> 'e queue_call list \<Rightarrow> 'e queue_response list" where
  "responses P q [] = []"
| "responses P q (call # calls) = (case respond P q call of (r, q') \<Rightarrow> r # responses P q' calls)"

text \<open>The abstract queue as a policy of its own: the reference that every policy answers like.\<close>

definition reference_policy :: "('e, 'e aqueue) queue_policy" where
  "reference_policy = \<lparr>
     qp_new = (\<lambda>n. Inr \<lparr>aq_cap = unat n, aq_items = [], aq_closed = False\<rparr>),
     qp_try_push = (\<lambda>a c. Some (spec_try_push a c)),
     qp_try_emplace = (\<lambda>a c. Some (spec_try_push a c)),
     qp_wait_push = spec_wait_push,
     qp_wait_push_until = spec_wait_push_until,
     qp_try_pop = (\<lambda>a. Some (spec_try_pop a)),
     qp_wait_pop = spec_wait_pop,
     qp_close = (\<lambda>a. Some (spec_close a)),
     qp_close_and_discard = (\<lambda>a. Some (spec_close_and_discard a)),
     qp_capacity = (\<lambda>a. of_nat (aq_cap a)),
     qp_size = (\<lambda>a. of_nat (length (aq_items a))),
     qp_closed = aq_closed\<rparr>"

lemma push_response_abs:
  "map_option (map_prod id f) res = res' \<Longrightarrow> push_response res' (f q) = map_prod id f (push_response res q)"
  by (cases res) (auto simp: push_response_def)

lemma pop_response_abs:
  "map_option (map_prod id f) res = res' \<Longrightarrow> pop_response res' (f q) = map_prod id f (pop_response res q)"
  by (cases res) (auto simp: pop_response_def)

lemma response_state:
  "snd (push_response res q) = (case res of None \<Rightarrow> q | Some (r, q') \<Rightarrow> q')"
  "snd (pop_response res' q) = (case res' of None \<Rightarrow> q | Some (p, q') \<Rightarrow> q')"
  by (auto simp: push_response_def pop_response_def split: option.splits)

text \<open>
  The responses a call may have: each operation has its own set of status codes, an argument is consumed
  exactly when its constructor ran, a pop result is engaged exactly on success, and only the waiting
  operations park, unless they were asked to stop or their deadline has passed.
\<close>

definition push_out_ok :: "exn + 'e \<Rightarrow> queue_status set \<Rightarrow> push_out \<Rightarrow> bool" where
  "push_out_ok c failures r = (case r of
       (Inl x, consumed) \<Rightarrow> c = Inl x \<and> consumed
     | (Inr st, consumed) \<Rightarrow>
         (if consumed then st = success \<and> \<not> isl c else st \<in> failures))"

definition pop_out_ok :: "queue_status set \<Rightarrow> 'e pop_result \<Rightarrow> bool" where
  "pop_out_ok statuses p = (pop_result_ok p \<and> pr_status p \<in> insert success statuses)"

fun response_typed :: "'e queue_call \<Rightarrow> 'e queue_response \<Rightarrow> bool" where
  "response_typed (Try_push c) (Pushed r) = push_out_ok c {full, closed} r"
| "response_typed (Try_emplace c) (Pushed r) = push_out_ok c {full, closed} r"
| "response_typed (Wait_push c stop) (Pushed r) =
     push_out_ok c ({closed} \<union> (if stop then {stopped} else {})) r"
| "response_typed (Wait_push c stop) Parked = (\<not> stop)"
| "response_typed (Wait_push_until c stop expired) (Pushed r) =
     push_out_ok c ({closed} \<union> (if stop then {stopped} else if expired then {timeout} else {})) r"
| "response_typed (Wait_push_until c stop expired) Parked = (\<not> stop \<and> \<not> expired)"
| "response_typed Try_pop (Popped p) = pop_out_ok {empty, closed} p"
| "response_typed (Wait_pop stop) (Popped p) = pop_out_ok ({closed} \<union> (if stop then {stopped} else {})) p"
| "response_typed (Wait_pop stop) Parked = (\<not> stop)"
| "response_typed Close Closed = True"
| "response_typed Close_and_discard (Discarded n) = True"
| "response_typed _ _ = False"

lemma push_now_typed: "push_out_ok c failures (fst (spec_push_now a c))"
  by (cases c) (simp_all add: push_out_ok_def spec_push_now_def)

lemma failed_push_typed [simp]: "push_out_ok c failures (Inr st, False) = (st \<in> failures)"
  by (simp add: push_out_ok_def)

lemma pop_out_typed [simp]:
  "pop_out_ok S (pop_success e)" "pop_out_ok S pop_empty = (empty \<in> S)"
  "pop_out_ok S pop_closed = (closed \<in> S)" "pop_out_ok S pop_stopped = (stopped \<in> S)"
  by (auto simp: pop_out_ok_def)

lemma reference_typed: "response_typed call (fst (respond reference_policy a call))"
proof (cases call)
  case (Try_push c)
  then show ?thesis using push_now_typed [of c _ a]
    by (auto simp: reference_policy_def push_response_def spec_try_push_def split: prod.splits)
next
  case (Try_emplace c)
  then show ?thesis using push_now_typed [of c _ a]
    by (auto simp: reference_policy_def push_response_def spec_try_push_def split: prod.splits)
next
  case (Wait_push c stop)
  then show ?thesis using push_now_typed [of c _ a]
    by (auto simp: reference_policy_def push_response_def spec_wait_push_def split: prod.splits)
next
  case (Wait_push_until c stop expired)
  then show ?thesis using push_now_typed [of c _ a]
    by (auto simp: reference_policy_def push_response_def spec_wait_push_until_def split: prod.splits)
next
  case Try_pop
  then show ?thesis
    by (simp add: reference_policy_def pop_response_def spec_try_pop_def split: list.split)
next
  case (Wait_pop stop)
  then show ?thesis
    by (simp add: reference_policy_def pop_response_def spec_wait_pop_def split: list.split)
qed (simp_all add: reference_policy_def spec_close_and_discard_def)

text \<open>FIFO and conservation: what was accepted is what was handed out, in the same order, then
  what a discard destroyed, then what is still queued; a discard closes the queue.\<close>

definition fifo_ok :: "'e aqueue \<Rightarrow> 'e queue_log \<Rightarrow> bool" where
  "fifo_ok a l = (\<exists>dropped. ql_accepted l = ql_popped l @ dropped @ aq_items a \<and>
     length dropped = ql_discarded l \<and> (dropped \<noteq> [] \<longrightarrow> aq_items a = [] \<and> aq_closed a))"

lemma fifo_ok_push:
  assumes "fifo_ok a l" "\<not> aq_closed a"
  shows "fifo_ok (a\<lparr>aq_items := aq_items a @ [e]\<rparr>) (l\<lparr>ql_accepted := ql_accepted l @ [e]\<rparr>)"
  using assms by (auto simp: fifo_ok_def)

lemma fifo_ok_pop:
  assumes "fifo_ok a l" "aq_items a = e # es"
  shows "fifo_ok (a\<lparr>aq_items := es\<rparr>) (l\<lparr>ql_popped := ql_popped l @ [e]\<rparr>)"
  using assms by (auto simp: fifo_ok_def)

lemma fifo_ok_close: "fifo_ok a l \<Longrightarrow> fifo_ok (a\<lparr>aq_closed := True\<rparr>) l"
  by (auto simp: fifo_ok_def)

lemma fifo_ok_discard:
  assumes "fifo_ok a l" "n = length (aq_items a)"
  shows "fifo_ok (a\<lparr>aq_items := [], aq_closed := True\<rparr>) (l\<lparr>ql_discarded := ql_discarded l + n\<rparr>)"
proof -
  from assms obtain d where "ql_accepted l = ql_popped l @ d @ aq_items a" "length d = ql_discarded l"
    by (auto simp: fifo_ok_def)
  with assms(2) show ?thesis by (intro exI [of _ "d @ aq_items a"] fifo_ok_def [THEN iffD2]) simp
qed

text \<open>What the specification of any push, or of any pop, says about one result.\<close>

definition spec_push_result :: "'e aqueue \<Rightarrow> exn + 'e \<Rightarrow> push_out \<Rightarrow> 'e aqueue \<Rightarrow> bool" where
  "spec_push_result a c r a' = (
     (\<exists>st. st \<noteq> success \<and> r = (Inr st, False) \<and> a' = a) \<or>
     (\<not> aq_closed a \<and> length (aq_items a) \<noteq> aq_cap a \<and> (r, a') = spec_push_now a c))"

definition spec_pop_result :: "'e aqueue \<Rightarrow> 'e pop_result \<Rightarrow> 'e aqueue \<Rightarrow> bool" where
  "spec_pop_result a p a' = (
     (aq_items a = [] \<and> p \<in> {pop_empty, pop_closed, pop_stopped} \<and> a' = a) \<or>
     (\<exists>e es. aq_items a = e # es \<and> p = pop_success e \<and> a' = a\<lparr>aq_items := es\<rparr>))"

lemma spec_push_resultI:
  "(r, a') = spec_try_push a c \<Longrightarrow> spec_push_result a c r a'"
  "spec_wait_push a c st = Some (r, a') \<Longrightarrow> spec_push_result a c r a'"
  "spec_wait_push_until a c st ex = Some (r, a') \<Longrightarrow> spec_push_result a c r a'"
  by (auto simp: spec_try_push_def spec_wait_push_def spec_wait_push_until_def spec_push_result_def
      split: if_splits)

lemma spec_pop_resultI:
  "(p, a') = spec_try_pop a \<Longrightarrow> spec_pop_result a p a'"
  "spec_wait_pop a st = Some (p, a') \<Longrightarrow> spec_pop_result a p a'"
  by (auto simp: spec_try_pop_def spec_wait_pop_def spec_pop_result_def split: if_splits list.splits)

lemma fifo_ok_log_push:
  assumes "fifo_ok a l" "spec_push_result a c (x, b) a'"
  shows "aq_cap a' = aq_cap a \<and> fifo_ok a' (case (x, c) of
      (Inr success, Inr e) \<Rightarrow> l\<lparr>ql_accepted := ql_accepted l @ [e]\<rparr> | _ \<Rightarrow> l)"
  using assms
  by (auto simp: spec_push_result_def spec_push_now_def intro: fifo_ok_push
      split: if_splits sum.splits queue_status.splits)

lemma fifo_ok_log_pop:
  assumes "fifo_ok a l" "spec_pop_result a p a'"
  shows "aq_cap a' = aq_cap a \<and>
    fifo_ok a' (case pr_value p of Some e \<Rightarrow> l\<lparr>ql_popped := ql_popped l @ [e]\<rparr> | None \<Rightarrow> l)"
  using assms by (auto simp: spec_pop_result_def intro: fifo_ok_pop)

section \<open>The contract\<close>

locale concurrent_queue =
  fixes P :: "('e, 'q) queue_policy"
    and abs :: "'q \<Rightarrow> 'e aqueue"
    and inv :: "'q \<Rightarrow> bool"
  assumes new_ok: "qp_new P n = Inr q \<Longrightarrow> inv q \<and> abs q = \<lparr>aq_cap = unat n, aq_items = [], aq_closed = False\<rparr>"
    and abs_ok: "inv q \<Longrightarrow> aqueue_ok (abs q)"
    and try_push_ref: "inv q \<Longrightarrow>
      map_option (map_prod id abs) (qp_try_push P q c) = Some (spec_try_push (abs q) c)"
    and try_push_inv: "inv q \<Longrightarrow> qp_try_push P q c = Some (r, q') \<Longrightarrow> inv q'"
    and try_emplace_ref: "inv q \<Longrightarrow>
      map_option (map_prod id abs) (qp_try_emplace P q c) = Some (spec_try_push (abs q) c)"
    and try_emplace_inv: "inv q \<Longrightarrow> qp_try_emplace P q c = Some (r, q') \<Longrightarrow> inv q'"
    and wait_push_ref: "inv q \<Longrightarrow>
      map_option (map_prod id abs) (qp_wait_push P q c stop) = spec_wait_push (abs q) c stop"
    and wait_push_inv: "inv q \<Longrightarrow> qp_wait_push P q c stop = Some (r, q') \<Longrightarrow> inv q'"
    and wait_push_until_ref: "inv q \<Longrightarrow>
      map_option (map_prod id abs) (qp_wait_push_until P q c stop expired) =
      spec_wait_push_until (abs q) c stop expired"
    and wait_push_until_inv: "inv q \<Longrightarrow>
      qp_wait_push_until P q c stop expired = Some (r, q') \<Longrightarrow> inv q'"
    and try_pop_ref: "inv q \<Longrightarrow>
      map_option (map_prod id abs) (qp_try_pop P q) = Some (spec_try_pop (abs q))"
    and try_pop_inv: "inv q \<Longrightarrow> qp_try_pop P q = Some (p, q') \<Longrightarrow> inv q'"
    and wait_pop_ref: "inv q \<Longrightarrow>
      map_option (map_prod id abs) (qp_wait_pop P q stop) = spec_wait_pop (abs q) stop"
    and wait_pop_inv: "inv q \<Longrightarrow> qp_wait_pop P q stop = Some (p, q') \<Longrightarrow> inv q'"
    and close_ref: "inv q \<Longrightarrow> map_option abs (qp_close P q) = Some (spec_close (abs q))"
    and close_inv: "inv q \<Longrightarrow> qp_close P q = Some q' \<Longrightarrow> inv q'"
    and close_and_discard_ref: "inv q \<Longrightarrow>
      map_option (map_prod id abs) (qp_close_and_discard P q) = Some (spec_close_and_discard (abs q))"
    and close_and_discard_inv: "inv q \<Longrightarrow> qp_close_and_discard P q = Some (n, q') \<Longrightarrow> inv q'"
    and capacity_ref: "inv q \<Longrightarrow> unat (qp_capacity P q) = aq_cap (abs q)"
    and size_ref: "inv q \<Longrightarrow> unat (qp_size P q) = length (aq_items (abs q))"
    and closed_ref: "inv q \<Longrightarrow> qp_closed P q = aq_closed (abs q)"
begin

lemmas policy_inv = try_push_inv try_emplace_inv wait_push_inv wait_push_until_inv try_pop_inv
  wait_pop_inv close_inv close_and_discard_inv

lemma try_push_cases:
  assumes "inv q"
  obtains r q' where "qp_try_push P q c = Some (r, q')" "inv q'"
    "(r, abs q') = spec_try_push (abs q) c"
  using assms try_push_ref [OF assms, of c] try_push_inv [OF assms, of c]
  by (cases "qp_try_push P q c") (auto simp: map_prod_def)

lemma try_pop_cases:
  assumes "inv q"
  obtains p q' where "qp_try_pop P q = Some (p, q')" "inv q'" "(p, abs q') = spec_try_pop (abs q)"
  using assms try_pop_ref [OF assms] try_pop_inv [OF assms]
  by (cases "qp_try_pop P q") (auto simp: map_prod_def)

lemma close_cases:
  assumes "inv q"
  obtains q' where "qp_close P q = Some q'" "inv q'" "abs q' = spec_close (abs q)"
  using assms close_ref [OF assms] close_inv [OF assms] by (cases "qp_close P q") auto

lemma close_and_discard_cases:
  assumes "inv q"
  obtains n q' where "qp_close_and_discard P q = Some (n, q')" "inv q'"
    "(n, abs q') = spec_close_and_discard (abs q)"
  using assms close_and_discard_ref [OF assms] close_and_discard_inv [OF assms]
  by (cases "qp_close_and_discard P q") (auto simp: map_prod_def)

lemma wait_pop_abs:
  assumes "inv q" "qp_wait_pop P q stop = Some (p, q')"
  shows "inv q'" "spec_wait_pop (abs q) stop = Some (p, abs q')"
  using assms wait_pop_ref [OF assms(1), of stop] wait_pop_inv [OF assms] by (auto simp: map_prod_def)

lemma wait_push_abs:
  assumes "inv q" "qp_wait_push P q c stop = Some (r, q')"
  shows "inv q'" "spec_wait_push (abs q) c stop = Some (r, abs q')"
  using assms wait_push_ref [OF assms(1), of c stop] wait_push_inv [OF assms]
  by (auto simp: map_prod_def)

lemma wait_push_until_abs:
  assumes "inv q" "qp_wait_push_until P q c stop expired = Some (r, q')"
  shows "inv q'" "spec_wait_push_until (abs q) c stop expired = Some (r, abs q')"
  using assms wait_push_until_ref [OF assms(1), of c stop expired] wait_push_until_inv [OF assms]
  by (auto simp: map_prod_def)

lemma try_emplace_cases:
  assumes "inv q"
  obtains r q' where "qp_try_emplace P q c = Some (r, q')" "inv q'"
    "(r, abs q') = spec_try_push (abs q) c"
  using assms try_emplace_ref [OF assms, of c] try_emplace_inv [OF assms, of c]
  by (cases "qp_try_emplace P q c") (auto simp: map_prod_def)

text \<open>One call of a history keeps the invariant, the capacity and the order of events.\<close>

definition history_ok :: "nat \<Rightarrow> 'q \<times> 'e queue_log \<Rightarrow> bool" where
  "history_ok cap s = (inv (fst s) \<and> aq_cap (abs (fst s)) = cap \<and> fifo_ok (abs (fst s)) (snd s))"

lemma log_push_ok:
  assumes "history_ok cap (q, l)"
    and "\<And>r q'. res = Some (r, q') \<Longrightarrow> inv q' \<and> spec_push_result (abs q) c r (abs q')"
  shows "history_ok cap (log_push c res q l)"
proof (cases res)
  case None
  with assms show ?thesis by (simp add: log_push_def)
next
  case (Some z)
  then obtain x b q' where z: "res = Some ((x, b), q')" by (cases z) auto
  with assms(2) have "inv q'" "spec_push_result (abs q) c (x, b) (abs q')" by blast+
  with fifo_ok_log_push assms(1) z show ?thesis
    unfolding history_ok_def log_push_def by fastforce
qed

lemma log_pop_ok:
  assumes "history_ok cap (q, l)"
    and "\<And>p q'. res = Some (p, q') \<Longrightarrow> inv q' \<and> spec_pop_result (abs q) p (abs q')"
  shows "history_ok cap (log_pop res q l)"
proof (cases res)
  case None
  with assms show ?thesis by (simp add: log_pop_def)
next
  case (Some z)
  then obtain p q' where z: "res = Some (p, q')" by (cases z) auto
  with assms(2) have "inv q'" "spec_pop_result (abs q) p (abs q')" by blast+
  with fifo_ok_log_pop assms(1) z show ?thesis
    unfolding history_ok_def log_pop_def by fastforce
qed

lemma queue_step_ok:
  assumes h: "history_ok cap (q, l)"
  shows "history_ok cap (queue_step P (q, l) call)"
proof -
  from h have inv: "inv q" and fifo: "fifo_ok (abs q) l" by (simp_all add: history_ok_def)
  show ?thesis
  proof (cases call)
    case (Try_push c)
    obtain r q' where "qp_try_push P q c = Some (r, q')" "inv q'"
      "(r, abs q') = spec_try_push (abs q) c"
      using try_push_cases [OF inv, of c] .
    with Try_push show ?thesis
      using log_push_ok [OF h, of "qp_try_push P q c" c] by (simp add: spec_push_resultI(1))
  next
    case (Try_emplace c)
    obtain r q' where "qp_try_emplace P q c = Some (r, q')" "inv q'"
      "(r, abs q') = spec_try_push (abs q) c"
      using try_emplace_cases [OF inv, of c] .
    with Try_emplace show ?thesis
      using log_push_ok [OF h, of "qp_try_emplace P q c" c] by (simp add: spec_push_resultI(1))
  next
    case (Wait_push c stop)
    have "history_ok cap (log_push c (qp_wait_push P q c stop) q l)"
      by (rule log_push_ok [OF h]) (blast dest: wait_push_abs [OF inv] intro: spec_push_resultI)
    with Wait_push show ?thesis by simp
  next
    case (Wait_push_until c stop expired)
    have "history_ok cap (log_push c (qp_wait_push_until P q c stop expired) q l)"
      by (rule log_push_ok [OF h]) (blast dest: wait_push_until_abs [OF inv] intro: spec_push_resultI)
    with Wait_push_until show ?thesis by simp
  next
    case Try_pop
    obtain p q' where "qp_try_pop P q = Some (p, q')" "inv q'" "(p, abs q') = spec_try_pop (abs q)"
      using try_pop_cases [OF inv] .
    with Try_pop show ?thesis
      using log_pop_ok [OF h, of "qp_try_pop P q"] by (simp add: spec_pop_resultI(1))
  next
    case (Wait_pop stop)
    have "history_ok cap (log_pop (qp_wait_pop P q stop) q l)"
      by (rule log_pop_ok [OF h]) (blast dest: wait_pop_abs [OF inv] intro: spec_pop_resultI)
    with Wait_pop show ?thesis by simp
  next
    case Close
    obtain q' where "qp_close P q = Some q'" "inv q'" "abs q' = spec_close (abs q)"
      using close_cases [OF inv] .
    with Close h fifo_ok_close [OF fifo] show ?thesis by (simp add: history_ok_def spec_close_def)
  next
    case Close_and_discard
    obtain n q' where q': "qp_close_and_discard P q = Some (n, q')" "inv q'"
      "(n, abs q') = spec_close_and_discard (abs q)"
      using close_and_discard_cases [OF inv] .
    then have "unat n = length (aq_items (abs q))"
      using abs_ok [OF inv]
      by (auto simp: spec_close_and_discard_def aqueue_ok_def unat_of_nat_small)
    with Close_and_discard h q' fifo_ok_discard [OF fifo] show ?thesis
      by (simp add: history_ok_def spec_close_and_discard_def)
  qed
qed

lemma queue_history_ok:
  assumes "qp_new P n = Inr q"
  shows "history_ok (unat n) (queue_history P q calls)"
proof -
  have "history_ok cap (foldl (queue_step P) s calls)" if "history_ok cap s" for cap s
    using that
  proof (induction calls arbitrary: s)
    case (Cons call calls)
    then show ?case using queue_step_ok [of cap "fst s" "snd s" call] by simp
  qed simp
  then show ?thesis
    unfolding queue_history_def
    using new_ok [OF assms] by (simp add: history_ok_def fifo_ok_def)
qed

text \<open>Every call is answered as by the abstract queue.\<close>

lemma respond_inv: "inv q \<Longrightarrow> inv (snd (respond P q call))"
  by (cases call) (auto simp: response_state dest: policy_inv split: option.splits)

lemma respond_ref:
  assumes "inv q"
  shows "respond reference_policy (abs q) call = map_prod id abs (respond P q call)"
proof (cases call)
  case Close
  with close_ref [OF assms] show ?thesis
    by (cases "qp_close P q") (simp_all add: reference_policy_def)
next
  case Close_and_discard
  with close_and_discard_ref [OF assms] show ?thesis
    by (cases "qp_close_and_discard P q") (auto simp: reference_policy_def split: prod.splits)
next
  case (Try_emplace c)
  with push_response_abs [OF try_emplace_ref [OF assms]] show ?thesis by (simp add: reference_policy_def)
qed (simp_all add: reference_policy_def push_response_abs [OF try_push_ref [OF assms]] push_response_abs [OF wait_push_ref [OF assms]]
    push_response_abs [OF wait_push_until_ref [OF assms]] pop_response_abs [OF try_pop_ref [OF assms]]
    pop_response_abs [OF wait_pop_ref [OF assms]])

lemma respond_typed:
  assumes "inv q"
  shows "response_typed call (fst (respond P q call))"
  using reference_typed [of call "abs q"] respond_ref [OF assms, of call] by simp

lemma responses_ref: "inv q \<Longrightarrow> responses P q calls = responses reference_policy (abs q) calls"
proof (induction calls arbitrary: q)
  case (Cons call calls)
  obtain r q' where r: "respond P q call = (r, q')" by fastforce
  with respond_ref [OF Cons.prems, of call] have "respond reference_policy (abs q) call = (r, abs q')" by simp
  with r Cons.IH [of q'] respond_inv [OF Cons.prems, of call] show ?case by simp
qed simp

lemma new_responses:
  "qp_new P n = Inr q \<Longrightarrow> responses P q calls =
     responses reference_policy \<lparr>aq_cap = unat n, aq_items = [], aq_closed = False\<rparr> calls"
  using responses_ref new_ok by fastforce

text \<open>FIFO order, conservation and the capacity bound of every history.\<close>

lemma queue_history_fifo:
  assumes "qp_new P n = Inr q" "queue_history P q calls = (q', l)"
  shows "\<exists>dropped. ql_accepted l = ql_popped l @ dropped @ aq_items (abs q') \<and>
      length dropped = ql_discarded l \<and> (dropped \<noteq> [] \<longrightarrow> aq_items (abs q') = [] \<and> qp_closed P q')"
    and "length (aq_items (abs q')) = unat (qp_size P q')" "unat (qp_size P q') \<le> unat n"
proof -
  have h: "inv q'" "aq_cap (abs q') = unat n" "fifo_ok (abs q') l"
    using queue_history_ok [OF assms(1), of calls] assms(2) by (simp_all add: history_ok_def)
  then show "\<exists>dropped. ql_accepted l = ql_popped l @ dropped @ aq_items (abs q') \<and>
      length dropped = ql_discarded l \<and> (dropped \<noteq> [] \<longrightarrow> aq_items (abs q') = [] \<and> qp_closed P q')"
    by (simp add: fifo_ok_def closed_ref)
  show "length (aq_items (abs q')) = unat (qp_size P q')" "unat (qp_size P q') \<le> unat n"
    using h abs_ok [OF h(1)] by (simp_all add: size_ref aqueue_ok_def)
qed

end

end
