(* ===== verification/Mutex_Queue.thy ===== *)
theory Mutex_Queue
  imports Queue_Contract
begin

text \<open>
  \<open>bounded_mutex_queue<Event>\<close> (\<open>queue/bounded_mutex_queue.hpp\<close>). The state is the ring of
  optional slots with the 64-bit indices of the source. Every method is one critical section of
  the queue mutex, so each is a function on the state; the waiting methods return \<open>None\<close> where
  the thread parks on the condition variable. The notifications a method issues after unlocking
  are part of its result; how waiting threads react to them is the subject of the theory
  \<open>Mutex_Queue_Threads\<close>.

  The invariant says that the engaged slots are exactly the window of \<open>size_\<close> slots from
  \<open>head_\<close>. Under it each method is the corresponding operation of the abstract bounded FIFO
  queue, and no index computation wraps.
\<close>

section \<open>State and operations\<close>

record 'e bounded_mutex_queue =
  mq_slots :: "'e option list"
  mq_head :: size_t
  mq_tail :: size_t
  mq_size :: size_t
  mq_closed :: bool

datatype mq_cv = Not_empty | Not_full

datatype notification = Notify_one mq_cv | Notify_all mq_cv

definition mq_slots_size :: "'e bounded_mutex_queue \<Rightarrow> size_t" where
  "mq_slots_size q = of_nat (length (mq_slots q))"

definition mq_new :: "size_t \<Rightarrow> exn + 'e bounded_mutex_queue" where
  "mq_new capacity =
     (if capacity = 0
      then Inl (Invalid_argument ''bounded_mutex_queue capacity must be greater than zero'')
      else Inr \<lparr>mq_slots = replicate (unat capacity) None, mq_head = 0, mq_tail = 0, mq_size = 0,
                mq_closed = False\<rparr>)"

definition mq_increment :: "'e bounded_mutex_queue \<Rightarrow> size_t \<Rightarrow> size_t" where
  "mq_increment q index = (let index = index + 1 in if index = mq_slots_size q then 0 else index)"

text \<open>\<open>slots_[tail_].emplace(...)\<close> destroys what the optional holds before it constructs, so a
  throwing constructor leaves the slot disengaged.\<close>

definition mq_push_locked ::
  "'e bounded_mutex_queue \<Rightarrow> exn + 'e \<Rightarrow> (exn + unit) \<times> 'e bounded_mutex_queue" where
  "mq_push_locked q c = (case c of
       Inl x \<Rightarrow> (Inl x, q\<lparr>mq_slots := (mq_slots q)[unat (mq_tail q) := None]\<rparr>)
     | Inr e \<Rightarrow> (Inr (), q\<lparr>mq_slots := (mq_slots q)[unat (mq_tail q) := Some e],
                           mq_tail := mq_increment q (mq_tail q), mq_size := mq_size q + 1\<rparr>))"

text \<open>The common end of the push methods: push, unlock, notify one consumer; an exception of the
  constructor leaves the critical section without a notification.\<close>

definition mq_push_and_notify ::
  "'e bounded_mutex_queue \<Rightarrow> exn + 'e \<Rightarrow> push_out \<times> notification list \<times> 'e bounded_mutex_queue" where
  "mq_push_and_notify q c = (case mq_push_locked q c of
       (Inl x, q') \<Rightarrow> ((Inl x, True), [], q')
     | (Inr _, q') \<Rightarrow> ((Inr success, True), [Notify_one Not_empty], q'))"

definition mq_try_push ::
  "'e bounded_mutex_queue \<Rightarrow> exn + 'e \<Rightarrow> push_out \<times> notification list \<times> 'e bounded_mutex_queue" where
  "mq_try_push q c =
     (if mq_closed q then ((Inr closed, False), [], q)
      else if mq_size q = mq_slots_size q then ((Inr full, False), [], q)
      else mq_push_and_notify q c)"

definition mq_try_emplace ::
  "'e bounded_mutex_queue \<Rightarrow> exn + 'e \<Rightarrow> push_out \<times> notification list \<times> 'e bounded_mutex_queue" where
  "mq_try_emplace q c =
     (if mq_closed q then ((Inr closed, False), [], q)
      else if mq_size q = mq_slots_size q then ((Inr full, False), [], q)
      else (case c of
          Inl x \<Rightarrow> ((Inl x, True), [], q\<lparr>mq_slots := (mq_slots q)[unat (mq_tail q) := None]\<rparr>)
        | Inr e \<Rightarrow> ((Inr success, True), [Notify_one Not_empty],
             q\<lparr>mq_slots := (mq_slots q)[unat (mq_tail q) := Some e],
               mq_tail := mq_increment q (mq_tail q), mq_size := mq_size q + 1\<rparr>)))"

definition mq_wait_push ::
  "'e bounded_mutex_queue \<Rightarrow> exn + 'e \<Rightarrow> bool \<Rightarrow>
   (push_out \<times> notification list \<times> 'e bounded_mutex_queue) option" where
  "mq_wait_push q c stop =
     (case cv_wait stop (mq_size q \<noteq> mq_slots_size q \<or> mq_closed q) of
        None \<Rightarrow> None
      | Some ready \<Rightarrow> Some (
          if \<not> ready then ((Inr stopped, False), [], q)
          else if mq_closed q then ((Inr closed, False), [], q)
          else mq_push_and_notify q c))"

definition mq_wait_push_until ::
  "'e bounded_mutex_queue \<Rightarrow> exn + 'e \<Rightarrow> bool \<Rightarrow> bool \<Rightarrow>
   (push_out \<times> notification list \<times> 'e bounded_mutex_queue) option" where
  "mq_wait_push_until q c stop expired =
     (case cv_wait_until stop expired (mq_size q \<noteq> mq_slots_size q \<or> mq_closed q) of
        None \<Rightarrow> None
      | Some ready \<Rightarrow> Some (
          if \<not> ready then ((Inr (if stop then stopped else timeout), False), [], q)
          else if mq_closed q then ((Inr closed, False), [], q)
          else mq_push_and_notify q c))"

text \<open>\<open>*slots_[head_]\<close> dereferences an optional that the invariant keeps engaged.\<close>

definition mq_pop_locked ::
  "'e bounded_mutex_queue \<Rightarrow> 'e pop_result \<times> notification list \<times> 'e bounded_mutex_queue" where
  "mq_pop_locked q =
     (let event = the (mq_slots q ! unat (mq_head q)) in
      (pop_success event, [Notify_one Not_full],
       q\<lparr>mq_slots := (mq_slots q)[unat (mq_head q) := None],
         mq_head := mq_increment q (mq_head q), mq_size := mq_size q - 1\<rparr>))"

definition mq_try_pop ::
  "'e bounded_mutex_queue \<Rightarrow> 'e pop_result \<times> notification list \<times> 'e bounded_mutex_queue" where
  "mq_try_pop q =
     (if mq_size q = 0 then (if mq_closed q then pop_closed else pop_empty, [], q)
      else mq_pop_locked q)"

definition mq_wait_pop ::
  "'e bounded_mutex_queue \<Rightarrow> bool \<Rightarrow>
   ('e pop_result \<times> notification list \<times> 'e bounded_mutex_queue) option" where
  "mq_wait_pop q stop =
     (case cv_wait stop (mq_size q \<noteq> 0 \<or> mq_closed q) of
        None \<Rightarrow> None
      | Some ready \<Rightarrow> Some (
          if \<not> ready then (pop_stopped, [], q)
          else if mq_size q = 0 then (pop_closed, [], q)
          else mq_pop_locked q))"

definition mq_close :: "'e bounded_mutex_queue \<Rightarrow> notification list \<times> 'e bounded_mutex_queue" where
  "mq_close q = ([Notify_all Not_empty, Notify_all Not_full], q\<lparr>mq_closed := True\<rparr>)"

function mq_discard_loop :: "'e bounded_mutex_queue \<Rightarrow> 'e bounded_mutex_queue" where
  "mq_discard_loop q =
     (if mq_size q \<noteq> 0
      then mq_discard_loop (q\<lparr>mq_slots := (mq_slots q)[unat (mq_head q) := None],
             mq_head := mq_increment q (mq_head q), mq_size := mq_size q - 1\<rparr>)
      else q)"
  by pat_completeness auto
termination
  by (relation "measure (\<lambda>q. unat (mq_size q))") (auto simp: word_simps unat_pos_iff)

declare mq_discard_loop.simps [simp del]

definition mq_close_and_discard ::
  "'e bounded_mutex_queue \<Rightarrow> size_t \<times> notification list \<times> 'e bounded_mutex_queue" where
  "mq_close_and_discard q =
     (let q1 = q\<lparr>mq_closed := True\<rparr>;
          discarded = mq_size q1;
          q2 = mq_discard_loop q1;
          q3 = q2\<lparr>mq_head := mq_tail q2\<rparr>
      in (discarded, [Notify_all Not_empty, Notify_all Not_full], q3))"

definition mq_capacity :: "'e bounded_mutex_queue \<Rightarrow> size_t" where
  "mq_capacity q = mq_slots_size q"

section \<open>The representation invariant and the abstract queue\<close>

definition mq_inv :: "'e bounded_mutex_queue \<Rightarrow> bool" where
  "mq_inv q = (let n = length (mq_slots q); h = unat (mq_head q) in
     0 < n \<and> n < 18446744073709551616 \<and> h < n \<and> unat (mq_size q) \<le> n \<and>
     unat (mq_tail q) = (h + unat (mq_size q)) mod n \<and>
     (\<forall>i < n. (mq_slots q ! ((h + i) mod n) \<noteq> None) = (i < unat (mq_size q))))"

definition mq_items :: "'e bounded_mutex_queue \<Rightarrow> 'e list" where
  "mq_items q = map the (ring_window (mq_slots q) (unat (mq_head q)) (unat (mq_size q)))"

definition mq_abs :: "'e bounded_mutex_queue \<Rightarrow> 'e aqueue" where
  "mq_abs q = \<lparr>aq_cap = length (mq_slots q), aq_items = mq_items q, aq_closed = mq_closed q\<rparr>"

lemma length_mq_items [simp]: "length (mq_items q) = unat (mq_size q)"
  by (simp add: mq_items_def)

lemma mq_items_closed [simp]: "mq_items (q\<lparr>mq_closed := b\<rparr>) = mq_items q"
  by (simp add: mq_items_def)

lemma mq_inv_closed [simp]: "mq_inv (q\<lparr>mq_closed := b\<rparr>) = mq_inv q"
  by (simp add: mq_inv_def)

lemma mq_inv_D:
  assumes "mq_inv q"
  shows "0 < length (mq_slots q)" "length (mq_slots q) < 18446744073709551616"
    "unat (mq_head q) < length (mq_slots q)" "unat (mq_size q) \<le> length (mq_slots q)"
    "unat (mq_tail q) = (unat (mq_head q) + unat (mq_size q)) mod length (mq_slots q)"
    "\<And>i. i < length (mq_slots q) \<Longrightarrow>
       (mq_slots q ! ((unat (mq_head q) + i) mod length (mq_slots q)) \<noteq> None) = (i < unat (mq_size q))"
  using assms by (auto simp: mq_inv_def Let_def)

lemma mq_size_full: "mq_inv q \<Longrightarrow> (mq_size q = mq_slots_size q) = (unat (mq_size q) = length (mq_slots q))"
  using mq_inv_D(2) [of q] by (simp add: mq_slots_size_def eq_of_nat_iff)

lemma unat_mq_increment:
  assumes "mq_inv q" "unat i < length (mq_slots q)"
  shows "unat (mq_increment q i) = (unat i + 1) mod length (mq_slots q)"
  using assms mq_inv_D(1,2) [OF assms(1)]
  by (auto simp: mq_increment_def Let_def mq_slots_size_def word_simps mod_Suc)

lemma mq_tail_less: "mq_inv q \<Longrightarrow> unat (mq_tail q) < length (mq_slots q)"
  using mq_inv_D(1,5) [of q] by simp

text \<open>The tail slot of a queue that is not full is disengaged, as the comment in \<open>push_locked\<close>
  says; so a throwing constructor changes nothing.\<close>

lemma mq_tail_disengaged:
  assumes "mq_inv q" "unat (mq_size q) < length (mq_slots q)"
  shows "mq_slots q ! unat (mq_tail q) = None"
  using mq_inv_D(5,6) [OF assms(1)] assms(2) by (metis less_irrefl)

lemma mq_push_locked_throw:
  assumes "mq_inv q" "unat (mq_size q) < length (mq_slots q)"
  shows "mq_push_locked q (Inl x) = (Inl x, q)"
  using mq_tail_disengaged [OF assms] by (simp add: mq_push_locked_def list_update_same_conv mq_tail_less assms)

section \<open>The two state changes: push and pop\<close>

abbreviation mq_pushed :: "'e bounded_mutex_queue \<Rightarrow> 'e \<Rightarrow> 'e bounded_mutex_queue" where
  "mq_pushed q e \<equiv> q\<lparr>mq_slots := (mq_slots q)[unat (mq_tail q) := Some e],
     mq_tail := mq_increment q (mq_tail q), mq_size := mq_size q + 1\<rparr>"

abbreviation mq_popped :: "'e bounded_mutex_queue \<Rightarrow> 'e bounded_mutex_queue" where
  "mq_popped q \<equiv> q\<lparr>mq_slots := (mq_slots q)[unat (mq_head q) := None],
     mq_head := mq_increment q (mq_head q), mq_size := mq_size q - 1\<rparr>"

lemma mq_pushed_ok:
  assumes inv: "mq_inv q" and room: "unat (mq_size q) < length (mq_slots q)"
  shows "mq_inv (mq_pushed q e)" "mq_items (mq_pushed q e) = mq_items q @ [e]"
proof -
  let ?n = "length (mq_slots q)" and ?h = "unat (mq_head q)" and ?s = "unat (mq_size q)"
  note D = mq_inv_D [OF inv]
  have sz: "unat (mq_size q + 1) = ?s + 1"
    using unat_plus_one [OF room D(2)] .
  have tl: "unat (mq_increment q (mq_tail q)) = (?h + Suc ?s) mod ?n"
    using unat_mq_increment [OF inv mq_tail_less [OF inv]] D(5) by (simp add: mod_Suc_eq)
  have slot: "((mq_slots q)[unat (mq_tail q) := Some e] ! ((?h + i) mod ?n) \<noteq> None) = (i < Suc ?s)"
    if "i < ?n" for i
    using that D(5) D(6) [OF that] ring_index_inject [OF that room, of ?h] D(1)
    by (auto simp: nth_list_update less_Suc_eq)
  show "mq_inv (mq_pushed q e)"
    using D(1-4) room sz tl slot by (simp add: mq_inv_def)
  show "mq_items (mq_pushed q e) = mq_items q @ [e]"
    using ring_window_snoc [OF room, of ?h "Some e"] D(5) by (simp add: mq_items_def sz)
qed

lemma mq_popped_ok:
  assumes inv: "mq_inv q" and some: "mq_size q \<noteq> 0"
  shows "mq_inv (mq_popped q)" "mq_items q = the (mq_slots q ! unat (mq_head q)) # mq_items (mq_popped q)"
proof -
  let ?n = "length (mq_slots q)" and ?h = "unat (mq_head q)" and ?s = "unat (mq_size q)"
  note D = mq_inv_D [OF inv]
  have pos: "0 < ?s" using some by (simp add: unat_pos_iff)
  have sz: "unat (mq_size q - 1) = ?s - 1" using some by (rule unat_minus_one_size)
  have hd: "unat (mq_increment q (mq_head q)) = Suc ?h mod ?n"
    using unat_mq_increment [OF inv D(3)] by simp
  have slot: "((mq_slots q)[?h := None] ! ((Suc ?h mod ?n + i) mod ?n) \<noteq> None) = (i < ?s - 1)"
    if "i < ?n" for i
  proof (cases "Suc i < ?n")
    case True
    then have "(?h + Suc i) mod ?n \<noteq> ?h"
      using ring_index_inject [OF True D(1), of ?h] D(3) by simp
    with D(6) [OF True] pos show ?thesis by (auto simp: mod_add_left_eq)
  next
    case False
    with that have "Suc i = ?n" by simp
    then have "(Suc ?h mod ?n + i) mod ?n = ?h"
      using D(3) by (simp add: mod_add_left_eq) (metis add_Suc_right mod_add_self2 mod_less)
    with False D(1,3,4) show ?thesis by simp
  qed
  have "(Suc ?h mod ?n + (?s - 1)) mod ?n = (?h + ?s) mod ?n"
    using pos by (cases ?s) (simp_all add: mod_add_left_eq)
  then show "mq_inv (mq_popped q)"
    using D(1-5) pos sz hd slot unfolding mq_inv_def Let_def by simp
  show "mq_items q = the (mq_slots q ! ?h) # mq_items (mq_popped q)"
    using ring_window_cons [OF pos, of "mq_slots q" ?h] D(3)
      ring_window_update_head [OF pos D(4), of ?h None]
    by (simp add: mq_items_def sz hd)
qed

section \<open>Refinement of the abstract queue\<close>

lemma mq_abs_simps [simp]:
  "aq_cap (mq_abs q) = length (mq_slots q)" "aq_items (mq_abs q) = mq_items q"
  "aq_closed (mq_abs q) = mq_closed q"
  by (simp_all add: mq_abs_def)

lemma mq_abs_ok: "mq_inv q \<Longrightarrow> aqueue_ok (mq_abs q)"
  using mq_inv_D [of q] by (simp add: aqueue_ok_def)

lemma mq_new_ok:
  assumes "mq_new n = Inr q"
  shows "mq_inv q \<and> mq_abs q = \<lparr>aq_cap = unat n, aq_items = [], aq_closed = False\<rparr>"
  using assms unat_pos_iff [of n]
  by (auto simp: mq_new_def mq_inv_def mq_abs_def mq_items_def ring_window_def Let_def
      split: if_splits)

text \<open>A push that finds room, and a pop that finds an event.\<close>

lemma mq_push_and_notify_ref:
  assumes "mq_inv q" "unat (mq_size q) < length (mq_slots q)" "mq_push_and_notify q c = (r, ns, q')"
  shows "(r, mq_abs q') = spec_push_now (mq_abs q) c" "mq_inv q'"
    "ns = (case c of Inl _ \<Rightarrow> [] | Inr _ \<Rightarrow> [Notify_one Not_empty])"
proof -
  have "(r, mq_abs q') = spec_push_now (mq_abs q) c \<and> mq_inv q' \<and>
      ns = (case c of Inl _ \<Rightarrow> [] | Inr _ \<Rightarrow> [Notify_one Not_empty])"
  proof (cases c)
    case (Inl x)
    with assms mq_push_locked_throw [OF assms(1,2), of x] show ?thesis
      by (auto simp: mq_push_and_notify_def spec_push_now_def)
  next
    case (Inr e)
    with assms mq_pushed_ok [OF assms(1,2), of e] show ?thesis
      by (auto simp: mq_push_and_notify_def spec_push_now_def mq_push_locked_def mq_abs_def)
  qed
  then show "(r, mq_abs q') = spec_push_now (mq_abs q) c" "mq_inv q'"
    "ns = (case c of Inl _ \<Rightarrow> [] | Inr _ \<Rightarrow> [Notify_one Not_empty])" by simp_all
qed

lemma mq_pop_locked_ref:
  assumes "mq_inv q" "mq_size q \<noteq> 0" "mq_pop_locked q = (p, ns, q')"
  shows "\<exists>e es. mq_items q = e # es \<and> p = pop_success e \<and> mq_abs q' = (mq_abs q)\<lparr>aq_items := es\<rparr>"
    "mq_inv q'" "ns = [Notify_one Not_full]"
  using assms mq_popped_ok [OF assms(1,2)] by (auto simp: mq_pop_locked_def Let_def mq_abs_def)

lemma mq_size_zero_items: "(mq_size q = 0) = (mq_items q = [])"
  by (metis length_mq_items length_0_conv unat_eq_zero)

lemma mq_not_full_room:
  assumes "mq_inv q" "mq_size q \<noteq> mq_slots_size q"
  shows "unat (mq_size q) < length (mq_slots q)"
  using assms mq_inv_D(4) [OF assms(1)] by (simp add: mq_size_full)

lemma mq_try_push_ref:
  assumes "mq_inv q" "mq_try_push q c = (r, ns, q')"
  shows "(r, mq_abs q') = spec_try_push (mq_abs q) c" "mq_inv q'"
  using assms mq_push_and_notify_ref [OF assms(1) mq_not_full_room [OF assms(1)]]
  by (auto simp: mq_try_push_def spec_try_push_def mq_size_full split: if_splits)

lemma mq_try_emplace_eq: "mq_try_emplace q c = mq_try_push q c"
  by (simp add: mq_try_emplace_def mq_try_push_def mq_push_and_notify_def mq_push_locked_def
      split: sum.splits)

lemma mq_wait_push_ref:
  assumes "mq_inv q"
  shows "map_option (\<lambda>(r, ns, q'). (r, mq_abs q')) (mq_wait_push q c stop) =
         spec_wait_push (mq_abs q) c stop"
    "mq_wait_push q c stop = Some (r, ns, q') \<Longrightarrow> mq_inv q'"
  using assms mq_push_and_notify_ref(1,2) [OF assms mq_not_full_room [OF assms]]
  by (cases "mq_push_and_notify q c";
      auto simp: mq_wait_push_def spec_wait_push_def cv_wait_def mq_size_full split: if_splits)+

lemma mq_wait_push_until_ref:
  assumes "mq_inv q"
  shows "map_option (\<lambda>(r, ns, q'). (r, mq_abs q')) (mq_wait_push_until q c stop expired) =
         spec_wait_push_until (mq_abs q) c stop expired"
    "mq_wait_push_until q c stop expired = Some (r, ns, q') \<Longrightarrow> mq_inv q'"
  using assms mq_push_and_notify_ref(1,2) [OF assms mq_not_full_room [OF assms]]
  by (cases "mq_push_and_notify q c";
      auto simp: mq_wait_push_until_def spec_wait_push_until_def cv_wait_until_def mq_size_full
        split: if_splits)+

lemma mq_try_pop_ref:
  assumes "mq_inv q" "mq_try_pop q = (p, ns, q')"
  shows "(p, mq_abs q') = spec_try_pop (mq_abs q)" "mq_inv q'"
  using assms mq_pop_locked_ref [OF assms(1)]
  by (cases "mq_size q = 0"; fastforce simp: mq_try_pop_def spec_try_pop_def mq_size_zero_items)+

lemma mq_wait_pop_ref:
  assumes "mq_inv q"
  shows "map_option (\<lambda>(p, ns, q'). (p, mq_abs q')) (mq_wait_pop q stop) =
         spec_wait_pop (mq_abs q) stop"
    "mq_wait_pop q stop = Some (p, ns, q') \<Longrightarrow> mq_inv q'"
  using assms mq_pop_locked_ref [OF assms]
  by (cases "mq_pop_locked q"; cases "mq_size q = 0";
      fastforce simp: mq_wait_pop_def spec_wait_pop_def cv_wait_def mq_size_zero_items
        split: if_splits)+

lemma mq_discard_loop_ok:
  "mq_inv q \<Longrightarrow> mq_inv (mq_discard_loop q) \<and> mq_size (mq_discard_loop q) = 0 \<and>
     mq_closed (mq_discard_loop q) = mq_closed q \<and>
     length (mq_slots (mq_discard_loop q)) = length (mq_slots q)"
proof (induction q rule: mq_discard_loop.induct)
  case (1 q)
  show ?case
  proof (cases "mq_size q = 0")
    case True
    with "1.prems" show ?thesis by (simp add: mq_discard_loop.simps [of q])
  next
    case False
    with "1.IH" mq_popped_ok(1) [OF "1.prems" False] show ?thesis
      by (simp add: mq_discard_loop.simps [of q])
  qed
qed

lemma mq_empty_head_tail:
  assumes "mq_inv q" "mq_size q = 0"
  shows "mq_inv (q\<lparr>mq_head := mq_tail q\<rparr>)" "mq_items (q\<lparr>mq_head := mq_tail q\<rparr>) = []"
proof -
  have "mq_tail q = mq_head q"
    using mq_inv_D(3,5) [OF assms(1)] assms(2) by (simp add: word_unat_eq_iff)
  then have "q\<lparr>mq_head := mq_tail q\<rparr> = q" by simp
  with assms show "mq_inv (q\<lparr>mq_head := mq_tail q\<rparr>)" "mq_items (q\<lparr>mq_head := mq_tail q\<rparr>) = []"
    by (simp_all flip: mq_size_zero_items)
qed

lemma mq_close_and_discard_ref:
  assumes "mq_inv q" "mq_close_and_discard q = (n, ns, q')"
  shows "(n, mq_abs q') = spec_close_and_discard (mq_abs q)" "mq_inv q'"
  using assms mq_discard_loop_ok [of "q\<lparr>mq_closed := True\<rparr>"]
    mq_empty_head_tail [of "mq_discard_loop (q\<lparr>mq_closed := True\<rparr>)"]
  by (auto simp: mq_close_and_discard_def Let_def spec_close_and_discard_def mq_abs_def)

section \<open>The mutex queue as a queue policy\<close>

definition mutex_queue_policy :: "('e, 'e bounded_mutex_queue) queue_policy" where
  "mutex_queue_policy = \<lparr>
     qp_new = mq_new,
     qp_try_push = (\<lambda>q c. case mq_try_push q c of (r, _, q') \<Rightarrow> Some (r, q')),
     qp_try_emplace = (\<lambda>q c. case mq_try_emplace q c of (r, _, q') \<Rightarrow> Some (r, q')),
     qp_wait_push = (\<lambda>q c stop. map_option (\<lambda>(r, _, q'). (r, q')) (mq_wait_push q c stop)),
     qp_wait_push_until = (\<lambda>q c stop expired.
       map_option (\<lambda>(r, _, q'). (r, q')) (mq_wait_push_until q c stop expired)),
     qp_try_pop = (\<lambda>q. case mq_try_pop q of (p, _, q') \<Rightarrow> Some (p, q')),
     qp_wait_pop = (\<lambda>q stop. map_option (\<lambda>(p, _, q'). (p, q')) (mq_wait_pop q stop)),
     qp_close = (\<lambda>q. Some (snd (mq_close q))),
     qp_close_and_discard = (\<lambda>q. case mq_close_and_discard q of (n, _, q') \<Rightarrow> Some (n, q')),
     qp_capacity = mq_capacity,
     qp_size = mq_size,
     qp_closed = mq_closed\<rparr>"

interpretation mq: concurrent_queue mutex_queue_policy mq_abs mq_inv
proof
  fix q :: "'a bounded_mutex_queue" and n c r q' p stop expired
  show "qp_new mutex_queue_policy n = Inr q \<Longrightarrow>
      mq_inv q \<and> mq_abs q = \<lparr>aq_cap = unat n, aq_items = [], aq_closed = False\<rparr>"
    using mq_new_ok by (simp add: mutex_queue_policy_def)
  assume inv: "mq_inv q"
  show "aqueue_ok (mq_abs q)" using inv by (rule mq_abs_ok)
  show "map_option (map_prod id mq_abs) (qp_try_push mutex_queue_policy q c) =
      Some (spec_try_push (mq_abs q) c)"
    and "qp_try_push mutex_queue_policy q c = Some (r, q') \<Longrightarrow> mq_inv q'"
    and "map_option (map_prod id mq_abs) (qp_try_emplace mutex_queue_policy q c) =
      Some (spec_try_push (mq_abs q) c)"
    and "qp_try_emplace mutex_queue_policy q c = Some (r, q') \<Longrightarrow> mq_inv q'"
    using mq_try_push_ref [OF inv, of c]
    by (cases "mq_try_push q c"; simp add: mutex_queue_policy_def mq_try_emplace_eq)+
  show "map_option (map_prod id mq_abs) (qp_wait_push mutex_queue_policy q c stop) =
      spec_wait_push (mq_abs q) c stop"
    and "qp_wait_push mutex_queue_policy q c stop = Some (r, q') \<Longrightarrow> mq_inv q'"
    using mq_wait_push_ref [OF inv, of c stop]
    by (auto simp: mutex_queue_policy_def option.map_comp comp_def case_prod_beta')
  show "map_option (map_prod id mq_abs) (qp_wait_push_until mutex_queue_policy q c stop expired) =
      spec_wait_push_until (mq_abs q) c stop expired"
    and "qp_wait_push_until mutex_queue_policy q c stop expired = Some (r, q') \<Longrightarrow> mq_inv q'"
    using mq_wait_push_until_ref [OF inv, of c stop expired]
    by (auto simp: mutex_queue_policy_def option.map_comp comp_def case_prod_beta')
  show "map_option (map_prod id mq_abs) (qp_try_pop mutex_queue_policy q) =
      Some (spec_try_pop (mq_abs q))"
    and "qp_try_pop mutex_queue_policy q = Some (p, q') \<Longrightarrow> mq_inv q'"
    using mq_try_pop_ref [OF inv] by (cases "mq_try_pop q"; simp add: mutex_queue_policy_def)+
  show "map_option (map_prod id mq_abs) (qp_wait_pop mutex_queue_policy q stop) =
      spec_wait_pop (mq_abs q) stop"
    and "qp_wait_pop mutex_queue_policy q stop = Some (p, q') \<Longrightarrow> mq_inv q'"
    using mq_wait_pop_ref [OF inv, of stop]
    by (auto simp: mutex_queue_policy_def option.map_comp comp_def case_prod_beta')
  show "map_option mq_abs (qp_close mutex_queue_policy q) = Some (spec_close (mq_abs q))"
    and "qp_close mutex_queue_policy q = Some q' \<Longrightarrow> mq_inv q'"
    using inv by (auto simp: mutex_queue_policy_def mq_close_def mq_abs_def spec_close_def)
  show "map_option (map_prod id mq_abs) (qp_close_and_discard mutex_queue_policy q) =
      Some (spec_close_and_discard (mq_abs q))"
    and "qp_close_and_discard mutex_queue_policy q = Some (n, q') \<Longrightarrow> mq_inv q'"
    using mq_close_and_discard_ref [OF inv]
    by (cases "mq_close_and_discard q"; simp add: mutex_queue_policy_def)+
  show "unat (qp_capacity mutex_queue_policy q) = aq_cap (mq_abs q)"
    using mq_inv_D(2) [OF inv]
    by (simp add: mutex_queue_policy_def mq_capacity_def mq_slots_size_def word_simps)
  show "unat (qp_size mutex_queue_policy q) = length (aq_items (mq_abs q))"
    and "qp_closed mutex_queue_policy q = aq_closed (mq_abs q)"
    by (simp_all add: mutex_queue_policy_def)
qed

section \<open>Histories and failed pushes\<close>

text \<open>
  Property C1. For every sequence of calls on a mutex queue, in the order of their critical
  sections: the accepted events are the popped ones, in the same order, then the ones a discard
  destroyed, then the ones still queued; something was discarded only if the queue is closed and
  empty; and the size never exceeds the capacity.
\<close>

theorem mq_history_fifo:
  assumes "mq_new n = Inr q" "queue_history mutex_queue_policy q calls = (q', l)"
  shows "(\<exists>dropped. ql_accepted l = ql_popped l @ dropped @ mq_items q' \<and>
      length dropped = ql_discarded l \<and> (dropped \<noteq> [] \<longrightarrow> mq_items q' = [] \<and> mq_closed q')) \<and>
    length (mq_items q') = unat (mq_size q') \<and> unat (mq_size q') \<le> unat n"
proof -
  have "qp_new mutex_queue_policy n = Inr q" using assms(1) by (simp add: mutex_queue_policy_def)
  from mq.queue_history_fifo [OF this assms(2)] show ?thesis
    by (simp add: mutex_queue_policy_def mq_abs_def)
qed

theorem mq_history_fifo_witness:
  "case mq_new 2 of Inl _ \<Rightarrow> False | Inr (q :: nat bounded_mutex_queue) \<Rightarrow>
     (case queue_history mutex_queue_policy q
        [Try_push (Inr 7), Try_push (Inr 8), Try_push (Inr 9), Try_pop, Try_push (Inr 10), Close_and_discard]
      of (q', l) \<Rightarrow> ql_accepted l = [7, 8, 10] \<and> ql_popped l = [7] \<and> ql_discarded l = 2 \<and>
        unat (mq_size q') \<le> 2)"
proof -
  let ?calls = "[Try_push (Inr (7::nat)), Try_push (Inr 8), Try_push (Inr 9), Try_pop,
    Try_push (Inr 10), Close_and_discard]"
  let ?q = "\<lparr>mq_slots = [None, None], mq_head = 0, mq_tail = 0, mq_size = 0, mq_closed = False\<rparr>"
  have new: "mq_new 2 = Inr ?q" by (simp add: mq_new_def) (simp add: numeral_2_eq_2)
  have "unat (mq_size (fst (queue_history mutex_queue_policy ?q ?calls))) \<le> 2"
    using mq_history_fifo [OF new, of ?calls, OF surjective_pairing] by simp
  moreover have "snd (queue_history mutex_queue_policy ?q ?calls) =
      \<lparr>ql_accepted = [7, 8, 10], ql_popped = [7], ql_discarded = 2\<rparr>"
    by (simp add: queue_history_def mutex_queue_policy_def log_push_def log_pop_def mq_try_push_def
        mq_slots_size_def mq_push_and_notify_def mq_push_locked_def mq_increment_def mq_try_pop_def
        mq_pop_locked_def mq_close_and_discard_def Let_def)
  ultimately show ?thesis by (simp add: new case_prod_beta)
qed

lemma mq_push_and_notify_failed:
  assumes "mq_inv q" "mq_size q \<noteq> mq_slots_size q" "mq_push_and_notify q c = ((r, consumed), ns, q')"
    "r \<noteq> Inr success"
  shows "q' = q \<and> ns = [] \<and> consumed = (\<exists>x. r = Inl x)"
proof -
  have "unat (mq_size q) < length (mq_slots q)"
    using assms(2) mq_inv_D(4) [OF assms(1)] mq_size_full [OF assms(1)] by simp
  from mq_push_locked_throw [OF assms(1) this] show ?thesis
    using assms(3,4)
    by (cases c) (auto simp: mq_push_and_notify_def mq_push_locked_def)
qed

text \<open>
  A push of any kind that does not return \<open>success\<close> leaves the queue exactly as it
  was, with the slots, both indices and the size unchanged, and notifies nobody; its argument was
  handed to the constructor only if the constructor then threw.
\<close>

lemma mq_failed_push_unchanged:
  assumes "mq_inv q" "r \<noteq> Inr success"
    and "mq_try_push q c = ((r, consumed), ns, q') \<or> mq_try_emplace q c = ((r, consumed), ns, q') \<or>
      mq_wait_push q c stop = Some ((r, consumed), ns, q') \<or>
      mq_wait_push_until q c stop expired = Some ((r, consumed), ns, q')"
  shows "q' = q \<and> ns = [] \<and> consumed = (\<exists>x. r = Inl x)"
  using assms(3) mq_push_and_notify_failed [OF assms(1) _ _ assms(2), of c consumed ns q'] assms(2)
  by (auto simp: mq_try_push_def mq_try_emplace_eq mq_wait_push_def mq_wait_push_until_def cv_wait_def
      cv_wait_until_def split: if_splits)

end
