(* ===== verification/Mutex_Queue_Threads.thy ===== *)
theory Mutex_Queue_Threads
  imports Mutex_Queue
begin

text \<open>
  Threads on one \<open>bounded_mutex_queue\<close>. A thread enters a method, runs its critical section when
  it gets the mutex, parks on a condition variable when the predicate of its wait is false, and
  issues its notifications after it has released the mutex. \<open>notify_one\<close> moves an arbitrary
  parked thread back to the mutex; a parked thread can also come back by itself (spurious
  wake-up, stop request, deadline).

  The main result is that no wake-up is lost: when every thread is idle or parked, a consumer
  is parked only on an empty open queue and a producer only on a full open queue. The producer
  half needs that the constructor of a waiting push does not throw; without it the theory
  exhibits a reachable state in which a producer sleeps on a queue with room.
\<close>

section \<open>Calls, threads, steps\<close>

datatype 'e mq_call =
    Call_try_push "exn + 'e"
  | Call_try_emplace "exn + 'e"
  | Call_wait_push "exn + 'e"
  | Call_wait_push_until "exn + 'e"
  | Call_try_pop
  | Call_wait_pop
  | Call_close
  | Call_close_and_discard

text \<open>The critical section of a call, with the stop request and the deadline as it finds them:
  \<open>None\<close> parks, \<open>Some\<close> gives the notifications that are issued after unlocking.\<close>

fun mq_exec :: "'e mq_call \<Rightarrow> bool \<Rightarrow> bool \<Rightarrow> 'e bounded_mutex_queue \<Rightarrow>
    (notification list \<times> 'e bounded_mutex_queue) option" where
  "mq_exec (Call_try_push c) stop expired q = Some (snd (mq_try_push q c))"
| "mq_exec (Call_try_emplace c) stop expired q = Some (snd (mq_try_emplace q c))"
| "mq_exec (Call_wait_push c) stop expired q = map_option snd (mq_wait_push q c stop)"
| "mq_exec (Call_wait_push_until c) stop expired q =
     map_option snd (mq_wait_push_until q c stop expired)"
| "mq_exec Call_try_pop stop expired q = Some (snd (mq_try_pop q))"
| "mq_exec Call_wait_pop stop expired q = map_option snd (mq_wait_pop q stop)"
| "mq_exec Call_close stop expired q = Some (mq_close q)"
| "mq_exec Call_close_and_discard stop expired q = Some (snd (mq_close_and_discard q))"

fun waits_on :: "'e mq_call \<Rightarrow> mq_cv option" where
  "waits_on (Call_wait_push c) = Some Not_full"
| "waits_on (Call_wait_push_until c) = Some Not_full"
| "waits_on Call_wait_pop = Some Not_empty"
| "waits_on _ = None"

text \<open>A waiting push whose constructor throws, the calls that \<open>may_throw\<close> admits.\<close>

fun throwing_wait :: "'e mq_call \<Rightarrow> bool" where
  "throwing_wait (Call_wait_push (Inl x)) = True"
| "throwing_wait (Call_wait_push_until (Inl x)) = True"
| "throwing_wait _ = False"

datatype 'e mq_thread =
    Idle
  | Ready "'e mq_call"
  | Parked "'e mq_call"
  | Notifying "notification list"

record 'e mq_system =
  ms_queue :: "'e bounded_mutex_queue"
  ms_threads :: "'e mq_thread list"

definition parked_on :: "mq_cv \<Rightarrow> 'e mq_thread \<Rightarrow> bool" where
  "parked_on cv th = (case th of Parked c \<Rightarrow> waits_on c = Some cv | _ \<Rightarrow> False)"

definition wake :: "mq_cv \<Rightarrow> 'e mq_thread \<Rightarrow> 'e mq_thread" where
  "wake cv th = (case th of Parked c \<Rightarrow> if waits_on c = Some cv then Ready c else th | _ \<Rightarrow> th)"

inductive mq_step :: "bool \<Rightarrow> 'e mq_system \<Rightarrow> 'e mq_system \<Rightarrow> bool" for may_throw where
  enter: "t < length ts \<Longrightarrow> ts ! t = Idle \<Longrightarrow> throwing_wait c \<longrightarrow> may_throw \<Longrightarrow>
    mq_step may_throw \<lparr>ms_queue = q, ms_threads = ts\<rparr>
      \<lparr>ms_queue = q, ms_threads = ts[t := Ready c]\<rparr>"
| finish: "t < length ts \<Longrightarrow> ts ! t = Ready c \<Longrightarrow> mq_exec c stop expired q = Some (ns, q') \<Longrightarrow>
    mq_step may_throw \<lparr>ms_queue = q, ms_threads = ts\<rparr>
      \<lparr>ms_queue = q', ms_threads = ts[t := Notifying ns]\<rparr>"
| park: "t < length ts \<Longrightarrow> ts ! t = Ready c \<Longrightarrow> mq_exec c stop expired q = None \<Longrightarrow>
    mq_step may_throw \<lparr>ms_queue = q, ms_threads = ts\<rparr>
      \<lparr>ms_queue = q, ms_threads = ts[t := Parked c]\<rparr>"
| wake_up: "t < length ts \<Longrightarrow> ts ! t = Parked c \<Longrightarrow>
    mq_step may_throw \<lparr>ms_queue = q, ms_threads = ts\<rparr>
      \<lparr>ms_queue = q, ms_threads = ts[t := Ready c]\<rparr>"
| notify_hit: "t < length ts \<Longrightarrow> ts ! t = Notifying (Notify_one cv # ns) \<Longrightarrow> u < length ts \<Longrightarrow>
    ts ! u = Parked c \<Longrightarrow> waits_on c = Some cv \<Longrightarrow>
    mq_step may_throw \<lparr>ms_queue = q, ms_threads = ts\<rparr>
      \<lparr>ms_queue = q, ms_threads = ts[t := Notifying ns, u := Ready c]\<rparr>"
| notify_miss: "t < length ts \<Longrightarrow> ts ! t = Notifying (Notify_one cv # ns) \<Longrightarrow>
    \<not> list_ex (parked_on cv) ts \<Longrightarrow>
    mq_step may_throw \<lparr>ms_queue = q, ms_threads = ts\<rparr>
      \<lparr>ms_queue = q, ms_threads = ts[t := Notifying ns]\<rparr>"
| notify_all: "t < length ts \<Longrightarrow> ts ! t = Notifying (Notify_all cv # ns) \<Longrightarrow>
    mq_step may_throw \<lparr>ms_queue = q, ms_threads = ts\<rparr>
      \<lparr>ms_queue = q, ms_threads = map (wake cv) (ts[t := Notifying ns])\<rparr>"
| leave: "t < length ts \<Longrightarrow> ts ! t = Notifying [] \<Longrightarrow>
    mq_step may_throw \<lparr>ms_queue = q, ms_threads = ts\<rparr>
      \<lparr>ms_queue = q, ms_threads = ts[t := Idle]\<rparr>"

inductive mq_reachable :: "bool \<Rightarrow> 'e mq_system \<Rightarrow> bool" for may_throw where
  start: "mq_new capacity = Inr q \<Longrightarrow>
    mq_reachable may_throw \<lparr>ms_queue = q, ms_threads = replicate n Idle\<rparr>"
| step: "mq_reachable may_throw s \<Longrightarrow> mq_step may_throw s s' \<Longrightarrow> mq_reachable may_throw s'"

definition quiescent :: "'e mq_thread \<Rightarrow> bool" where
  "quiescent th = (case th of Idle \<Rightarrow> True | Parked _ \<Rightarrow> True | _ \<Rightarrow> False)"

section \<open>What a critical section does\<close>

text \<open>What a waiter on a condition variable waits for: events, or free slots.\<close>

fun available :: "mq_cv \<Rightarrow> 'e bounded_mutex_queue \<Rightarrow> nat" where
  "available Not_empty q = unat (mq_size q)"
| "available Not_full q = length (mq_slots q) - unat (mq_size q)"

lemma mq_exec_None:
  assumes "mq_inv q" "mq_exec c stop expired q = None"
  obtains cv where "waits_on c = Some cv" "available cv q = 0" "\<not> mq_closed q"
  using assms
  by (cases c) (auto simp: mq_wait_push_def mq_wait_push_until_def mq_wait_pop_def cv_wait_def
      cv_wait_until_def mq_size_full split: if_splits option.splits)

text \<open>The four kinds of completed critical sections.\<close>

datatype mq_effect = Pushed | Popped | Nothing | Closed_queue

fun effect_ok :: "mq_effect \<Rightarrow> 'e mq_call \<Rightarrow> 'e bounded_mutex_queue \<Rightarrow> notification list \<Rightarrow>
    'e bounded_mutex_queue \<Rightarrow> bool" where
  "effect_ok Pushed c q ns q' = (waits_on c \<noteq> Some Not_empty \<and> ns = [Notify_one Not_empty] \<and>
     \<not> mq_closed q \<and> \<not> mq_closed q' \<and> available Not_empty q' = Suc (available Not_empty q) \<and>
     available Not_full q = Suc (available Not_full q'))"
| "effect_ok Popped c q ns q' = (waits_on c \<noteq> Some Not_full \<and> ns = [Notify_one Not_full] \<and>
     mq_closed q' = mq_closed q \<and> available Not_empty q = Suc (available Not_empty q') \<and>
     available Not_full q' = Suc (available Not_full q))"
| "effect_ok Nothing c q ns q' = (ns = [] \<and> q' = q \<and>
     (\<forall>cv. waits_on c = Some cv \<longrightarrow> throwing_wait c \<or> mq_closed q \<or> available cv q = 0))"
| "effect_ok Closed_queue c q ns q' = (mq_closed q' \<and> waits_on c = None \<and>
     ns = [Notify_all Not_empty, Notify_all Not_full])"

lemma unat_suc_room:
  assumes "mq_inv q" "unat (mq_size q) < length (mq_slots q)"
  shows "unat (mq_size q + 1) = Suc (unat (mq_size q))"
  using unat_plus_one [OF assms(2) mq_inv_D(2) [OF assms(1)]] by simp

lemma push_effect:
  assumes inv: "mq_inv q" and room: "mq_size q \<noteq> mq_slots_size q" and op: "\<not> mq_closed q"
    and c: "waits_on c \<noteq> Some Not_empty" "\<And>x. v = Inl x \<Longrightarrow> waits_on c \<noteq> None \<Longrightarrow> throwing_wait c"
    and eq: "snd (mq_push_and_notify q v) = (ns, q')"
  shows "\<exists>k. effect_ok k c q ns q'"
proof -
  note less = mq_not_full_room [OF inv room]
  show ?thesis
  proof (cases v)
    case (Inl x)
    with eq mq_push_locked_throw [OF inv less, of x] have "effect_ok Nothing c q ns q'"
      using c by (auto simp: mq_push_and_notify_def)
    then show ?thesis by blast
  next
    case (Inr e)
    then have "ns = [Notify_one Not_empty]" "q' = mq_pushed q e"
      using eq by (auto simp: mq_push_and_notify_def mq_push_locked_def)
    then have "effect_ok Pushed c q ns q'"
      using unat_suc_room [OF inv less] less op c by simp
    then show ?thesis by blast
  qed
qed

lemma pop_effect:
  assumes inv: "mq_inv q" and some: "mq_size q \<noteq> 0" and c: "waits_on c \<noteq> Some Not_full"
    and eq: "snd (mq_pop_locked q) = (ns, q')"
  shows "\<exists>k. effect_ok k c q ns q'"
proof -
  have "0 < unat (mq_size q)" using some by (simp add: unat_pos_iff)
  then have "effect_ok Popped c q ns q'"
    using eq c mq_inv_D(4) [OF inv] unat_minus_one_size [OF some]
    by (auto simp: mq_pop_locked_def Let_def)
  then show ?thesis by blast
qed

lemma nothing_effect:
  "(\<And>cv. waits_on c = Some cv \<Longrightarrow> mq_closed q \<or> available cv q = 0) \<Longrightarrow> \<exists>k. effect_ok k c q [] q"
  by (rule exI [of _ Nothing]) auto

lemma full_available:
  "mq_inv q \<Longrightarrow> mq_size q = mq_slots_size q \<Longrightarrow> unat (mq_slots_size q) = length (mq_slots q)"
  by (metis mq_size_full)

lemma closed_effect:
  "mq_closed q' \<Longrightarrow> waits_on c = None \<Longrightarrow>
   \<exists>k. effect_ok k c q [Notify_all Not_empty, Notify_all Not_full] q'"
  by (rule exI [of _ Closed_queue]) auto

lemma mq_exec_effect:
  assumes inv: "mq_inv q" and eq: "mq_exec c stop expired q = Some (ns, q')"
  shows "\<exists>k. effect_ok k c q ns q'"
proof (cases c)
  case (Call_try_push v)
  with eq show ?thesis
    by (auto simp: mq_try_push_def split: if_splits
        intro!: nothing_effect push_effect [OF inv, where v = v])
next
  case (Call_try_emplace v)
  with eq show ?thesis
    by (auto simp: mq_try_emplace_eq mq_try_push_def split: if_splits
        intro!: nothing_effect push_effect [OF inv, where v = v])
next
  case (Call_wait_push v)
  with eq full_available [OF inv] show ?thesis
    by (auto simp: mq_wait_push_def cv_wait_def split: if_splits
        intro!: nothing_effect push_effect [OF inv, where v = v])
next
  case (Call_wait_push_until v)
  with eq full_available [OF inv] show ?thesis
    by (auto simp: mq_wait_push_until_def cv_wait_until_def split: if_splits
        intro!: nothing_effect push_effect [OF inv, where v = v])
next
  case Call_try_pop
  with eq show ?thesis
    by (auto simp: mq_try_pop_def split: if_splits intro!: nothing_effect pop_effect [OF inv])
next
  case Call_wait_pop
  with eq show ?thesis
    by (auto simp: mq_wait_pop_def cv_wait_def split: if_splits
        intro!: nothing_effect pop_effect [OF inv])
next
  case Call_close
  with eq show ?thesis by (auto simp: mq_close_def intro!: closed_effect)
next
  case Call_close_and_discard
  with eq mq_discard_loop_ok [of "q\<lparr>mq_closed := True\<rparr>"] inv show ?thesis
    by (auto simp: mq_close_and_discard_def Let_def intro!: closed_effect)
qed

lemma mq_exec_inv:
  assumes "mq_inv q" "mq_exec c stop expired q = Some (ns, q')"
  shows "mq_inv q'"
  using assms
proof (cases c)
  case (Call_try_push v)
  with assms mq_try_push_ref(2) [OF assms(1), of v] show ?thesis by (cases "mq_try_push q v") auto
next
  case (Call_try_emplace v)
  with assms mq_try_push_ref(2) [OF assms(1), of v] show ?thesis
    by (cases "mq_try_push q v") (auto simp: mq_try_emplace_eq)
next
  case Call_try_pop
  with assms mq_try_pop_ref(2) [OF assms(1)] show ?thesis by (cases "mq_try_pop q") auto
next
  case Call_close_and_discard
  with assms mq_close_and_discard_ref(2) [OF assms(1)] show ?thesis
    by (cases "mq_close_and_discard q") auto
qed (auto simp: mq_close_def dest: mq_wait_push_ref(2) mq_wait_push_until_ref(2) mq_wait_pop_ref(2))

section \<open>Counting parked, ready and notifying threads\<close>

text \<open>For one condition variable: is the thread parked on it, is it a waiter that is back at the
  mutex, how many of its pending notifications are \<open>notify_one\<close> or \<open>notify_all\<close> on it.\<close>

fun n_parked :: "mq_cv \<Rightarrow> 'e mq_thread \<Rightarrow> nat" where
  "n_parked cv (Parked c) = of_bool (waits_on c = Some cv)"
| "n_parked cv _ = 0"

fun n_ready :: "mq_cv \<Rightarrow> 'e mq_thread \<Rightarrow> nat" where
  "n_ready cv (Ready c) = of_bool (waits_on c = Some cv)"
| "n_ready cv _ = 0"

fun n_one :: "mq_cv \<Rightarrow> 'e mq_thread \<Rightarrow> nat" where
  "n_one cv (Notifying ns) = count_list ns (Notify_one cv)"
| "n_one cv _ = 0"

fun n_all :: "mq_cv \<Rightarrow> 'e mq_thread \<Rightarrow> nat" where
  "n_all cv (Notifying ns) = count_list ns (Notify_all cv)"
| "n_all cv _ = 0"

lemma list_ex_parked: "list_ex (parked_on cv) ts = (0 < tally (n_parked cv) ts)"
proof -
  have "parked_on cv th = (n_parked cv th \<noteq> 0)" for th :: "'a mq_thread"
    by (cases th) (simp_all add: parked_on_def)
  then show ?thesis using tally_zero [of "n_parked cv" ts] by (auto simp: list_ex_iff)
qed

lemma wake_counts:
  "n_parked cv' (wake cv th) = (if cv' = cv then 0 else n_parked cv' th)"
  "n_ready cv' (wake cv th) = (if cv' = cv then n_ready cv' th + n_parked cv' th else n_ready cv' th)"
  "n_one cv' (wake cv th) = n_one cv' th" "n_all cv' (wake cv th) = n_all cv' th"
  by (cases th; simp add: wake_def)+

lemma wake_totals:
  "tally (n_parked cv') (map (wake cv) ts) = (if cv' = cv then 0 else tally (n_parked cv') ts)"
  "cv' \<noteq> cv \<Longrightarrow> tally (n_ready cv') (map (wake cv) ts) = tally (n_ready cv') ts"
  "tally (n_one cv') (map (wake cv) ts) = tally (n_one cv') ts"
  "tally (n_all cv') (map (wake cv) ts) = tally (n_all cv') ts"
  by (simp_all add: tally_def comp_def wake_counts)

section \<open>No wake-up is lost\<close>

text \<open>
  While a thread is parked on \<open>cv\<close>, either a \<open>notify_all\<close> on \<open>cv\<close> is still to come, or the
  queue is open and what is available is matched by waiters on their way to the mutex and by
  \<open>notify_one\<close> calls still to come.
\<close>

definition no_lost_wakeup :: "mq_cv \<Rightarrow> 'e mq_system \<Rightarrow> bool" where
  "no_lost_wakeup cv s = (let ts = ms_threads s; q = ms_queue s in
     0 < tally (n_parked cv) ts \<longrightarrow>
       0 < tally (n_all cv) ts \<or>
       (\<not> mq_closed q \<and> available cv q \<le> tally (n_ready cv) ts + tally (n_one cv) ts))"

definition no_throwing_thread :: "'e mq_system \<Rightarrow> bool" where
  "no_throwing_thread s = (\<forall>th \<in> set (ms_threads s).
     case th of Ready c \<Rightarrow> \<not> throwing_wait c | Parked c \<Rightarrow> \<not> throwing_wait c | _ \<Rightarrow> True)"

definition wakeup_inv :: "bool \<Rightarrow> 'e mq_system \<Rightarrow> bool" where
  "wakeup_inv may_throw s = (mq_inv (ms_queue s) \<and> no_lost_wakeup Not_empty s \<and>
     (\<not> may_throw \<longrightarrow> no_throwing_thread s \<and> no_lost_wakeup Not_full s))"

lemma wait_pop_not_throwing: "waits_on c = Some Not_empty \<Longrightarrow> \<not> throwing_wait c"
  by (cases c) auto

text \<open>A completed critical section keeps the balance for a condition variable, unless it is a
  throwing push that gives up a wake-up for it.\<close>

lemma finish_keeps_wakeups:
  assumes inv: "no_lost_wakeup cv \<lparr>ms_queue = q, ms_threads = ts\<rparr>"
    and t: "t < length ts" "ts ! t = Ready c" and eff: "effect_ok k c q ns q'"
    and nothrow: "waits_on c = Some cv \<Longrightarrow> \<not> throwing_wait c"
  shows "no_lost_wakeup cv \<lparr>ms_queue = q', ms_threads = ts[t := Notifying ns]\<rparr>"
proof -
  note tot = tally_update [OF t(1), of "n_parked cv" "Notifying ns"]
    tally_update [OF t(1), of "n_ready cv" "Notifying ns"]
    tally_update [OF t(1), of "n_one cv" "Notifying ns"]
    tally_update [OF t(1), of "n_all cv" "Notifying ns"]
  show ?thesis
    using inv eff nothrow tot t(2)
    by (cases k; cases cv; cases "waits_on c = Some cv") (auto simp: no_lost_wakeup_def Let_def)
qed

lemma park_keeps_wakeups:
  assumes inv: "no_lost_wakeup cv \<lparr>ms_queue = q, ms_threads = ts\<rparr>"
    and t: "t < length ts" "ts ! t = Ready c"
    and c: "waits_on c = Some cv'" "available cv' q = 0" "\<not> mq_closed q"
  shows "no_lost_wakeup cv \<lparr>ms_queue = q, ms_threads = ts[t := Parked c]\<rparr>"
proof -
  note tot = tally_update [OF t(1), of "n_parked cv" "Parked c"]
    tally_update [OF t(1), of "n_ready cv" "Parked c"]
    tally_update [OF t(1), of "n_one cv" "Parked c"]
    tally_update [OF t(1), of "n_all cv" "Parked c"]
  show ?thesis
    using inv c tot t(2) by (cases "cv' = cv") (auto simp: no_lost_wakeup_def Let_def)
qed

lemma unthrown_update:
  assumes "no_throwing_thread \<lparr>ms_queue = q, ms_threads = ts\<rparr>"
    and "case th of Ready c \<Rightarrow> \<not> throwing_wait c | Parked c \<Rightarrow> \<not> throwing_wait c | _ \<Rightarrow> True"
  shows "no_throwing_thread \<lparr>ms_queue = q', ms_threads = ts[t := th]\<rparr>"
  using assms set_update_subset_insert [of ts t th] unfolding no_throwing_thread_def by auto

lemma unthrown_nth:
  "no_throwing_thread \<lparr>ms_queue = q, ms_threads = ts\<rparr> \<Longrightarrow> t < length ts \<Longrightarrow>
   ts ! t = Ready c \<or> ts ! t = Parked c \<Longrightarrow> \<not> throwing_wait c"
  using nth_mem [of t ts] unfolding no_throwing_thread_def by fastforce

text \<open>A step that only moves a thread and does not change the queue.\<close>

lemma move_keeps_wakeups:
  assumes inv: "no_lost_wakeup cv \<lparr>ms_queue = q, ms_threads = ts\<rparr>" and t: "t < length ts"
    and le: "n_parked cv th \<le> n_parked cv (ts ! t)"
      "n_all cv (ts ! t) \<le> n_all cv th"
      "n_ready cv (ts ! t) + n_one cv (ts ! t) \<le> n_ready cv th + n_one cv th"
  shows "no_lost_wakeup cv \<lparr>ms_queue = q, ms_threads = ts[t := th]\<rparr>"
  using inv le tally_update [OF t, of "n_parked cv" th] tally_update [OF t, of "n_ready cv" th]
    tally_update [OF t, of "n_one cv" th] tally_update [OF t, of "n_all cv" th]
  by (auto simp: no_lost_wakeup_def Let_def)

lemma notify_hit_keeps_wakeups:
  assumes inv: "no_lost_wakeup cv \<lparr>ms_queue = q, ms_threads = ts\<rparr>"
    and t: "t < length ts" "ts ! t = Notifying (Notify_one cv' # ns)"
    and u: "u < length ts" "ts ! u = Parked c" "waits_on c = Some cv'"
  shows "no_lost_wakeup cv \<lparr>ms_queue = q, ms_threads = ts[t := Notifying ns, u := Ready c]\<rparr>"
proof -
  have tu: "t \<noteq> u" using t(2) u(2) by auto
  have up: "tally f (ts[t := Notifying ns, u := Ready c]) + f (ts ! t) + f (ts ! u) =
      tally f ts + f (Notifying ns) + f (Ready c)" for f
    using tally_update [of u "ts[t := Notifying ns]" f "Ready c"]
      tally_update [OF t(1), of f "Notifying ns"] u(1) tu
    by simp
  note tot = up [of "n_parked cv"] up [of "n_ready cv"] up [of "n_one cv"] up [of "n_all cv"]
  show ?thesis
    using inv tot t(2) u(2,3) by (cases "cv' = cv") (auto simp: no_lost_wakeup_def Let_def)
qed

lemma notify_miss_keeps_wakeups:
  assumes inv: "no_lost_wakeup cv \<lparr>ms_queue = q, ms_threads = ts\<rparr>"
    and t: "t < length ts" "ts ! t = Notifying (Notify_one cv' # ns)"
    and miss: "\<not> list_ex (parked_on cv') ts"
  shows "no_lost_wakeup cv \<lparr>ms_queue = q, ms_threads = ts[t := Notifying ns]\<rparr>"
proof -
  note tot = tally_update [OF t(1), of "n_parked cv" "Notifying ns"]
    tally_update [OF t(1), of "n_ready cv" "Notifying ns"]
    tally_update [OF t(1), of "n_one cv" "Notifying ns"]
    tally_update [OF t(1), of "n_all cv" "Notifying ns"]
  show ?thesis
    using inv tot t(2) miss
    by (cases "cv' = cv") (auto simp: no_lost_wakeup_def Let_def list_ex_parked)
qed

lemma notify_all_keeps_wakeups:
  assumes inv: "no_lost_wakeup cv \<lparr>ms_queue = q, ms_threads = ts\<rparr>"
    and t: "t < length ts" "ts ! t = Notifying (Notify_all cv' # ns)"
  shows "no_lost_wakeup cv \<lparr>ms_queue = q, ms_threads = map (wake cv') (ts[t := Notifying ns])\<rparr>"
proof -
  note tot = tally_update [OF t(1), of "n_parked cv" "Notifying ns"]
    tally_update [OF t(1), of "n_ready cv" "Notifying ns"]
    tally_update [OF t(1), of "n_one cv" "Notifying ns"]
    tally_update [OF t(1), of "n_all cv" "Notifying ns"]
  show ?thesis
    using inv tot t(2) by (cases "cv' = cv") (auto simp: no_lost_wakeup_def Let_def wake_totals)
qed

lemma unthrown_wake:
  "no_throwing_thread \<lparr>ms_queue = q, ms_threads = ts\<rparr> \<Longrightarrow>
   no_throwing_thread \<lparr>ms_queue = q, ms_threads = map (wake cv) ts\<rparr>"
  by (auto simp: no_throwing_thread_def wake_def split: mq_thread.splits)

lemma wakeup_inv_step:
  assumes "mq_step may_throw s s'" "wakeup_inv may_throw s"
  shows "wakeup_inv may_throw s'"
  using assms
proof (induction rule: mq_step.induct)
  case (enter t ts c q)
  then show ?case
    unfolding wakeup_inv_def by (auto intro!: move_keeps_wakeups unthrown_update)
next
  case (finish t ts c stop expired q ns q')
  then have inv: "mq_inv q" by (simp add: wakeup_inv_def)
  from mq_exec_effect [OF inv finish.hyps(3)] obtain k where k: "effect_ok k c q ns q'" by blast
  with finish mq_exec_inv [OF inv finish.hyps(3)] show ?case
    unfolding wakeup_inv_def
    by (auto intro!: finish_keeps_wakeups [OF _ _ _ k] unthrown_update
        dest: wait_pop_not_throwing unthrown_nth)
next
  case (park t ts c stop expired q)
  then have inv: "mq_inv q" by (simp add: wakeup_inv_def)
  from mq_exec_None [OF inv park.hyps(3)] obtain cv
    where "waits_on c = Some cv" "available cv q = 0" "\<not> mq_closed q" .
  with park show ?case
    unfolding wakeup_inv_def
    by (auto intro!: park_keeps_wakeups unthrown_update dest: unthrown_nth)
next
  case (wake_up t ts c q)
  then show ?case
    unfolding wakeup_inv_def by (auto intro!: move_keeps_wakeups unthrown_update dest: unthrown_nth)
next
  case (notify_hit t ts cv ns u c q)
  then show ?case
    unfolding wakeup_inv_def
    by (auto intro!: notify_hit_keeps_wakeups unthrown_update dest: unthrown_nth)
next
  case (notify_miss t ts cv ns q)
  then show ?case
    unfolding wakeup_inv_def by (auto intro!: notify_miss_keeps_wakeups unthrown_update)
next
  case (notify_all t ts cv ns q)
  then have "\<not> may_throw \<Longrightarrow> no_throwing_thread
      \<lparr>ms_queue = q, ms_threads = map (wake cv) (ts[t := Notifying ns])\<rparr>"
    by (intro unthrown_wake unthrown_update [where q = q]) (simp_all add: wakeup_inv_def)
  with notify_all show ?case
    unfolding wakeup_inv_def by (auto intro!: notify_all_keeps_wakeups)
next
  case (leave t ts q)
  then show ?case
    unfolding wakeup_inv_def by (auto intro!: move_keeps_wakeups unthrown_update)
qed

lemma wakeup_inv_reachable: "mq_reachable may_throw s \<Longrightarrow> wakeup_inv may_throw s"
proof (induction rule: mq_reachable.induct)
  case (start capacity q n)
  then show ?case
    using mq_new_ok [OF start]
    by (auto simp: wakeup_inv_def no_lost_wakeup_def no_throwing_thread_def tally_def)
next
  case (step s s')
  then show ?case by (blast intro: wakeup_inv_step)
qed

lemma quiescent_counts:
  "quiescent th \<Longrightarrow> n_ready cv th = 0 \<and> n_one cv th = 0 \<and> n_all cv th = 0"
  by (cases th) (simp_all add: quiescent_def)

lemma quiescent_no_lost:
  assumes "no_lost_wakeup cv s" "list_all quiescent (ms_threads s)"
    "list_ex (parked_on cv) (ms_threads s)"
  shows "\<not> mq_closed (ms_queue s) \<and> available cv (ms_queue s) = 0"
proof -
  have "tally (n_ready cv) (ms_threads s) = 0" "tally (n_one cv) (ms_threads s) = 0"
    "tally (n_all cv) (ms_threads s) = 0"
    using assms(2) quiescent_counts [of _ cv] by (auto simp: tally_zero list_all_iff)
  with assms(1,3) show ?thesis by (simp add: no_lost_wakeup_def list_ex_parked Let_def)
qed

section \<open>The properties\<close>

text \<open>
  Property C2: no consumer sleeps through an event. In every reachable state of any number of
  threads on a mutex queue, if no thread is at the mutex and no notification is pending, then a
  consumer parked in \<open>wait_pop\<close> implies that the queue is open and empty.
\<close>

theorem mq_no_sleeping_consumer:
  assumes "mq_reachable may_throw s" "list_all quiescent (ms_threads s)"
    and "list_ex (parked_on Not_empty) (ms_threads s)"
  shows "\<not> mq_closed (ms_queue s) \<and> mq_items (ms_queue s) = []"
  using quiescent_no_lost [OF _ assms(2,3)] wakeup_inv_reachable [OF assms(1)]
  by (simp add: wakeup_inv_def unat_eq_zero flip: mq_size_zero_items)

text \<open>Concrete runs on a queue of capacity one.\<close>

definition mq_one :: "nat bounded_mutex_queue" where
  "mq_one = \<lparr>mq_slots = [None], mq_head = 0, mq_tail = 0, mq_size = 0, mq_closed = False\<rparr>"

lemma mq_one_start: "mq_reachable may_throw \<lparr>ms_queue = mq_one, ms_threads = replicate n Idle\<rparr>"
  by (rule mq_reachable.start [of 1]) (simp add: mq_new_def mq_one_def)

lemma mq_enter_reachable:
  "mq_reachable m \<lparr>ms_queue = q, ms_threads = ts\<rparr> \<Longrightarrow> t < length ts \<Longrightarrow> ts ! t = Idle \<Longrightarrow>
   throwing_wait c \<longrightarrow> m \<Longrightarrow> ts' = ts[t := Ready c] \<Longrightarrow>
   mq_reachable m \<lparr>ms_queue = q, ms_threads = ts'\<rparr>"
  by (blast intro: mq_reachable.step mq_step.enter)

lemma mq_finish_reachable:
  "mq_reachable m \<lparr>ms_queue = q, ms_threads = ts\<rparr> \<Longrightarrow> t < length ts \<Longrightarrow> ts ! t = Ready c \<Longrightarrow>
   mq_exec c False False q = Some (ns, q') \<Longrightarrow> ts' = ts[t := Notifying ns] \<Longrightarrow>
   mq_reachable m \<lparr>ms_queue = q', ms_threads = ts'\<rparr>"
  by (blast intro: mq_reachable.step mq_step.finish)

lemma mq_park_reachable:
  "mq_reachable m \<lparr>ms_queue = q, ms_threads = ts\<rparr> \<Longrightarrow> t < length ts \<Longrightarrow> ts ! t = Ready c \<Longrightarrow>
   mq_exec c False False q = None \<Longrightarrow> ts' = ts[t := Parked c] \<Longrightarrow>
   mq_reachable m \<lparr>ms_queue = q, ms_threads = ts'\<rparr>"
  by (blast intro: mq_reachable.step mq_step.park)

lemma mq_notify_hit_reachable:
  "mq_reachable m \<lparr>ms_queue = q, ms_threads = ts\<rparr> \<Longrightarrow> t < length ts \<Longrightarrow>
   ts ! t = Notifying (Notify_one cv # ns) \<Longrightarrow> u < length ts \<Longrightarrow> ts ! u = Parked c \<Longrightarrow>
   waits_on c = Some cv \<Longrightarrow> ts' = ts[t := Notifying ns, u := Ready c] \<Longrightarrow>
   mq_reachable m \<lparr>ms_queue = q, ms_threads = ts'\<rparr>"
  by (blast intro: mq_reachable.step mq_step.notify_hit)

lemma mq_notify_miss_reachable:
  "mq_reachable m \<lparr>ms_queue = q, ms_threads = ts\<rparr> \<Longrightarrow> t < length ts \<Longrightarrow>
   ts ! t = Notifying (Notify_one cv # ns) \<Longrightarrow> \<not> list_ex (parked_on cv) ts \<Longrightarrow>
   ts' = ts[t := Notifying ns] \<Longrightarrow> mq_reachable m \<lparr>ms_queue = q, ms_threads = ts'\<rparr>"
  by (blast intro: mq_reachable.step mq_step.notify_miss)

lemma mq_leave_reachable:
  "mq_reachable m \<lparr>ms_queue = q, ms_threads = ts\<rparr> \<Longrightarrow> t < length ts \<Longrightarrow> ts ! t = Notifying [] \<Longrightarrow>
   ts' = ts[t := Idle] \<Longrightarrow> mq_reachable m \<lparr>ms_queue = q, ms_threads = ts'\<rparr>"
  by (blast intro: mq_reachable.step mq_step.leave)

lemmas mq_run_defs = mq_wait_pop_def mq_wait_push_def mq_try_push_def mq_try_pop_def cv_wait_def
  mq_push_and_notify_def mq_push_locked_def mq_pop_locked_def mq_increment_def mq_slots_size_def
  mq_one_def parked_on_def quiescent_def

lemma mq_parked_consumer_run:
  "mq_reachable False \<lparr>ms_queue = mq_one, ms_threads = [Parked Call_wait_pop]\<rparr>"
proof -
  have "mq_reachable False \<lparr>ms_queue = mq_one, ms_threads = [Idle]\<rparr>"
    using mq_one_start [of False 1] by simp
  from mq_enter_reachable [OF this, of 0 Call_wait_pop "[Ready Call_wait_pop]"]
  have "mq_reachable False \<lparr>ms_queue = mq_one, ms_threads = [Ready Call_wait_pop]\<rparr>" by simp
  from mq_park_reachable [OF this, of 0 Call_wait_pop "[Parked Call_wait_pop]"]
  show ?thesis by (simp add: mq_run_defs)
qed

theorem mq_no_sleeping_consumer_witness:
  "\<not> mq_closed mq_one \<and> mq_items mq_one = []"
  using mq_no_sleeping_consumer [OF mq_parked_consumer_run] by (simp add: mq_run_defs)

text \<open>
  Property C21: no producer sleeps while there is room, provided that the constructor of a waiting
  push does not throw (the rvalue overloads): with no thread at the mutex and no notification
  pending, a producer parked in \<open>wait_push\<close> or \<open>wait_push_until\<close> implies that the queue is
  open and full.
\<close>

theorem mq_no_sleeping_producer:
  assumes "mq_reachable False s" "list_all quiescent (ms_threads s)"
    and "list_ex (parked_on Not_full) (ms_threads s)"
  shows "\<not> mq_closed (ms_queue s) \<and> length (mq_items (ms_queue s)) = unat (mq_capacity (ms_queue s))"
proof -
  have inv: "mq_inv (ms_queue s)" "no_lost_wakeup Not_full s"
    using wakeup_inv_reachable [OF assms(1)] by (simp_all add: wakeup_inv_def)
  with quiescent_no_lost [OF inv(2) assms(2,3)] mq_inv_D(2,4) [OF inv(1)] show ?thesis
    by (simp add: mq_capacity_def mq_slots_size_def word_simps)
qed

definition mq_one_full :: "nat bounded_mutex_queue" where
  "mq_one_full = \<lparr>mq_slots = [Some 7], mq_head = 0, mq_tail = 0, mq_size = 1, mq_closed = False\<rparr>"

lemma mq_full_run: "mq_reachable m \<lparr>ms_queue = mq_one_full, ms_threads = [Idle, Idle, Idle]\<rparr>"
proof -
  let ?c = "Call_try_push (Inr 7)"
  have r0: "mq_reachable m \<lparr>ms_queue = mq_one, ms_threads = [Idle, Idle, Idle]\<rparr>"
    using mq_one_start [of m 3] by (simp add: numeral_eq_Suc)
  have r1: "mq_reachable m \<lparr>ms_queue = mq_one, ms_threads = [Ready ?c, Idle, Idle]\<rparr>"
    by (rule mq_enter_reachable [OF r0, of 0 ?c]) simp_all
  have r2: "mq_reachable m \<lparr>ms_queue = mq_one_full,
      ms_threads = [Notifying [Notify_one Not_empty], Idle, Idle]\<rparr>"
    by (rule mq_finish_reachable [OF r1, of 0 ?c]) (simp_all add: mq_run_defs mq_one_full_def)
  have r3: "mq_reachable m \<lparr>ms_queue = mq_one_full, ms_threads = [Notifying [], Idle, Idle]\<rparr>"
    by (rule mq_notify_miss_reachable [OF r2, of 0 Not_empty "[]"]) (simp_all add: mq_run_defs)
  show ?thesis by (rule mq_leave_reachable [OF r3, of 0]) simp_all
qed

lemma mq_parked_producers_run:
  assumes "throwing_wait (Call_wait_push v) \<longrightarrow> m"
  shows "mq_reachable m \<lparr>ms_queue = mq_one_full,
    ms_threads = [Idle, Parked (Call_wait_push v), Parked (Call_wait_push (Inr 8))]\<rparr>"
proof -
  let ?v = "Call_wait_push v" and ?w = "Call_wait_push (Inr (8::nat))"
  have full: "mq_exec ?v False False mq_one_full = None" "mq_exec ?w False False mq_one_full = None"
    by (simp_all add: mq_run_defs mq_one_full_def)
  have r1: "mq_reachable m \<lparr>ms_queue = mq_one_full, ms_threads = [Idle, Ready ?v, Idle]\<rparr>"
    by (rule mq_enter_reachable [OF mq_full_run, of 1 ?v]) (simp_all add: assms)
  have r2: "mq_reachable m \<lparr>ms_queue = mq_one_full, ms_threads = [Idle, Parked ?v, Idle]\<rparr>"
    by (rule mq_park_reachable [OF r1, of 1 ?v]) (simp_all add: full del: mq_exec.simps)
  have r3: "mq_reachable m \<lparr>ms_queue = mq_one_full, ms_threads = [Idle, Parked ?v, Ready ?w]\<rparr>"
    by (rule mq_enter_reachable [OF r2, of 2 ?w]) simp_all
  show ?thesis
    by (rule mq_park_reachable [OF r3, of 2 ?w]) (simp_all add: full del: mq_exec.simps)
qed

theorem mq_no_sleeping_producer_witness:
  "\<not> mq_closed mq_one_full \<and> length (mq_items mq_one_full) = unat (mq_capacity mq_one_full)"
proof -
  have "mq_reachable False \<lparr>ms_queue = mq_one_full,
      ms_threads = [Idle, Parked (Call_wait_push (Inr 9)), Parked (Call_wait_push (Inr 8))]\<rparr>"
    by (rule mq_parked_producers_run) simp
  from mq_no_sleeping_producer [OF this] show ?thesis by (simp add: mq_run_defs)
qed

text \<open>
  Property C37: without that proviso the guarantee fails. A waiting push that was woken by the
  \<open>notify_one\<close> of a pop and whose copy constructor then throws leaves \<open>push_locked\<close> without
  passing the wake-up on. There is a reachable state in which no thread runs and no notification
  is pending, the queue is open and empty, and yet a producer stays parked in \<open>wait_push\<close>.
\<close>

theorem mq_throwing_push_loses_wakeup:
  "\<exists>s :: nat mq_system. mq_reachable True s \<and> list_all quiescent (ms_threads s) \<and>
     list_ex (parked_on Not_full) (ms_threads s) \<and>
     \<not> mq_closed (ms_queue s) \<and> mq_items (ms_queue s) = []"
proof -
  let ?v = "Call_wait_push (Inl (User_exception 0))" and ?w = "Call_wait_push (Inr (8::nat))"
  let ?p = "Call_try_pop :: nat mq_call"
  have r0: "mq_reachable True \<lparr>ms_queue = mq_one_full, ms_threads = [Idle, Parked ?v, Parked ?w]\<rparr>"
    by (rule mq_parked_producers_run) simp
  have r1: "mq_reachable True \<lparr>ms_queue = mq_one_full, ms_threads = [Ready ?p, Parked ?v, Parked ?w]\<rparr>"
    by (rule mq_enter_reachable [OF r0, of 0 ?p]) simp_all
  have r2: "mq_reachable True \<lparr>ms_queue = mq_one,
      ms_threads = [Notifying [Notify_one Not_full], Parked ?v, Parked ?w]\<rparr>"
    by (rule mq_finish_reachable [OF r1, of 0 ?p]) (simp_all add: mq_run_defs mq_one_full_def)
  have r3: "mq_reachable True \<lparr>ms_queue = mq_one, ms_threads = [Notifying [], Ready ?v, Parked ?w]\<rparr>"
    by (rule mq_notify_hit_reachable [OF r2, of 0 Not_full "[]" 1 ?v]) simp_all
  have r4: "mq_reachable True \<lparr>ms_queue = mq_one, ms_threads = [Idle, Ready ?v, Parked ?w]\<rparr>"
    by (rule mq_leave_reachable [OF r3, of 0]) simp_all
  have r5: "mq_reachable True \<lparr>ms_queue = mq_one, ms_threads = [Idle, Notifying [], Parked ?w]\<rparr>"
    by (rule mq_finish_reachable [OF r4, of 1 ?v]) (simp_all add: mq_run_defs)
  have r6: "mq_reachable True \<lparr>ms_queue = mq_one, ms_threads = [Idle, Idle, Parked ?w]\<rparr>"
    by (rule mq_leave_reachable [OF r5, of 1]) simp_all
  let ?s = "\<lparr>ms_queue = mq_one, ms_threads = [Idle, Idle, Parked ?w]\<rparr>"
  have "list_all quiescent (ms_threads ?s) \<and> list_ex (parked_on Not_full) (ms_threads ?s) \<and>
      \<not> mq_closed (ms_queue ?s) \<and> mq_items (ms_queue ?s) = []"
    by (simp add: mq_run_defs flip: mq_size_zero_items)
  with r6 show ?thesis by blast
qed

end
