(* ===== verification/Circular_Index_Queue.thy ===== *)
theory Circular_Index_Queue
  imports Prelude
begin

text \<open>
  \<open>scalable_circular_index_queue\<close> (\<open>queue/detail/scalable_circular_index_queue.hpp\<close>), the SCQ
  ring of indices below the capacity, with its 64-bit tickets, its entries that pack a cycle, a
  safe bit and an index into one word, and its threshold.

  The definitions execute one operation at a time: every atomic access reads and writes the same
  state, so a compare-exchange succeeds, and a spurious failure of the weak form would reload the
  same entry and repeat the iteration. The ticket loops are \<^theory_text>\<open>partial_function (option)\<close>,
  so that not returning is the value \<open>None\<close>; the lemmas show that under the invariant every call
  returns in one round.

  For every capacity \<open>2 ^ k\<close> with \<open>1 \<le> k \<le> 61\<close>, which are the capacities the owning queue
  accepts, the ring implements a FIFO list of indices, at any position of the wrapping 64-bit
  tickets.
\<close>

unbundle bit_operations_syntax

section \<open>State and operations\<close>

record scq =
  sq_capacity :: size_t
  sq_ring_size :: size_t
  sq_ring_mask :: size_t
  sq_entries :: "size_t list"
  sq_head :: size_t
  sq_threshold :: intptr_t
  sq_tail :: size_t

definition catchup_attempts :: nat where
  "catchup_attempts = 10000"

definition scq_map :: "scq \<Rightarrow> size_t \<Rightarrow> size_t" where
  "scq_map q index = index AND sq_ring_mask q"

definition cycle_mask :: "scq \<Rightarrow> size_t" where
  "cycle_mask q = (sq_ring_size q * 2) - 1"

definition initial_threshold :: "scq \<Rightarrow> intptr_t" where
  "initial_threshold q = sq_capacity q + sq_ring_size q - 1"

definition before :: "size_t \<Rightarrow> size_t \<Rightarrow> bool" where
  "before left right = (sint (left - right) < 0)"

definition before_or_equal :: "size_t \<Rightarrow> size_t \<Rightarrow> bool" where
  "before_or_equal left right = (sint (left - right) \<le> 0)"

definition initialize_empty :: "scq \<Rightarrow> scq" where
  "initialize_empty q =
     (let es = foldl (\<lambda>es index. es[index := (- 1 :: size_t)]) (sq_entries q)
                 [0..<unat (sq_ring_size q)]
      in q\<lparr>sq_entries := es, sq_head := 0, sq_threshold := - 1, sq_tail := 0\<rparr>)"

definition initialize_full :: "scq \<Rightarrow> scq" where
  "initialize_full q =
     (let es1 = foldl (\<lambda>es index. es[unat (scq_map q (of_nat index)) := sq_ring_size q + of_nat index])
                  (sq_entries q) [0..<unat (sq_capacity q)];
          es2 = foldl (\<lambda>es index. es[unat (scq_map q (of_nat index)) := (- 1 :: size_t)]) es1
                  [unat (sq_capacity q)..<unat (sq_ring_size q)]
      in q\<lparr>sq_entries := es2, sq_head := 0, sq_threshold := initial_threshold q,
           sq_tail := sq_capacity q\<rparr>)"

definition scq_new :: "size_t \<Rightarrow> bool \<Rightarrow> scq" where
  "scq_new capacity initially_full =
     (let q = \<lparr>sq_capacity = capacity, sq_ring_size = capacity * 2, sq_ring_mask = capacity * 2 - 1,
               sq_entries = replicate (unat (capacity * 2)) 0, sq_head = 0, sq_threshold = - 1,
               sq_tail = 0\<rparr>
      in if initially_full then initialize_full q else initialize_empty q)"

partial_function (option) scq_enqueue :: "scq \<Rightarrow> size_t \<Rightarrow> bool \<Rightarrow> scq option" where
  "scq_enqueue q index known_nonempty =
     (let encoded_index = index XOR sq_ring_mask q;
          tail = sq_tail q;
          q1 = q\<lparr>sq_tail := tail + 1\<rparr>;
          tail_cycle = (push_bit 1 tail) OR cycle_mask q;
          target = unat (scq_map q tail);
          entry = sq_entries q1 ! target;
          entry_cycle = entry OR cycle_mask q;
          reusable = before entry_cycle tail_cycle \<and>
            (entry = entry_cycle \<or>
             (entry = entry_cycle XOR sq_ring_size q \<and> before_or_equal (sq_head q1) tail))
      in if \<not> reusable then scq_enqueue q1 index known_nonempty
         else let q2 = q1\<lparr>sq_entries := (sq_entries q1)[target := tail_cycle XOR encoded_index]\<rparr>
              in Some (if \<not> known_nonempty \<and> sq_threshold q2 \<noteq> initial_threshold q2
                       then q2\<lparr>sq_threshold := initial_threshold q2\<rparr> else q2))"

text \<open>The inner loop of \<open>try_dequeue\<close> on one entry: either the index at this ticket, or nothing
  after the entry was advanced or marked unsafe.\<close>

function scq_dequeue_entry :: "scq \<Rightarrow> nat \<Rightarrow> size_t \<Rightarrow> nat \<Rightarrow> size_t option \<times> scq" where
  "scq_dequeue_entry q target head_cycle attempts =
     (let entry = sq_entries q ! target;
          entry_cycle = entry OR cycle_mask q;
          advance = (\<lambda>replacement.
            if \<not> before entry_cycle head_cycle then (None, q)
            else (None, q\<lparr>sq_entries := (sq_entries q)[target := replacement]\<rparr>))
      in if entry_cycle = head_cycle
         then (Some (entry AND sq_ring_mask q),
               q\<lparr>sq_entries := (sq_entries q)[target := entry OR sq_ring_mask q]\<rparr>)
         else if entry OR sq_ring_size q \<noteq> entry_cycle
         then (let replacement = entry AND NOT (sq_ring_size q)
               in if entry = replacement then (None, q) else advance replacement)
         else if attempts + 1 \<le> catchup_attempts
         then scq_dequeue_entry q target head_cycle (attempts + 1)
         else advance (head_cycle XOR (NOT entry AND sq_ring_size q)))"
  by pat_completeness auto
termination
  by (relation "measure (\<lambda>(q, target, head_cycle, attempts). catchup_attempts + 1 - attempts)") auto

declare scq_dequeue_entry.simps [simp del]

text \<open>A compare-exchange on the tail that fails reloads both tickets; the next one then succeeds.\<close>

definition catch_up :: "scq \<Rightarrow> size_t \<Rightarrow> size_t \<Rightarrow> scq" where
  "catch_up q tail head =
     (if sq_tail q = tail then q\<lparr>sq_tail := head\<rparr>
      else (let head = sq_head q; tail = sq_tail q
            in if \<not> before tail head then q else q\<lparr>sq_tail := head\<rparr>))"

partial_function (option) scq_dequeue_loop :: "scq \<Rightarrow> bool \<Rightarrow> (size_t option \<times> scq) option" where
  "scq_dequeue_loop q known_nonempty =
     (let head = sq_head q;
          q1 = q\<lparr>sq_head := head + 1\<rparr>;
          head_cycle = (push_bit 1 head) OR cycle_mask q;
          target = unat (scq_map q head)
      in case scq_dequeue_entry q1 target head_cycle 0 of
           (Some index, q2) \<Rightarrow> Some (Some index, q2)
         | (None, q2) \<Rightarrow>
             if \<not> known_nonempty
             then (let tail = sq_tail q2 in
                   if before_or_equal tail (head + 1)
                   then (let q3 = catch_up q2 tail (head + 1)
                         in Some (None, q3\<lparr>sq_threshold := sq_threshold q3 - 1\<rparr>))
                   else if sint (sq_threshold q2) \<le> 0
                   then Some (None, q2\<lparr>sq_threshold := sq_threshold q2 - 1\<rparr>)
                   else scq_dequeue_loop (q2\<lparr>sq_threshold := sq_threshold q2 - 1\<rparr>) known_nonempty)
             else scq_dequeue_loop q2 known_nonempty)"

definition scq_try_dequeue :: "scq \<Rightarrow> bool \<Rightarrow> (size_t option \<times> scq) option" where
  "scq_try_dequeue q known_nonempty =
     (if \<not> known_nonempty \<and> sint (sq_threshold q) < 0 then Some (None, q)
      else scq_dequeue_loop q known_nonempty)"

section \<open>Cycle words\<close>

text \<open>The cycle word of a ticket, \<open>(ticket << 1) | cycle_mask()\<close>, for a capacity \<open>2 ^ k\<close>, and the
  word of an occupied entry.\<close>

definition cyc :: "nat \<Rightarrow> int \<Rightarrow> size_t" where
  "cyc k \<tau> = (word_of_int (2 * \<tau>) :: size_t) OR mask (k + 2)"

definition occupied :: "nat \<Rightarrow> int \<Rightarrow> size_t \<Rightarrow> size_t" where
  "occupied k \<tau> x = cyc k \<tau> XOR (x XOR mask (k + 1))"

lemma or_mask_arith: "(a :: size_t) OR mask m = a - take_bit m a + mask m"
proof -
  have 1: "a OR mask m = (a AND NOT (mask m)) + mask m"
    by (subst disjunctive_add) (auto simp: bit_simps bit_eq_iff)
  have 2: "a = (a AND NOT (mask m)) + take_bit m a"
    by (subst disjunctive_add) (auto simp: bit_simps bit_eq_iff)
  show ?thesis using 1 2 by (metis add_diff_cancel_right')
qed

lemma cyc_diff: "cyc k \<tau> - cyc k (\<tau> - 2 ^ (k + 1)) = 2 ^ (k + 2)"
proof -
  have eq: "2 * (\<tau> - 2 ^ (k + 1)) = 2 * \<tau> - 2 ^ (k + 2)" by simp
  have "take_bit (k + 2) (2 * \<tau> - 2 ^ (k + 2)) = take_bit (k + 2) (2 * \<tau>)"
    by (simp only: take_bit_eq_mod minus_mod_self2)
  then have "take_bit (k + 2) (word_of_int (2 * \<tau> - 2 ^ (k + 2)) :: size_t) =
      take_bit (k + 2) (word_of_int (2 * \<tau>))"
    by (simp only: take_bit_of_int)
  then show ?thesis unfolding cyc_def or_mask_arith eq by simp
qed

lemma sint_neg_exp:
  assumes "m \<le> 63"
  shows "sint (- (2 ^ m) :: size_t) < 0"
proof -
  have "bit (- (2 ^ m) :: size_t) 63"
    using assms by (simp add: minus_exp_eq_not_mask bit_simps)
  then show ?thesis using bit_last_iff [of "- (2 ^ m) :: size_t"] by simp
qed

definition prev_cyc :: "nat \<Rightarrow> int \<Rightarrow> size_t" where
  "prev_cyc k \<tau> = cyc k (\<tau> - 2 ^ (k + 1))"

lemma prev_cyc_round: "\<tau>' = \<tau> + 2 ^ (k + 1) \<Longrightarrow> prev_cyc k \<tau>' = cyc k \<tau>"
  by (simp add: prev_cyc_def)

lemma before_prev_cyc:
  assumes "k \<le> 61"
  shows "before (prev_cyc k \<tau>) (cyc k \<tau>)"
  unfolding prev_cyc_def
proof -
  have "cyc k (\<tau> - 2 ^ (k + 1)) - cyc k \<tau> = - (2 ^ (k + 2))"
    using cyc_diff [of k \<tau>] by (simp add: algebra_simps)
  then show "before (cyc k (\<tau> - 2 ^ (k + 1))) (cyc k \<tau>)"
    using sint_neg_exp [of "k + 2"] assms by (simp add: before_def)
qed

lemma prev_cyc_neq: "k \<le> 61 \<Longrightarrow> prev_cyc k \<tau> \<noteq> cyc k \<tau>"
  using before_prev_cyc [of k \<tau>] by (auto simp: before_def)

lemma bit_small:
  fixes x :: size_t
  assumes "unat x < 2 ^ m" "bit x i"
  shows "i < m"
proof (rule ccontr)
  assume i: "\<not> i < m"
  have "unat (take_bit m x) = unat x"
    using assms(1) by (simp add: unsigned_take_bit_eq take_bit_nat_eq_self)
  then have "take_bit m x = x" by (simp only: word_unat_eq_iff)
  then show False using assms(2) i by (metis bit_take_bit_iff)
qed

lemma occupied_bits:
  assumes "unat x < 2 ^ (k + 1)" "k \<le> 61"
  shows "occupied k \<tau> x OR mask (k + 2) = cyc k \<tau>" "occupied k \<tau> x OR mask (k + 1) = cyc k \<tau>"
    "occupied k \<tau> x AND mask (k + 1) = x"
  unfolding cyc_def occupied_def using bit_small [OF assms(1)] assms(2)
  by (auto simp: bit_eq_iff bit_simps)

lemma cyc_bits:
  assumes "k \<le> 61"
  shows "cyc k \<tau> OR mask (k + 2) = cyc k \<tau>" "cyc k \<tau> OR 2 ^ (k + 1) = cyc k \<tau>"
    "NOT (cyc k \<tau>) AND 2 ^ (k + 1) = 0"
  unfolding cyc_def using assms
  by (simp_all add: bit_eq_iff [where ?'a = size_t]) (auto simp: bit_simps)

lemma ticket_cycle: "push_bit 1 (word_of_int \<tau> :: size_t) OR mask (k + 2) = cyc k \<tau>"
  by (simp add: cyc_def push_bit_eq_mult algebra_simps)

lemma unat_ticket_slot:
  assumes "k \<le> 61"
  shows "unat ((word_of_int \<tau> :: size_t) AND mask (k + 1)) = nat (\<tau> mod 2 ^ (k + 1))"
proof -
  have "(word_of_int \<tau> :: size_t) AND mask (k + 1) = word_of_int (take_bit (k + 1) \<tau>)"
    by (simp only: take_bit_of_int flip: take_bit_eq_mask)
  moreover have "take_bit 64 (take_bit (k + 1) \<tau>) = take_bit (k + 1) \<tau>"
    using assms by (simp add: min_def)
  ultimately show ?thesis
    by (simp only: unat_eq_nat_uint uint_word_of_int_eq len_bit0 len_num1) (simp add: take_bit_eq_mod)
qed

section \<open>The invariant\<close>

text \<open>
  The ring holds \<open>xs\<close> from ticket \<open>h\<close> on: the entry of ticket \<open>h + i\<close> is occupied by the \<open>i\<close>-th
  index of \<open>xs\<close>, and every other entry is empty, safe, and carries the cycle of the previous round.
  Tickets are unbounded integers here; the state has their 64-bit images.
\<close>

definition slot_of :: "nat \<Rightarrow> int \<Rightarrow> nat" where
  "slot_of k \<tau> = nat (\<tau> mod 2 ^ (k + 1))"

definition expected_entry :: "nat \<Rightarrow> int \<Rightarrow> size_t list \<Rightarrow> nat \<Rightarrow> size_t" where
  "expected_entry k h xs i =
     (if i < length xs then occupied k (h + int i) (xs ! i) else prev_cyc k (h + int i))"

definition scq_inv :: "nat \<Rightarrow> int \<Rightarrow> size_t list \<Rightarrow> scq \<Rightarrow> bool" where
  "scq_inv k h xs q = (
     1 \<le> k \<and> k \<le> 61 \<and>
     sq_capacity q = 2 ^ k \<and> sq_ring_size q = 2 ^ (k + 1) \<and> sq_ring_mask q = mask (k + 1) \<and>
     length (sq_entries q) = 2 ^ (k + 1) \<and>
     sq_head q = word_of_int h \<and> sq_tail q = word_of_int (h + int (length xs)) \<and>
     (\<forall>i < 2 ^ (k + 1). sq_entries q ! slot_of k (h + int i) = expected_entry k h xs i) \<and>
     length xs \<le> 2 ^ k \<and> (\<forall>x \<in> set xs. unat x < 2 ^ k) \<and>
     - 1 \<le> sint (sq_threshold q) \<and> sint (sq_threshold q) \<le> 3 * 2 ^ k - 1 \<and>
     (xs \<noteq> [] \<longrightarrow> 0 \<le> sint (sq_threshold q)))"

definition scq_holds :: "nat \<Rightarrow> size_t list \<Rightarrow> scq \<Rightarrow> bool" where
  "scq_holds k xs q = (\<exists>h. scq_inv k h xs q)"

lemma slot_of_less: "slot_of k \<tau> < 2 ^ (k + 1)"
proof -
  have "\<tau> mod 2 ^ (k + 1) < 2 ^ (k + 1)" "0 \<le> \<tau> mod 2 ^ (k + 1)" by simp_all
  then show ?thesis unfolding slot_of_def by (simp add: nat_less_iff)
qed

lemma slot_of_inject:
  assumes "i < 2 ^ (k + 1)" "j < 2 ^ (k + 1)"
  shows "(slot_of k (h + int i) = slot_of k (h + int j)) = (i = j)"
proof
  assume "slot_of k (h + int i) = slot_of k (h + int j)"
  then have "(h + int i) mod 2 ^ (k + 1) = (h + int j) mod 2 ^ (k + 1)"
    by (simp add: slot_of_def eq_nat_nat_iff)
  then have "(int i) mod 2 ^ (k + 1) = (int j) mod 2 ^ (k + 1)"
    by (metis add_diff_cancel_left' mod_diff_cong)
  moreover have "int i < 2 ^ (k + 1)" "int j < 2 ^ (k + 1)"
    using assms by (metis of_nat_less_iff of_nat_numeral of_nat_power)+
  ultimately show "i = j" by simp
qed simp

lemma slot_of_round: "slot_of k (h + 2 ^ (k + 1)) = slot_of k h"
  by (simp add: slot_of_def)

lemma scq_inv_D:
  assumes "scq_inv k h xs q"
  shows "1 \<le> k" "k \<le> 61" "sq_capacity q = 2 ^ k" "sq_ring_size q = 2 ^ (k + 1)"
    "sq_ring_mask q = mask (k + 1)" "length (sq_entries q) = 2 ^ (k + 1)"
    "sq_head q = word_of_int h" "sq_tail q = word_of_int (h + int (length xs))"
    "\<And>i. i < 2 ^ (k + 1) \<Longrightarrow> sq_entries q ! slot_of k (h + int i) = expected_entry k h xs i"
    "length xs \<le> 2 ^ k" "\<And>x. x \<in> set xs \<Longrightarrow> unat x < 2 ^ k"
    "- 1 \<le> sint (sq_threshold q)" "sint (sq_threshold q) \<le> 3 * 2 ^ k - 1"
    "xs \<noteq> [] \<Longrightarrow> 0 \<le> sint (sq_threshold q)"
  using assms unfolding scq_inv_def by blast+

lemma cycle_mask_eq: "scq_inv k h xs q \<Longrightarrow> cycle_mask q = mask (k + 2)"
  using scq_inv_D(4) [of k h xs q] by (simp add: cycle_mask_def mask_eq_exp_minus_1)

lemma scq_map_eq: "scq_inv k h xs q \<Longrightarrow> unat (scq_map q (word_of_int \<tau>)) = slot_of k \<tau>"
  using scq_inv_D(2,5) [of k h xs q] unat_ticket_slot [of k \<tau>] by (simp add: scq_map_def slot_of_def)

lemma head_ticket:
  assumes "scq_inv k h xs q"
  shows "sq_head q * 2 OR cycle_mask q = cyc k h" "unat (scq_map q (sq_head q)) = slot_of k h"
  using scq_inv_D(7) [OF assms] scq_map_eq [OF assms, of h]
  by (simp_all add: cycle_mask_eq [OF assms] cyc_def mult.commute)

lemma tail_ticket:
  assumes "scq_inv k h xs q"
  shows "sq_tail q * 2 OR cycle_mask q = cyc k (h + int (length xs))"
    "unat (scq_map q (sq_tail q)) = slot_of k (h + int (length xs))"
  using scq_inv_D(8) [OF assms] scq_map_eq [OF assms, of "h + int (length xs)"]
  by (simp_all add: cycle_mask_eq [OF assms] cyc_def algebra_simps)

lemma cyc_masks:
  assumes "scq_inv k h xs q"
  shows "cyc k \<tau> OR cycle_mask q = cyc k \<tau>" "cyc k \<tau> OR sq_ring_size q = cyc k \<tau>"
    "NOT (cyc k \<tau>) AND sq_ring_size q = 0"
    "unat x < 2 ^ k \<Longrightarrow> occupied k \<tau> x OR cycle_mask q = cyc k \<tau>"
    "unat x < 2 ^ k \<Longrightarrow> occupied k \<tau> x OR sq_ring_mask q = cyc k \<tau>"
    "unat x < 2 ^ k \<Longrightarrow> occupied k \<tau> x AND sq_ring_mask q = x"
  using cyc_bits [OF scq_inv_D(2) [OF assms], of \<tau>] occupied_bits [OF _ scq_inv_D(2) [OF assms], of x \<tau>]
  by (simp_all add: cycle_mask_eq [OF assms] scq_inv_D(4,5) [OF assms])

lemma prev_cyc_masks:
  assumes "scq_inv k h xs q"
  shows "prev_cyc k \<tau> OR cycle_mask q = prev_cyc k \<tau>" "prev_cyc k \<tau> OR sq_ring_size q = prev_cyc k \<tau>"
    "NOT (prev_cyc k \<tau>) AND sq_ring_size q = 0"
  using cyc_masks(1-3) [OF assms] by (simp_all only: prev_cyc_def)

lemma cycle_mask_update [simp]:
  "cycle_mask (q\<lparr>sq_head := x\<rparr>) = cycle_mask q" "cycle_mask (q\<lparr>sq_tail := x\<rparr>) = cycle_mask q"
  "cycle_mask (q\<lparr>sq_entries := es\<rparr>) = cycle_mask q"
  "initial_threshold (q\<lparr>sq_tail := x\<rparr>) = initial_threshold q"
  "initial_threshold (q\<lparr>sq_entries := es\<rparr>) = initial_threshold q"
  by (simp_all add: cycle_mask_def initial_threshold_def)

text \<open>The threshold \<open>3 * capacity - 1\<close> fits the signed type for every admissible capacity.\<close>

lemma sint_threshold_value:
  assumes "k \<le> 61" "sq_capacity q = 2 ^ k" "sq_ring_size q = 2 ^ (k + 1)"
  shows "sint (initial_threshold q) = 3 * 2 ^ k - 1"
proof -
  have le: "(2::int) ^ k \<le> 2 ^ 61"
    using assms(1) by (intro power_increasing) simp_all
  have "initial_threshold q = word_of_int (3 * 2 ^ k - 1)"
    using assms(2,3) by (simp add: initial_threshold_def)
  then have "sint (initial_threshold q) = signed_take_bit 63 (3 * 2 ^ k - 1)"
    by (simp only: signed_of_int) simp
  also have "\<dots> = 3 * 2 ^ k - 1"
  proof (rule signed_take_bit_int_eq_self)
    have "0 \<le> 3 * (2::int) ^ k - 1" by (simp add: order_trans [OF _ mult_left_mono])
    then show "- (2 ^ 63) \<le> 3 * (2::int) ^ k - 1" by (rule order_trans [rotated]) simp
    show "3 * (2::int) ^ k - 1 < 2 ^ 63" using le by simp
  qed
  finally show ?thesis .
qed

lemmas sint_initial_threshold = sint_threshold_value [OF scq_inv_D(2-4)]

lemma sint_minus_one:
  assumes "0 \<le> sint (w :: intptr_t)"
  shows "sint (w - 1) = sint w - 1"
proof -
  have "sint (w - 1) = signed_take_bit 63 (sint w - sint (1 :: intptr_t))"
    by (simp only: sint_word_ariths) simp
  also have "\<dots> = sint w - 1"
    using assms sint_lt [of w] by (simp add: signed_take_bit_int_eq_self)
  finally show ?thesis .
qed

section \<open>Enqueue\<close>

lemma scq_enqueue_ok:
  assumes inv: "scq_inv k h xs q" and room: "length xs < 2 ^ k" and x: "unat x < 2 ^ k"
  shows "\<exists>q'. scq_enqueue q x False = Some q' \<and> scq_inv k h (xs @ [x]) q'"
proof -
  note D = scq_inv_D [OF inv]
  let ?t = "h + int (length xs)"
  let ?R = "2 ^ (k + 1) :: nat"
  have len: "length xs < ?R" using room by simp
  have entry: "sq_entries q ! slot_of k ?t = prev_cyc k ?t"
    using D(9) [OF len] by (simp add: expected_entry_def)
  define q' where "q' = (let q2 = q\<lparr>sq_tail := sq_tail q + 1,
      sq_entries := (sq_entries q)[slot_of k ?t := occupied k ?t x]\<rparr>
    in if sq_threshold q2 \<noteq> initial_threshold q2 then q2\<lparr>sq_threshold := initial_threshold q2\<rparr> else q2)"
  have "scq_enqueue q x False = Some q'"
    using before_prev_cyc [OF D(2), of ?t]
    by (subst scq_enqueue.simps)
      (simp add: Let_def q'_def tail_ticket [OF inv] entry prev_cyc_masks [OF inv] D(5) occupied_def)
  moreover have "scq_inv k h (xs @ [x]) q'"
  proof -
    have thr: "sq_threshold q' = initial_threshold q"
      by (simp add: q'_def Let_def initial_threshold_def)
    have fields: "sq_capacity q' = sq_capacity q" "sq_ring_size q' = sq_ring_size q"
      "sq_ring_mask q' = sq_ring_mask q" "sq_head q' = sq_head q" "sq_tail q' = sq_tail q + 1"
      "sq_entries q' = (sq_entries q)[slot_of k ?t := occupied k ?t x]"
      by (simp_all add: q'_def Let_def)
    have "sq_entries q' ! slot_of k (h + int i) = expected_entry k h (xs @ [x]) i" if "i < ?R" for i
      using D(9) [OF that] slot_of_inject [OF that len, of h] slot_of_less [of k ?t] D(6)
      by (auto simp: fields nth_list_update expected_entry_def nth_append)
    moreover have "(1::int) \<le> 2 ^ k" by simp
    then have "0 \<le> sint (initial_threshold q)" unfolding sint_initial_threshold [OF inv inv inv] by linarith
    ultimately show ?thesis
      using D(1-8,10,11) room x sint_initial_threshold [OF inv inv inv]
      by (auto simp: scq_inv_def fields thr algebra_simps)
  qed
  ultimately show ?thesis by blast
qed

section \<open>Dequeue\<close>

text \<open>Moving the head over one slot whose entry becomes the empty entry of this cycle.\<close>

lemma scq_advance_head:
  assumes inv: "scq_inv k h xs q"
    and q': "q' = q\<lparr>sq_head := word_of_int (h + 1), sq_tail := word_of_int (h + 1 + int (length ys)),
      sq_threshold := thr, sq_entries := (sq_entries q)[slot_of k h := cyc k h]\<rparr>"
    and ys: "ys = drop 1 xs"
    and thr: "- 1 \<le> sint thr" "sint thr \<le> 3 * 2 ^ k - 1" "ys \<noteq> [] \<Longrightarrow> 0 \<le> sint thr"
  shows "scq_inv k (h + 1) ys q'"
proof -
  note D = scq_inv_D [OF inv]
  let ?R = "2 ^ (k + 1) :: nat"
  have "sq_entries q' ! slot_of k (h + 1 + int i) = expected_entry k (h + 1) ys i" if i: "i < ?R" for i
  proof (cases "Suc i < ?R")
    case True
    have "slot_of k (h + int (Suc i)) \<noteq> slot_of k h"
      using slot_of_inject [OF True, of 0 h] by simp
    then have "sq_entries q' ! slot_of k (h + int (Suc i)) = expected_entry k h xs (Suc i)"
      using D(9) [OF True] by (simp add: q')
    then show ?thesis by (simp add: expected_entry_def ys add_ac less_diff_conv)
  next
    case False
    with i have R: "int i + 1 = 2 ^ (k + 1)"
      by (metis Suc_lessI add.commute of_nat_Suc of_nat_numeral of_nat_power)
    have "length ys \<le> i" using D(10) False i by (simp add: ys)
    then have "expected_entry k (h + 1) ys i = prev_cyc k (h + 1 + int i)"
      by (simp add: expected_entry_def)
    moreover have "h + 1 + int i = h + 2 ^ (k + 1)" using R by simp
    ultimately show ?thesis
      using slot_of_round [of k h] slot_of_less [of k h] D(6) prev_cyc_round [of "h + 1 + int i" h k]
      by (simp only: q') simp
  qed
  moreover have "set ys \<subseteq> set xs" by (simp add: ys set_drop_subset)
  ultimately show ?thesis
    using D(1-6,10,11) thr by (auto simp: scq_inv_def q' ys algebra_simps)
qed

lemma scq_dequeue_hit:
  assumes inv: "scq_inv k h (x # xs) q"
  shows "\<exists>q'. scq_try_dequeue q False = Some (Some x, q') \<and> scq_inv k (h + 1) xs q'"
proof -
  note D = scq_inv_D [OF inv]
  have x: "unat x < 2 ^ k" using D(11) [of x] by simp
  have entry: "sq_entries q ! slot_of k h = occupied k h x"
    using D(9) [of 0] by (simp add: expected_entry_def)
  define q' where "q' = q\<lparr>sq_head := sq_head q + 1,
    sq_entries := (sq_entries q)[slot_of k h := cyc k h]\<rparr>"
  have "scq_dequeue_entry (q\<lparr>sq_head := sq_head q + 1\<rparr>) (slot_of k h) (cyc k h) 0 = (Some x, q')"
    by (subst scq_dequeue_entry.simps) (simp add: Let_def entry q'_def cyc_masks [OF inv] x)
  then have "scq_try_dequeue q False = Some (Some x, q')"
    using D(14) by (simp add: scq_try_dequeue_def scq_dequeue_loop.simps [of q] Let_def head_ticket [OF inv])
  moreover have "q' = q\<lparr>sq_head := word_of_int (h + 1), sq_tail := word_of_int (h + 1 + int (length xs)),
      sq_threshold := sq_threshold q, sq_entries := (sq_entries q)[slot_of k h := cyc k h]\<rparr>"
    using D(7,8) by (simp add: q'_def algebra_simps)
  then have "scq_inv k (h + 1) xs q'"
    by (rule scq_advance_head [OF inv]) (use D(12-14) in simp_all)
  ultimately show ?thesis by blast
qed

text \<open>On an empty ring the inner loop spins \<open>catchup_attempts\<close> times and then advances the entry.\<close>

lemma scq_dequeue_entry_empty:
  assumes inv: "scq_inv k h [] q"
  shows "scq_dequeue_entry (q\<lparr>sq_head := n\<rparr>) (slot_of k h) (cyc k h) attempts =
    (None, q\<lparr>sq_head := n, sq_entries := (sq_entries q)[slot_of k h := cyc k h]\<rparr>)"
proof (induction "catchup_attempts + 1 - attempts" arbitrary: attempts rule: less_induct)
  case less
  have entry: "sq_entries q ! slot_of k h = prev_cyc k h"
    using scq_inv_D(9) [OF inv, of 0] by (simp add: expected_entry_def)
  note facts = entry prev_cyc_masks [OF inv] prev_cyc_neq [OF scq_inv_D(2) [OF inv]]
    before_prev_cyc [OF scq_inv_D(2) [OF inv]]
  show ?case
  proof (cases "attempts + 1 \<le> catchup_attempts")
    case True
    then show ?thesis
      using less.hyps [of "attempts + 1"]
      by (subst scq_dequeue_entry.simps) (simp add: Let_def facts)
  next
    case False
    then show ?thesis by (subst scq_dequeue_entry.simps) (simp add: Let_def facts)
  qed
qed

lemma scq_dequeue_miss:
  assumes inv: "scq_inv k h [] q"
  shows "\<exists>q' h'. scq_try_dequeue q False = Some (None, q') \<and> scq_inv k h' [] q'"
proof (cases "sint (sq_threshold q) < 0")
  case True
  then have "scq_try_dequeue q False = Some (None, q)" by (simp add: scq_try_dequeue_def)
  with inv show ?thesis by blast
next
  case False
  note D = scq_inv_D [OF inv]
  define q' where "q' = q\<lparr>sq_head := sq_head q + 1, sq_tail := sq_head q + 1,
    sq_threshold := sq_threshold q - 1, sq_entries := (sq_entries q)[slot_of k h := cyc k h]\<rparr>"
  have "sq_tail q = sq_head q" using D(7,8) by simp
  then have "scq_try_dequeue q False = Some (None, q')"
    using False
    by (simp add: scq_try_dequeue_def scq_dequeue_loop.simps [of q] Let_def head_ticket [OF inv]
        scq_dequeue_entry_empty [OF inv] before_or_equal_def catch_up_def q'_def)
  moreover have "q' = q\<lparr>sq_head := word_of_int (h + 1), sq_tail := word_of_int (h + 1 + int (length [])),
      sq_threshold := sq_threshold q - 1, sq_entries := (sq_entries q)[slot_of k h := cyc k h]\<rparr>"
    using D(7) by (simp add: q'_def)
  then have "scq_inv k (h + 1) [] q'"
    by (rule scq_advance_head [OF inv])
      (use D(12,13) False sint_minus_one [of "sq_threshold q"] in simp_all)
  ultimately show ?thesis by blast
qed

section \<open>Initial rings\<close>

lemma length_foldl_update: "length (foldl (\<lambda>es j. es[f j := g j]) es ks) = length es"
  by (induction ks arbitrary: es) simp_all

lemma foldl_update_nth:
  assumes "distinct ks" "\<And>j. j \<in> set ks \<Longrightarrow> f j = j" "i < length es"
  shows "foldl (\<lambda>es j. es[f j := g j]) es ks ! i = (if i \<in> set ks then g i else es ! i)"
  using assms by (induction ks arbitrary: es) (auto simp: nth_list_update)

lemma cyc_first_rounds:
  assumes "0 \<le> \<tau>" "\<tau> < 2 ^ (k + 1)"
  shows "prev_cyc k \<tau> = - 1" "cyc k \<tau> = mask (k + 2)"
proof -
  have lo: "take_bit (k + 2) (2 * \<tau>) = 2 * \<tau>"
    using assms by (simp add: take_bit_int_eq_self)
  have eq: "2 * (\<tau> - 2 ^ (k + 1)) = 2 * \<tau> - 2 ^ (k + 2)" by simp
  have "take_bit (k + 2) (2 * \<tau> - 2 ^ (k + 2)) = 2 * \<tau>"
    using lo by (simp only: take_bit_eq_mod minus_mod_self2)
  then have "take_bit (k + 2) (word_of_int (2 * \<tau> - 2 ^ (k + 2)) :: size_t) = word_of_int (2 * \<tau>)"
    "take_bit (k + 2) (word_of_int (2 * \<tau>) :: size_t) = word_of_int (2 * \<tau>)"
    using lo by (simp_all only: take_bit_of_int)
  then show "prev_cyc k \<tau> = - 1" "cyc k \<tau> = mask (k + 2)"
    unfolding prev_cyc_def cyc_def or_mask_arith eq by (simp_all add: mask_eq_exp_minus_1)
qed

lemma occupied_first_round:
  assumes "0 \<le> \<tau>" "\<tau> < 2 ^ (k + 1)" "unat x < 2 ^ (k + 1)" "k \<le> 61"
  shows "occupied k \<tau> x = 2 ^ (k + 1) + x"
proof -
  have "2 ^ (k + 1) + x = 2 ^ (k + 1) OR x"
    using bit_small [OF assms(3), of "k + 1"] by (intro disjunctive_add) (auto simp: bit_simps)
  also have "\<dots> = mask (k + 2) XOR (x XOR mask (k + 1))"
    using bit_small [OF assms(3)] assms(4)
    by (intro bit_word_eqI) (fastforce simp: bit_simps intro: less_SucI)
  finally show ?thesis using cyc_first_rounds(2) [OF assms(1,2)] by (simp only: occupied_def)
qed

text \<open>The capacities of the owning queue: powers of two from 2 to \<open>2 ^ 61\<close>.\<close>

lemma capacity_words:
  assumes "k \<le> 61"
  shows "unat (2 ^ k :: size_t) = 2 ^ k" "unat (2 ^ (k + 1) :: size_t) = 2 ^ (k + 1)"
    "(2 ^ (k + 1) - 1 :: size_t) = mask (k + 1)" "(2 ^ k * 2 :: size_t) = 2 ^ (k + 1)"
proof -
  have p: "unat (2 ^ m :: size_t) = 2 ^ m" if "m < 64" for m
    using unat_of_nat_small [of "2 ^ m"] power_strict_increasing [OF that, of "2::nat"] by simp
  show "unat (2 ^ k :: size_t) = 2 ^ k" using p assms by simp
  show "(2 ^ k * 2 :: size_t) = 2 ^ (k + 1)" by simp
  show "unat (2 ^ (k + 1) :: size_t) = 2 ^ (k + 1)" by (rule p) (use assms in simp)
  show "(2 ^ (k + 1) - 1 :: size_t) = mask (k + 1)" by (simp add: mask_eq_exp_minus_1)
qed

lemma of_nat_small_slot:
  assumes "i < 2 ^ (k + 1)" "k \<le> 61"
  shows "unat ((of_nat i :: size_t) AND mask (k + 1)) = i"
proof -
  have "int i < 2 ^ (k + 1)" using assms(1) by (metis of_nat_less_iff of_nat_numeral of_nat_power)
  then show ?thesis using unat_ticket_slot [OF assms(2), of "int i"] by simp
qed

lemma slot_of_small: "i < 2 ^ (k + 1) \<Longrightarrow> slot_of k (0 + int i) = i"
proof -
  assume "i < 2 ^ (k + 1)"
  then have "int i < 2 ^ (k + 1)" by (metis of_nat_less_iff of_nat_numeral of_nat_power)
  then show ?thesis by (simp add: slot_of_def)
qed

lemma threshold_room: "- 1 < 3 * (2::int) ^ k" "0 \<le> 3 * (2::int) ^ k - 1" "(1::int) \<le> 3 * 2 ^ k"
proof -
  have "(1::int) \<le> 2 ^ k" by simp
  then show "- 1 < 3 * (2::int) ^ k" "0 \<le> 3 * (2::int) ^ k - 1" "(1::int) \<le> 3 * 2 ^ k" by linarith+
qed

lemma scq_new_empty:
  assumes "1 \<le> k" "k \<le> 61"
  shows "scq_inv k 0 [] (scq_new (2 ^ k) False)"
proof -
  note cap = capacity_words [OF assms(2)]
  let ?q = "scq_new (2 ^ k) False"
  have es: "sq_entries ?q = foldl (\<lambda>es j. es[j := - 1]) (replicate (2 ^ (k + 1)) 0) [0..<2 ^ (k + 1)]"
    by (simp only: scq_new_def initialize_empty_def Let_def cap if_False simp_thms scq.simps)
  have "sq_entries ?q ! slot_of k (0 + int i) = expected_entry k 0 [] i" if i: "i < 2 ^ (k + 1)" for i
  proof -
    have "int i < 2 ^ (k + 1)" using i by (metis of_nat_less_iff of_nat_numeral of_nat_power)
    then have "expected_entry k 0 [] i = - 1"
      using cyc_first_rounds(1) [of "int i" k] by (simp add: expected_entry_def)
    moreover have "sq_entries ?q ! i = - 1"
      unfolding es using i by (subst foldl_update_nth [where f = "\<lambda>j. j"]) simp_all
    ultimately show ?thesis using slot_of_small [OF i] by simp
  qed
  moreover have "length (sq_entries ?q) = 2 ^ (k + 1)" unfolding es length_foldl_update by simp
  moreover have "sq_capacity ?q = 2 ^ k" "sq_ring_size ?q = 2 ^ (k + 1)" "sq_ring_mask ?q = mask (k + 1)"
    "sq_head ?q = 0" "sq_tail ?q = 0" "sq_threshold ?q = - 1"
    by (simp_all add: scq_new_def initialize_empty_def Let_def mask_eq_exp_minus_1)
  moreover note threshold_room [of k]
  ultimately show ?thesis using assms unfolding scq_inv_def by simp
qed

lemma scq_new_full_entries:
  assumes "1 \<le> k" "k \<le> 61" "i < 2 ^ (k + 1)"
  shows "sq_entries (scq_new (2 ^ k) True) ! i = (if i < 2 ^ k then 2 ^ (k + 1) + of_nat i else - 1)"
    "length (sq_entries (scq_new (2 ^ k) True)) = 2 ^ (k + 1)"
proof -
  note cap = capacity_words [OF assms(2)]
  let ?f = "\<lambda>j. unat ((of_nat j :: size_t) AND mask (k + 1))"
  let ?es = "foldl (\<lambda>es j. es[?f j := 2 ^ (k + 1) + of_nat j]) (replicate (2 ^ (k + 1)) (0 :: size_t)) [0..<2 ^ k]"
  have es: "sq_entries (scq_new (2 ^ k) True) =
      foldl (\<lambda>es j. es[?f j := - 1]) ?es [2 ^ k..<2 ^ (k + 1)]"
    by (simp only: scq_new_def initialize_full_def Let_def scq_map_def cap if_True simp_thms scq.simps)
  have f: "?f j = j" if "j \<in> set [0..<2 ^ k] \<or> j \<in> set [2 ^ k..<2 ^ (k + 1)]" for j
    using of_nat_small_slot [of j k] that assms(2) by auto
  have len: "length ?es = 2 ^ (k + 1)" unfolding length_foldl_update by simp
  show "length (sq_entries (scq_new (2 ^ k) True)) = 2 ^ (k + 1)"
    unfolding es length_foldl_update by simp
  have "sq_entries (scq_new (2 ^ k) True) ! i = (if i \<in> set [2 ^ k..<2 ^ (k + 1)] then - 1 else ?es ! i)"
    unfolding es by (rule foldl_update_nth) (use f len assms(3) in simp_all)
  also have "?es ! i = (if i \<in> set [0..<2 ^ k] then 2 ^ (k + 1) + of_nat i else replicate (2 ^ (k + 1)) 0 ! i)"
    by (rule foldl_update_nth) (use f assms(3) in simp_all)
  finally show "sq_entries (scq_new (2 ^ k) True) ! i = (if i < 2 ^ k then 2 ^ (k + 1) + of_nat i else - 1)"
    using assms(3) by simp
qed

lemma scq_new_full:
  assumes "1 \<le> k" "k \<le> 61"
  shows "scq_inv k 0 (map of_nat [0..<2 ^ k]) (scq_new (2 ^ k) True)"
proof -
  note cap = capacity_words [OF assms(2)]
  let ?q = "scq_new (2 ^ k) True" and ?xs = "map of_nat [0..<2 ^ k] :: size_t list"
  have small: "unat (of_nat i :: size_t) = i" if "i < 2 ^ k" for i
  proof -
    have "(2::nat) ^ k \<le> 2 ^ 61" using assms(2) by (intro power_increasing) simp_all
    then show ?thesis using that by (intro unat_of_nat_small) simp
  qed
  have "sq_entries ?q ! slot_of k (0 + int i) = expected_entry k 0 ?xs i" if i: "i < 2 ^ (k + 1)" for i
  proof -
    have lt: "int i < 2 ^ (k + 1)" using i by (metis of_nat_less_iff of_nat_numeral of_nat_power)
    have "expected_entry k 0 ?xs i = (if i < 2 ^ k then 2 ^ (k + 1) + of_nat i else - 1)"
      using cyc_first_rounds(1) [of "int i" k] lt small [of i]
        occupied_first_round [of "int i" k "of_nat i"] assms(2)
      by (simp add: expected_entry_def)
    then show ?thesis using slot_of_small [OF i] scq_new_full_entries(1) [OF assms i] by simp
  qed
  moreover have "length (sq_entries ?q) = 2 ^ (k + 1)"
    using scq_new_full_entries(2) [OF assms, of 0] by simp
  moreover have f: "sq_capacity ?q = 2 ^ k" "sq_ring_size ?q = 2 ^ (k + 1)"
    "sq_ring_mask ?q = mask (k + 1)" "sq_head ?q = 0" "sq_tail ?q = 2 ^ k"
    "sq_threshold ?q = initial_threshold ?q"
    by (simp_all add: scq_new_def initialize_full_def Let_def mask_eq_exp_minus_1 initial_threshold_def)
  moreover have "\<forall>x \<in> set ?xs. unat x < 2 ^ k" using small by auto
  moreover have "sint (sq_threshold ?q) = 3 * 2 ^ k - 1"
    using sint_threshold_value [OF assms(2) f(1,2)] f(6) by simp
  moreover note threshold_room [of k]
  ultimately show ?thesis using assms unfolding scq_inv_def by simp
qed

section \<open>The ring as a FIFO of indices\<close>

text \<open>
  What the owning queue relies on: a ring that holds the list \<open>xs\<close> of indices below the capacity
  takes one more at the end as long as fewer than capacity are in it, hands out the first one, and
  reports an empty ring; every call returns.
\<close>

locale index_ring =
  fixes new :: "size_t \<Rightarrow> bool \<Rightarrow> 'r"
    and enqueue :: "'r \<Rightarrow> size_t \<Rightarrow> bool \<Rightarrow> 'r option"
    and try_dequeue :: "'r \<Rightarrow> bool \<Rightarrow> (size_t option \<times> 'r) option"
    and holds :: "nat \<Rightarrow> size_t list \<Rightarrow> 'r \<Rightarrow> bool"
  assumes new_empty: "1 \<le> k \<Longrightarrow> k \<le> 61 \<Longrightarrow> holds k [] (new (2 ^ k) False)"
    and new_full: "1 \<le> k \<Longrightarrow> k \<le> 61 \<Longrightarrow> holds k (map of_nat [0..<2 ^ k]) (new (2 ^ k) True)"
    and enqueue_law: "holds k xs r \<Longrightarrow> length xs < 2 ^ k \<Longrightarrow> unat x < 2 ^ k \<Longrightarrow>
      \<exists>r'. enqueue r x False = Some r' \<and> holds k (xs @ [x]) r'"
    and dequeue_hit: "holds k (x # xs) r \<Longrightarrow> \<exists>r'. try_dequeue r False = Some (Some x, r') \<and> holds k xs r'"
    and dequeue_miss: "holds k [] r \<Longrightarrow> \<exists>r'. try_dequeue r False = Some (None, r') \<and> holds k [] r'"
    and holds_bounds: "holds k xs r \<Longrightarrow> length xs \<le> 2 ^ k \<and> (\<forall>x \<in> set xs. unat x < 2 ^ k)"
begin

lemma dequeue_law:
  assumes "holds k xs r"
  obtains r' where "try_dequeue r False = Some (case xs of [] \<Rightarrow> None | x # _ \<Rightarrow> Some x, r')"
    "holds k (tl xs) r'"
  using assms dequeue_hit [of k "hd xs" "tl xs" r] dequeue_miss [of k r] by (cases xs) auto

text \<open>Taking an index out and giving it back keeps the contents up to order.\<close>

lemma dequeue_enqueue_rotates:
  assumes "holds k (x # xs) r"
  shows "\<exists>r' r''. try_dequeue r False = Some (Some x, r') \<and> enqueue r' x False = Some r'' \<and>
    holds k (xs @ [x]) r''"
proof -
  obtain r' where r': "try_dequeue r False = Some (Some x, r')" "holds k xs r'"
    using dequeue_hit [OF assms] by blast
  moreover have "length xs < 2 ^ k" "unat x < 2 ^ k" using holds_bounds [OF assms] by auto
  ultimately show ?thesis using enqueue_law [OF r'(2)] by blast
qed

end

interpretation ring: index_ring scq_new scq_enqueue scq_try_dequeue scq_holds
proof unfold_locales
  fix k :: nat and xs :: "size_t list" and x :: size_t and r :: scq
  show "1 \<le> k \<Longrightarrow> k \<le> 61 \<Longrightarrow> scq_holds k [] (scq_new (2 ^ k) False)"
    "1 \<le> k \<Longrightarrow> k \<le> 61 \<Longrightarrow> scq_holds k (map of_nat [0..<2 ^ k]) (scq_new (2 ^ k) True)"
    unfolding scq_holds_def using scq_new_empty scq_new_full by blast+
  show "scq_holds k xs r \<Longrightarrow> length xs < 2 ^ k \<Longrightarrow> unat x < 2 ^ k \<Longrightarrow>
      \<exists>r'. scq_enqueue r x False = Some r' \<and> scq_holds k (xs @ [x]) r'"
    unfolding scq_holds_def using scq_enqueue_ok by blast
  show "scq_holds k (x # xs) r \<Longrightarrow>
      \<exists>r'. scq_try_dequeue r False = Some (Some x, r') \<and> scq_holds k xs r'"
    unfolding scq_holds_def using scq_dequeue_hit by blast
  show "scq_holds k [] r \<Longrightarrow> \<exists>r'. scq_try_dequeue r False = Some (None, r') \<and> scq_holds k [] r'"
    unfolding scq_holds_def using scq_dequeue_miss by blast
  show "scq_holds k xs r \<Longrightarrow> length xs \<le> 2 ^ k \<and> (\<forall>x \<in> set xs. unat x < 2 ^ k)"
    unfolding scq_holds_def using scq_inv_D(10,11) by blast
qed

section \<open>Runs of a ring\<close>

datatype ring_op = Ring_enqueue size_t | Ring_dequeue

fun scq_run :: "scq \<Rightarrow> ring_op list \<Rightarrow> (size_t option list \<times> scq) option" where
  "scq_run q [] = Some ([], q)"
| "scq_run q (Ring_enqueue x # ops) = (case scq_enqueue q x False of
     None \<Rightarrow> None | Some q' \<Rightarrow> scq_run q' ops)"
| "scq_run q (Ring_dequeue # ops) = (case scq_try_dequeue q False of
     None \<Rightarrow> None
   | Some (r, q') \<Rightarrow> map_option (\<lambda>(rs, q''). (r # rs, q'')) (scq_run q' ops))"

text \<open>The same operations on a list; \<open>None\<close> where the caller breaks its obligation, which is to
  enqueue only indices below the capacity and never more than capacity of them.\<close>

fun ring_spec :: "nat \<Rightarrow> size_t list \<Rightarrow> ring_op list \<Rightarrow> (size_t option list \<times> size_t list) option" where
  "ring_spec n xs [] = Some ([], xs)"
| "ring_spec n xs (Ring_enqueue x # ops) =
     (if length xs < n \<and> unat x < n then ring_spec n (xs @ [x]) ops else None)"
| "ring_spec n xs (Ring_dequeue # ops) =
     map_option (\<lambda>(rs, ys). ((case xs of [] \<Rightarrow> None | x # _ \<Rightarrow> Some x) # rs, ys))
       (ring_spec n (tl xs) ops)"

lemma scq_run_refines:
  assumes "scq_holds k xs q" "ring_spec (2 ^ k) xs ops = Some (rs, ys)"
  shows "\<exists>q'. scq_run q ops = Some (rs, q') \<and> scq_holds k ys q'"
  using assms
proof (induction ops arbitrary: xs q rs)
  case (Cons op ops)
  show ?case
  proof (cases op)
    case (Ring_enqueue x)
    with Cons.prems obtain q' where "scq_enqueue q x False = Some q'" "scq_holds k (xs @ [x]) q'"
      using ring.enqueue_law [of k xs q x] by (auto split: if_splits)
    with Ring_enqueue Cons.IH [of "xs @ [x]" q' rs] Cons.prems(2) show ?thesis
      by (auto split: if_splits)
  next
    case Ring_dequeue
    obtain q' where q': "scq_try_dequeue q False = Some (case xs of [] \<Rightarrow> None | x # _ \<Rightarrow> Some x, q')"
      "scq_holds k (tl xs) q'"
      using ring.dequeue_law [OF Cons.prems(1)] .
    from Ring_dequeue Cons.prems(2) obtain rs' where "ring_spec (2 ^ k) (tl xs) ops = Some (rs', ys)"
      "rs = (case xs of [] \<Rightarrow> None | x # _ \<Rightarrow> Some x) # rs'"
      by auto
    with Ring_dequeue Cons.IH [OF q'(2)] q'(1) show ?thesis by fastforce
  qed
qed simp

lemma scq_inv_distance:
  assumes "scq_inv k h xs q"
  shows "unat (sq_tail q - sq_head q) = length xs"
proof -
  note D = scq_inv_D [OF assms]
  have "sq_tail q - sq_head q = of_nat (length xs)" using D(7,8) by simp
  moreover have "(2::nat) ^ k \<le> 2 ^ 61" using D(2) by (intro power_increasing) simp_all
  then have "length xs < 18446744073709551616" using D(10) by simp
  ultimately show ?thesis by (simp add: unat_of_nat_small)
qed

text \<open>
  Property C6. For every capacity \<open>2 ^ k\<close> the owning queue accepts, a fresh ring (empty or full)
  behaves like a FIFO list of indices under any sequence of enqueue and dequeue operations that
  never puts more than capacity indices in: every operation returns, the dequeues give the
  indices in order and report an empty ring exactly when the list is empty, the distance of the
  two 64-bit tickets is the number of indices held, and the threshold stays between -1 and
  \<open>3 * capacity - 1\<close> and is not negative while an index is held.
\<close>

theorem scq_refines_fifo:
  assumes "1 \<le> k" "k \<le> 61"
    and "ring_spec (2 ^ k) (if initially_full then map of_nat [0..<2 ^ k] else []) ops = Some (rs, ys)"
  shows "\<exists>q. scq_run (scq_new (2 ^ k) initially_full) ops = Some (rs, q) \<and>
    unat (sq_tail q - sq_head q) = length ys \<and>
    - 1 \<le> sint (sq_threshold q) \<and> sint (sq_threshold q) \<le> 3 * 2 ^ k - 1 \<and>
    (ys \<noteq> [] \<longrightarrow> 0 \<le> sint (sq_threshold q))"
proof -
  have "scq_holds k (if initially_full then map of_nat [0..<2 ^ k] else [])
      (scq_new (2 ^ k) initially_full)"
    using ring.new_empty ring.new_full assms(1,2) by simp
  from scq_run_refines [OF this assms(3)] obtain q h where
    "scq_run (scq_new (2 ^ k) initially_full) ops = Some (rs, q)" "scq_inv k h ys q"
    by (auto simp: scq_holds_def)
  with scq_inv_D(12-14) [of k h ys q] scq_inv_distance [of k h ys q] show ?thesis by blast
qed

theorem scq_refines_fifo_witness:
  "\<exists>q. scq_run (scq_new (2 ^ 1) True) [Ring_dequeue, Ring_dequeue, Ring_dequeue, Ring_enqueue 1, Ring_dequeue] =
      Some ([Some 0, Some 1, None, Some 1], q)"
  using scq_refines_fifo [of 1 True
      "[Ring_dequeue, Ring_dequeue, Ring_dequeue, Ring_enqueue 1, Ring_dequeue]"
      "[Some 0, Some 1, None, Some 1]" "[]"]
  by (auto simp: upt_rec numeral_2_eq_2)

end
