(* ===== verification/Lock_Free_Queue.thy ===== *)
theory Lock_Free_Queue
  imports Queue_Contract Circular_Index_Queue "HOL-Library.Monad_Syntax"
begin

text \<open>
  \<open>bounded_lock_free_queue\<close> (\<open>queue/bounded_lock_free_queue.hpp\<close>): raw event slots, one SCQ ring of
  free slot indices, one SCQ ring of published slot indices, and the two gate words that count the
  operations in flight below a closed bit.

  The definitions run one call at a time over the word-level rings of \<open>Circular_Index_Queue\<close>. A
  slot is \<open>None\<close> while its storage holds no object; reading or destroying such a slot, which would
  be undefined behaviour, gives the result \<open>None\<close>, as do \<open>std::terminate\<close> and parking. That the
  calls return is therefore also the statement that none of these happens.

  The last section interprets the queue contract: every operation is the corresponding operation
  of the abstract bounded queue.
\<close>

section \<open>State and operations\<close>

definition closed_bit :: size_t where
  "closed_bit = push_bit (64 - 1) 1"

definition active_mask :: size_t where
  "active_mask = closed_bit - 1"

record 'e bounded_lock_free_queue =
  lf_capacity :: size_t
  lf_slots :: "'e option list"
  lf_available_indices :: scq
  lf_published_indices :: scq
  lf_occupied_count :: size_t
  lf_producer_gate :: size_t
  lf_consumer_gate :: size_t
  lf_producer_quiesced :: bool
  lf_data_epoch :: size_t
  lf_capacity_epoch :: size_t

definition has_single_bit :: "size_t \<Rightarrow> bool" where
  "has_single_bit n = (length (filter (bit n) [0..<64]) = 1)"

definition largest_capacity :: size_t where
  "largest_capacity = (2 ^ 63 - 1) div 3"

definition validate_capacity :: "size_t \<Rightarrow> exn + size_t" where
  "validate_capacity capacity =
     (if capacity < 2 \<or> \<not> has_single_bit capacity
      then Inl (Invalid_argument ''bounded_lock_free_queue capacity must be a power of two and at least two'')
      else if capacity > largest_capacity
      then Inl (Invalid_argument ''bounded_lock_free_queue capacity is too large'')
      else Inr capacity)"

definition lf_new :: "size_t \<Rightarrow> exn + 'e bounded_lock_free_queue" where
  "lf_new capacity = (case validate_capacity capacity of
       Inl x \<Rightarrow> Inl x
     | Inr n \<Rightarrow> Inr \<lparr>lf_capacity = n, lf_slots = replicate (unat n) None,
         lf_available_indices = scq_new n True, lf_published_indices = scq_new n False,
         lf_occupied_count = 0, lf_producer_gate = 0, lf_consumer_gate = 0,
         lf_producer_quiesced = False, lf_data_epoch = 0, lf_capacity_epoch = 0\<rparr>)"

text \<open>\<open>operation_guard\<close>: the constructor enters the gate, is refused by the closed bit, or
  terminates when the count of active operations is exhausted; the destructor leaves.\<close>

datatype guard_outcome = Entered size_t | Refused | Terminated

definition guard_enter :: "size_t \<Rightarrow> guard_outcome" where
  "guard_enter state =
     (if state AND closed_bit \<noteq> 0 then Refused
      else if state AND active_mask = active_mask then Terminated
      else Entered (state + 1))"

definition guard_leave :: "size_t \<Rightarrow> size_t" where
  "guard_leave state = state - 1"

definition lf_signal_data :: "'e bounded_lock_free_queue \<Rightarrow> 'e bounded_lock_free_queue" where
  "lf_signal_data q = q\<lparr>lf_data_epoch := lf_data_epoch q + 1\<rparr>"

definition lf_signal_capacity :: "'e bounded_lock_free_queue \<Rightarrow> 'e bounded_lock_free_queue" where
  "lf_signal_capacity q = q\<lparr>lf_capacity_epoch := lf_capacity_epoch q + 1\<rparr>"

definition lf_leave_producer :: "'e bounded_lock_free_queue \<Rightarrow> 'e bounded_lock_free_queue" where
  "lf_leave_producer q = q\<lparr>lf_producer_gate := guard_leave (lf_producer_gate q)\<rparr>"

definition lf_leave_consumer :: "'e bounded_lock_free_queue \<Rightarrow> 'e bounded_lock_free_queue" where
  "lf_leave_consumer q = q\<lparr>lf_consumer_gate := guard_leave (lf_consumer_gate q)\<rparr>"

definition publish_constructed_index ::
  "'e bounded_lock_free_queue \<Rightarrow> size_t \<Rightarrow> 'e bounded_lock_free_queue option" where
  "publish_constructed_index q index = do {
     let q = q\<lparr>lf_occupied_count := lf_occupied_count q + 1\<rparr>;
     ring \<leftarrow> scq_enqueue (lf_published_indices q) index False;
     Some (lf_signal_data (q\<lparr>lf_published_indices := ring\<rparr>))
   }"

text \<open>\<open>std::construct_at\<close> in the slot: the exception path gives the index back.\<close>

definition lf_construct_and_publish ::
  "'e bounded_lock_free_queue \<Rightarrow> size_t \<Rightarrow> exn + 'e \<Rightarrow> (push_out \<times> 'e bounded_lock_free_queue) option" where
  "lf_construct_and_publish q index c = (case c of
       Inl x \<Rightarrow> do {
         ring \<leftarrow> scq_enqueue (lf_available_indices q) index False;
         Some ((Inl x, True), lf_leave_producer (lf_signal_capacity (q\<lparr>lf_available_indices := ring\<rparr>)))
       }
     | Inr e \<Rightarrow> do {
         q \<leftarrow> publish_constructed_index (q\<lparr>lf_slots := (lf_slots q)[unat index := Some e]\<rparr>) index;
         Some ((Inr success, True), lf_leave_producer q)
       })"

definition lf_try_push ::
  "'e bounded_lock_free_queue \<Rightarrow> exn + 'e \<Rightarrow> (push_out \<times> 'e bounded_lock_free_queue) option" where
  "lf_try_push q c = (case guard_enter (lf_producer_gate q) of
       Terminated \<Rightarrow> None
     | Refused \<Rightarrow> Some ((Inr closed, False), q)
     | Entered gate \<Rightarrow> do {
         (index, ring) \<leftarrow> scq_try_dequeue (lf_available_indices q) False;
         let q = q\<lparr>lf_producer_gate := gate, lf_available_indices := ring\<rparr>;
         case index of
           None \<Rightarrow> Some ((Inr full, False), lf_leave_producer q)
         | Some index \<Rightarrow> lf_construct_and_publish q index c
       })"

definition lf_try_emplace ::
  "'e bounded_lock_free_queue \<Rightarrow> exn + 'e \<Rightarrow> (push_out \<times> 'e bounded_lock_free_queue) option" where
  "lf_try_emplace q c = (case guard_enter (lf_producer_gate q) of
       Terminated \<Rightarrow> None
     | Refused \<Rightarrow> Some ((Inr closed, False), q)
     | Entered gate \<Rightarrow> do {
         (index, ring) \<leftarrow> scq_try_dequeue (lf_available_indices q) False;
         let q = q\<lparr>lf_producer_gate := gate, lf_available_indices := ring\<rparr>;
         case index of
           None \<Rightarrow> Some ((Inr full, False), lf_leave_producer q)
         | Some index \<Rightarrow> lf_construct_and_publish q index c
       })"

definition lf_try_pop ::
  "'e bounded_lock_free_queue \<Rightarrow> ('e pop_result \<times> 'e bounded_lock_free_queue) option" where
  "lf_try_pop q = (case guard_enter (lf_consumer_gate q) of
       Terminated \<Rightarrow> None
     | Refused \<Rightarrow> Some (pop_closed, q)
     | Entered gate \<Rightarrow> do {
         (index, ring) \<leftarrow> scq_try_dequeue (lf_published_indices q) False;
         let q = q\<lparr>lf_consumer_gate := gate, lf_published_indices := ring\<rparr>;
         case index of
           None \<Rightarrow> Some (if lf_producer_quiesced q then pop_closed else pop_empty, lf_leave_consumer q)
         | Some index \<Rightarrow> do {
             event \<leftarrow> lf_slots q ! unat index;
             let q = q\<lparr>lf_slots := (lf_slots q)[unat index := None],
                       lf_occupied_count := lf_occupied_count q - 1\<rparr>;
             ring \<leftarrow> scq_enqueue (lf_available_indices q) index False;
             Some (pop_success event,
               lf_leave_consumer (lf_signal_capacity (q\<lparr>lf_available_indices := ring\<rparr>)))
           }
       })"

text \<open>
  The waiting operations. Registering the stop callback on a token whose stop was already
  requested runs the callback, which advances the epoch. \<open>epoch.wait(old)\<close> returns at once when
  the epoch has moved and parks otherwise.
\<close>

partial_function (option) lf_wait_pop_loop ::
  "'e bounded_lock_free_queue \<Rightarrow> bool \<Rightarrow> ('e pop_result \<times> 'e bounded_lock_free_queue) option" where
  "lf_wait_pop_loop q stop = do {
     (result, q) \<leftarrow> lf_try_pop q;
     if pr_status result \<noteq> empty then Some (result, q)
     else if stop then Some (pop_stopped, q)
     else do {
       let epoch = lf_data_epoch q;
       (result, q) \<leftarrow> lf_try_pop q;
       if pr_status result \<noteq> empty then Some (result, q)
       else if stop then Some (pop_stopped, q)
       else if lf_data_epoch q \<noteq> epoch then lf_wait_pop_loop q stop else None
     }
   }"

definition lf_wait_pop ::
  "'e bounded_lock_free_queue \<Rightarrow> bool \<Rightarrow> ('e pop_result \<times> 'e bounded_lock_free_queue) option" where
  "lf_wait_pop q stop =
     lf_wait_pop_loop (if stop then q\<lparr>lf_data_epoch := lf_data_epoch q + 1\<rparr> else q) stop"

partial_function (option) lf_wait_push_loop ::
  "'e bounded_lock_free_queue \<Rightarrow> exn + 'e \<Rightarrow> bool \<Rightarrow> (push_out \<times> 'e bounded_lock_free_queue) option" where
  "lf_wait_push_loop q c stop = do {
     (result, q) \<leftarrow> lf_try_push q c;
     if fst result \<noteq> Inr full then Some (result, q)
     else if stop then Some ((Inr stopped, False), q)
     else do {
       let epoch = lf_capacity_epoch q;
       (result, q) \<leftarrow> lf_try_push q c;
       if fst result \<noteq> Inr full then Some (result, q)
       else if stop then Some ((Inr stopped, False), q)
       else if lf_capacity_epoch q \<noteq> epoch then lf_wait_push_loop q c stop else None
     }
   }"

definition lf_wait_push ::
  "'e bounded_lock_free_queue \<Rightarrow> exn + 'e \<Rightarrow> bool \<Rightarrow> (push_out \<times> 'e bounded_lock_free_queue) option" where
  "lf_wait_push q c stop =
     lf_wait_push_loop (if stop then q\<lparr>lf_capacity_epoch := lf_capacity_epoch q + 1\<rparr> else q) c stop"

text \<open>The timed form polls; \<open>expired\<close> says that the deadline has passed at the check. Before that
  the thread waits, at most one millisecond per round.\<close>

definition lf_wait_push_until ::
  "'e bounded_lock_free_queue \<Rightarrow> exn + 'e \<Rightarrow> bool \<Rightarrow> bool \<Rightarrow>
   (push_out \<times> 'e bounded_lock_free_queue) option" where
  "lf_wait_push_until q c stop expired = do {
     (result, q) \<leftarrow> lf_try_push q c;
     if fst result \<noteq> Inr full then Some (result, q)
     else if stop then Some ((Inr stopped, False), q)
     else if expired then do {
       (final_result, q) \<leftarrow> lf_try_push q c;
       Some (if fst final_result = Inr full then (Inr timeout, False) else final_result, q)
     }
     else None
   }"

text \<open>\<open>close_gate\<close> parks while operations are still inside the gate.\<close>

definition close_gate :: "size_t \<Rightarrow> size_t option" where
  "close_gate gate =
     (let state = gate OR closed_bit in if state AND active_mask \<noteq> 0 then None else Some state)"

definition close_producers :: "'e bounded_lock_free_queue \<Rightarrow> 'e bounded_lock_free_queue option" where
  "close_producers q = do {
     gate \<leftarrow> close_gate (lf_producer_gate q);
     Some (lf_signal_capacity (lf_signal_data
       (q\<lparr>lf_producer_gate := gate, lf_producer_quiesced := True\<rparr>)))
   }"

definition lf_close :: "'e bounded_lock_free_queue \<Rightarrow> 'e bounded_lock_free_queue option" where
  "lf_close q = close_producers q"

partial_function (option) lf_discard_loop ::
  "'e bounded_lock_free_queue \<Rightarrow> size_t \<Rightarrow> (size_t \<times> 'e bounded_lock_free_queue) option" where
  "lf_discard_loop q discarded = do {
     (index, ring) \<leftarrow> scq_try_dequeue (lf_published_indices q) False;
     let q = q\<lparr>lf_published_indices := ring\<rparr>;
     case index of
       None \<Rightarrow> Some (discarded, q)
     | Some index \<Rightarrow> do {
         _ \<leftarrow> lf_slots q ! unat index;
         let q = q\<lparr>lf_slots := (lf_slots q)[unat index := None],
                   lf_occupied_count := lf_occupied_count q - 1\<rparr>;
         ring \<leftarrow> scq_enqueue (lf_available_indices q) index False;
         lf_discard_loop (q\<lparr>lf_available_indices := ring\<rparr>) (discarded + 1)
       }
   }"

definition lf_close_and_discard ::
  "'e bounded_lock_free_queue \<Rightarrow> (size_t \<times> 'e bounded_lock_free_queue) option" where
  "lf_close_and_discard q = do {
     q \<leftarrow> close_producers q;
     gate \<leftarrow> close_gate (lf_consumer_gate q);
     (discarded, q) \<leftarrow> lf_discard_loop (q\<lparr>lf_consumer_gate := gate\<rparr>) 0;
     Some (discarded, lf_signal_capacity (lf_signal_data q))
   }"

definition lf_size :: "'e bounded_lock_free_queue \<Rightarrow> size_t" where
  "lf_size q = lf_occupied_count q"

definition lf_closed :: "'e bounded_lock_free_queue \<Rightarrow> bool" where
  "lf_closed q = (lf_producer_gate q AND closed_bit \<noteq> 0)"

text \<open>The destructor.\<close>

partial_function (option) lf_destroy ::
  "'e bounded_lock_free_queue \<Rightarrow> 'e bounded_lock_free_queue option" where
  "lf_destroy q = do {
     (index, ring) \<leftarrow> scq_try_dequeue (lf_published_indices q) False;
     let q = q\<lparr>lf_published_indices := ring\<rparr>;
     case index of
       None \<Rightarrow> Some q
     | Some index \<Rightarrow> do {
         _ \<leftarrow> lf_slots q ! unat index;
         lf_destroy (q\<lparr>lf_slots := (lf_slots q)[unat index := None]\<rparr>)
       }
   }"

lemma lf_try_emplace_eq: "lf_try_emplace = lf_try_push"
  by (simp add: fun_eq_iff lf_try_emplace_def lf_try_push_def)

section \<open>Gates\<close>

lemma gate_words:
  "guard_enter 0 = Entered 1" "guard_enter closed_bit = Refused" "guard_leave 1 = 0"
  "close_gate 0 = Some closed_bit" "close_gate closed_bit = Some closed_bit" "closed_bit \<noteq> 0"
  "(0 :: size_t) \<noteq> closed_bit" "closed_bit AND closed_bit = closed_bit"
  by (simp_all add: guard_enter_def guard_leave_def close_gate_def closed_bit_def active_mask_def Let_def)

section \<open>Admissible capacities\<close>

lemma has_single_bit_power:
  assumes "has_single_bit n"
  shows "\<exists>k. n = 2 ^ k \<and> k < 64"
proof -
  from assms obtain k where k: "filter (bit n) [0..<64] = [k]"
    by (auto simp: has_single_bit_def length_Suc_conv)
  then have "set (filter (bit n) [0..<64]) = {k}" by simp
  then have "bit n i = (i = k)" if "i < 64" for i using that by (auto simp: set_eq_iff)
  moreover have "k < 64"
  proof -
    have "k \<in> set (filter (bit n) [0..<64])" using k by simp
    then show ?thesis by simp
  qed
  ultimately have "n = 2 ^ k" by (intro bit_word_eqI) (auto simp: bit_simps)
  with \<open>k < 64\<close> show ?thesis by blast
qed

lemma validate_capacity_ok:
  assumes "validate_capacity n = Inr m"
  shows "m = n \<and> (\<exists>k. n = 2 ^ k \<and> 1 \<le> k \<and> k \<le> 61)"
proof -
  from assms have n: "m = n" "\<not> n < 2" "has_single_bit n" "n \<le> largest_capacity"
    by (auto simp: validate_capacity_def not_less split: if_splits)
  from has_single_bit_power [OF n(3)] obtain k where k: "n = 2 ^ k" "k < 64" by blast
  then have u: "unat n = 2 ^ k"
    using unat_of_nat_small [of "2 ^ k"] power_strict_increasing [of k 64 "2::nat"] by simp
  have "unat n \<le> 3074457345618258602" using n(4) by (simp add: largest_capacity_def word_le_nat_alt)
  then have "(2::nat) ^ k < 2 ^ 62" unfolding u by simp
  then have "k \<le> 61" using power_less_imp_less_exp [of "2::nat" k 62] by simp
  moreover have "k \<noteq> 0" using k(1) n(2) by (intro notI) simp
  ultimately show ?thesis using n(1) k by auto
qed

lemma validate_capacity_power:
  assumes "1 \<le> k" "k \<le> 61"
  shows "validate_capacity (2 ^ k) = Inr (2 ^ k)"
proof -
  let ?n = "2 ^ k :: size_t"
  have u: "unat ?n = 2 ^ k" using capacity_words(1) assms by simp
  have "(2::nat) ^ 1 \<le> 2 ^ k" "(2::nat) ^ k \<le> 2 ^ 61"
    using assms by (intro power_increasing; simp)+
  then have "\<not> ?n < 2" "\<not> largest_capacity < ?n"
    unfolding word_less_nat_alt u by (simp_all add: largest_capacity_def)
  moreover have "filter (bit ?n) [0..<64] = filter (\<lambda>i. i = k) [0..<64]"
    using assms by (intro filter_cong) (auto simp: bit_simps)
  moreover have "{x. x = k \<and> x < 64} = {k}" using assms by auto
  ultimately show ?thesis
    using distinct_length_filter [of "[0..<64]" "\<lambda>i. i = k"]
    by (simp add: validate_capacity_def has_single_bit_def Int_def)
qed

section \<open>The invariant\<close>

text \<open>
  Every slot index is in exactly one of the two rings, and a slot holds an object exactly when its
  index is published.
\<close>

definition slots_ok :: "nat \<Rightarrow> size_t list \<Rightarrow> size_t list \<Rightarrow> 'e option list \<Rightarrow> bool" where
  "slots_ok k av pub slots = (
     distinct (av @ pub) \<and> set (av @ pub) = {x. unat x < 2 ^ k} \<and> length slots = 2 ^ k \<and>
     (\<forall>x. unat x < 2 ^ k \<longrightarrow> (slots ! unat x \<noteq> None) = (x \<in> set pub)))"

definition lf_holds :: "nat \<Rightarrow> size_t list \<Rightarrow> size_t list \<Rightarrow> 'e bounded_lock_free_queue \<Rightarrow> bool" where
  "lf_holds k av pub q = (
     1 \<le> k \<and> k \<le> 61 \<and> lf_capacity q = 2 ^ k \<and>
     scq_holds k av (lf_available_indices q) \<and> scq_holds k pub (lf_published_indices q) \<and>
     slots_ok k av pub (lf_slots q) \<and> lf_occupied_count q = of_nat (length pub) \<and>
     lf_producer_gate q \<in> {0, closed_bit} \<and> lf_consumer_gate q \<in> {0, closed_bit} \<and>
     lf_producer_quiesced q = (lf_producer_gate q = closed_bit) \<and>
     (lf_consumer_gate q = closed_bit \<longrightarrow> lf_producer_gate q = closed_bit \<and> pub = []))"

definition lf_inv :: "'e bounded_lock_free_queue \<Rightarrow> bool" where
  "lf_inv q = (\<exists>k av pub. lf_holds k av pub q)"

text \<open>The contents of a ring, read off its entries between the tickets, and the abstract queue.\<close>

definition scq_items :: "scq \<Rightarrow> size_t list" where
  "scq_items q = map (\<lambda>i. (sq_entries q ! unat (scq_map q (sq_head q + of_nat i))) AND sq_ring_mask q)
     [0..<unat (sq_tail q - sq_head q)]"

definition lf_abs :: "'e bounded_lock_free_queue \<Rightarrow> 'e aqueue" where
  "lf_abs q = \<lparr>aq_cap = unat (lf_capacity q),
     aq_items = map (\<lambda>i. the (lf_slots q ! unat i)) (scq_items (lf_published_indices q)),
     aq_closed = lf_closed q\<rparr>"

lemma scq_items_eq:
  assumes "scq_holds k xs q"
  shows "scq_items q = xs"
proof -
  from assms obtain h where inv: "scq_inv k h xs q" by (auto simp: scq_holds_def)
  note D = scq_inv_D [OF inv]
  show ?thesis
  proof (rule nth_equalityI)
    show len: "length (scq_items q) = length xs" by (simp add: scq_items_def scq_inv_distance [OF inv])
    fix i assume "i < length (scq_items q)"
    then have i: "i < length xs" by (simp only: len)
    have "sq_head q + of_nat i = word_of_int (h + int i)" using D(7) by simp
    then have "unat (scq_map q (sq_head q + of_nat i)) = slot_of k (h + int i)"
      by (simp only: scq_map_eq [OF inv])
    moreover have "sq_entries q ! slot_of k (h + int i) = occupied k (h + int i) (xs ! i)"
      using D(9) [of i] D(10) i by (simp add: expected_entry_def)
    ultimately show "scq_items q ! i = xs ! i"
      using i D(11) [of "xs ! i"] cyc_masks(6) [OF inv, of "xs ! i" "h + int i"]
      by (simp add: scq_items_def scq_inv_distance [OF inv])
  qed
qed

lemma finite_indices: "card {x :: size_t. unat x < 2 ^ k} = 2 ^ k" if "k \<le> 61"
proof -
  have "(2::nat) ^ k \<le> 2 ^ 61" using that by (intro power_increasing) simp_all
  then have s: "n < 2 ^ k \<Longrightarrow> unat (of_nat n :: size_t) = n" for n by (intro unat_of_nat_small) simp
  have "bij_betw unat {x :: size_t. unat x < 2 ^ k} {..<2 ^ k}"
    by (rule bij_betw_byWitness [where f' = of_nat]) (use s in auto)
  then show ?thesis by (simp add: bij_betw_same_card)
qed

lemma slots_ok_length:
  assumes "slots_ok k av pub slots" "k \<le> 61"
  shows "length av + length pub = 2 ^ k"
  using assms finite_indices [OF assms(2)] distinct_card [of "av @ pub"] by (simp add: slots_ok_def)

lemma nth_update_word:
  "unat (i :: size_t) < length xs \<Longrightarrow> xs[unat i := v] ! unat j = (if j = i then v else xs ! unat j)"
  by (auto simp: nth_list_update word_unat_eq_iff)

lemma slots_ok_index: "slots_ok k av pub slots \<Longrightarrow> i \<in> set (av @ pub) \<Longrightarrow> unat i < length slots"
  by (auto simp: slots_ok_def)

lemma slots_ok_publish:
  assumes "slots_ok k (i # av) pub slots"
  shows "slots_ok k av (pub @ [i]) (slots[unat i := Some e])"
proof -
  have "slots[unat i := Some e] ! unat x = (if x = i then Some e else slots ! unat x)" for x
    using slots_ok_index [OF assms, of i] by (intro nth_update_word) simp
  with assms show ?thesis by (auto simp: slots_ok_def)
qed

lemma slots_ok_rotate: "slots_ok k (i # av) pub slots \<Longrightarrow> slots_ok k (av @ [i]) pub slots"
  by (auto simp: slots_ok_def)

lemma slots_ok_release:
  assumes "slots_ok k av (i # pub) slots"
  shows "slots_ok k (av @ [i]) pub (slots[unat i := None])"
proof -
  have "slots[unat i := None] ! unat x = (if x = i then None else slots ! unat x)" for x
    using slots_ok_index [OF assms, of i] by (intro nth_update_word) simp
  with assms show ?thesis by (auto simp: slots_ok_def)
qed

lemma slots_ok_engaged:
  assumes "slots_ok k av (i # pub) slots"
  obtains e where "slots ! unat i = Some e" "unat i < 2 ^ k"
proof -
  have "unat i < 2 ^ k" "slots ! unat i \<noteq> None" using assms by (auto simp: slots_ok_def)
  with that show thesis by blast
qed

lemma map_update_other:
  assumes "i \<notin> set xs"
  shows "map (\<lambda>j. the (slots[unat i := v] ! unat j)) xs = map (\<lambda>j. the (slots ! unat j)) (xs :: size_t list)"
  using assms by (intro map_cong refl) (metis nth_list_update_neq word_unat_eq_iff)

lemma lf_abs_eq:
  assumes "lf_holds k av pub q"
  shows "lf_abs q = \<lparr>aq_cap = 2 ^ k, aq_items = map (\<lambda>i. the (lf_slots q ! unat i)) pub,
    aq_closed = (lf_producer_gate q = closed_bit)\<rparr>"
  using assms scq_items_eq [of k pub "lf_published_indices q"] capacity_words(1) [of k] gate_words
  by (auto simp: lf_abs_def lf_holds_def lf_closed_def)

lemma lf_new_ok:
  assumes "lf_new n = Inr q"
  shows "lf_inv q \<and> lf_abs q = \<lparr>aq_cap = unat n, aq_items = [], aq_closed = False\<rparr>"
proof -
  from assms obtain m where m: "validate_capacity n = Inr m"
    by (auto simp: lf_new_def split: sum.splits)
  from validate_capacity_ok [OF m] obtain k where k: "m = n" "n = 2 ^ k" "1 \<le> k" "k \<le> 61" by blast
  have u: "unat n = 2 ^ k" using capacity_words(1) [OF k(4)] k(2) by simp
  have s: "j < 2 ^ k \<Longrightarrow> unat (of_nat j :: size_t) = j" for j
    using power_increasing [of k 61 "2::nat"] k(4) by (intro unat_of_nat_small) simp
  have "set (map of_nat [0..<2 ^ k]) = {x :: size_t. unat x < 2 ^ k}"
  proof (intro set_eqI iffI)
    fix x :: size_t assume "x \<in> {x. unat x < 2 ^ k}"
    then have "x = of_nat (unat x)" "unat x \<in> set [0..<2 ^ k]" by simp_all
    then show "x \<in> set (map of_nat [0..<2 ^ k])" by (metis image_eqI set_map)
  qed (use s in auto)
  moreover have "distinct (map of_nat [0..<2 ^ k] :: size_t list)"
    unfolding distinct_map by (auto intro!: inj_onI) (metis s)
  ultimately have "slots_ok k (map of_nat [0..<2 ^ k]) [] (lf_slots q)"
    using assms m k(1) u by (auto simp: slots_ok_def lf_new_def)
  then have h: "lf_holds k (map of_nat [0..<2 ^ k]) [] q"
    using assms m k ring.new_full [of k] ring.new_empty [of k] gate_words
    by (auto simp: lf_new_def lf_holds_def)
  then have "lf_abs q = \<lparr>aq_cap = unat n, aq_items = [], aq_closed = False\<rparr>"
    using lf_abs_eq [OF h] u assms m gate_words by (auto simp: lf_new_def)
  with h show ?thesis by (auto simp: lf_inv_def)
qed

section \<open>Operations\<close>

lemma lf_holds_D:
  assumes "lf_holds k av pub q"
  shows "1 \<le> k" "k \<le> 61" "lf_capacity q = 2 ^ k" "scq_holds k av (lf_available_indices q)"
    "scq_holds k pub (lf_published_indices q)" "slots_ok k av pub (lf_slots q)"
    "lf_occupied_count q = of_nat (length pub)"
    "lf_producer_gate q = 0 \<or> lf_producer_gate q = closed_bit"
    "lf_consumer_gate q = 0 \<or> lf_consumer_gate q = closed_bit"
    "lf_producer_quiesced q = (lf_producer_gate q = closed_bit)"
    "lf_consumer_gate q = closed_bit \<Longrightarrow> lf_producer_gate q = closed_bit \<and> pub = []"
    "length av + length pub = 2 ^ k"
  using assms slots_ok_length [of k av pub "lf_slots q"] unfolding lf_holds_def by auto

lemmas lf_update_defs = lf_leave_producer_def lf_leave_consumer_def lf_signal_data_def
  lf_signal_capacity_def

text \<open>Publishing the free index at the head of the available ring.\<close>

lemma lf_publish_ok:
  assumes h: "lf_holds k (i # av) pub q" and r: "scq_holds k av r" and gate: "lf_producer_gate q = 0"
  shows "\<exists>q'. lf_construct_and_publish (q\<lparr>lf_producer_gate := 1, lf_available_indices := r\<rparr>) i (Inr e) =
      Some ((Inr success, True), q') \<and> lf_holds k av (pub @ [i]) q' \<and>
      lf_abs q' = (lf_abs q)\<lparr>aq_items := aq_items (lf_abs q) @ [e]\<rparr>"
proof -
  note D = lf_holds_D [OF h]
  have i: "unat i < 2 ^ k" "i \<notin> set pub" "length (lf_slots q) = 2 ^ k"
    using D(6) by (auto simp: slots_ok_def)
  have "length pub < 2 ^ k" using D(12) by simp
  then obtain r' where r': "scq_enqueue (lf_published_indices q) i False = Some r'"
    "scq_holds k (pub @ [i]) r'"
    using ring.enqueue_law [OF D(5) _ i(1)] by blast
  define q' where "q' = q\<lparr>lf_available_indices := r, lf_slots := (lf_slots q)[unat i := Some e],
    lf_occupied_count := lf_occupied_count q + 1, lf_published_indices := r',
    lf_data_epoch := lf_data_epoch q + 1\<rparr>"
  have "lf_construct_and_publish (q\<lparr>lf_producer_gate := 1, lf_available_indices := r\<rparr>) i (Inr e) =
      Some ((Inr success, True), q')"
    using r'(1) gate
    by (simp add: lf_construct_and_publish_def publish_constructed_index_def lf_update_defs q'_def
        gate_words Let_def)
  moreover have h': "lf_holds k av (pub @ [i]) q'"
    using D(1-3,7-11) r r'(2) slots_ok_publish [OF D(6)] gate gate_words
    by (auto simp: lf_holds_def q'_def)
  moreover have "lf_abs q' = (lf_abs q)\<lparr>aq_items := aq_items (lf_abs q) @ [e]\<rparr>"
    using i map_update_other [OF i(2), of "lf_slots q" "Some e"]
    by (simp add: lf_abs_eq [OF h] lf_abs_eq [OF h']) (simp add: q'_def)
  ultimately show ?thesis by blast
qed

lemma lf_construct_throws_ok:
  assumes h: "lf_holds k (i # av) pub q" and r: "scq_holds k av r" and gate: "lf_producer_gate q = 0"
  shows "\<exists>q'. lf_construct_and_publish (q\<lparr>lf_producer_gate := 1, lf_available_indices := r\<rparr>) i (Inl x) =
      Some ((Inl x, True), q') \<and> lf_holds k (av @ [i]) pub q' \<and> lf_abs q' = lf_abs q"
proof -
  note D = lf_holds_D [OF h]
  have "unat i < 2 ^ k" using D(6) by (auto simp: slots_ok_def)
  moreover have "length av < 2 ^ k" using D(12) by simp
  ultimately obtain r' where r': "scq_enqueue r i False = Some r'" "scq_holds k (av @ [i]) r'"
    using ring.enqueue_law [OF r] by blast
  define q' where "q' = q\<lparr>lf_available_indices := r', lf_capacity_epoch := lf_capacity_epoch q + 1\<rparr>"
  have "lf_construct_and_publish (q\<lparr>lf_producer_gate := 1, lf_available_indices := r\<rparr>) i (Inl x) =
      Some ((Inl x, True), q')"
    using r'(1) gate by (simp add: lf_construct_and_publish_def lf_update_defs q'_def gate_words)
  moreover have h': "lf_holds k (av @ [i]) pub q'"
    using D(1-3,5,7-11) r'(2) slots_ok_rotate [OF D(6)] gate gate_words
    by (auto simp: lf_holds_def q'_def)
  moreover have "lf_abs q' = lf_abs q"
    by (simp add: lf_abs_eq [OF h] lf_abs_eq [OF h']) (simp add: q'_def)
  ultimately show ?thesis by blast
qed

text \<open>A push on any branch. Only a full queue leaves the capacity epoch as it was, which is what
  makes the waiting loop park.\<close>

lemma lf_try_push_ok:
  assumes h: "lf_holds k av pub q"
  shows "\<exists>r q' av' pub'. lf_try_push q c = Some (r, q') \<and> lf_holds k av' pub' q' \<and>
    (r, lf_abs q') = spec_try_push (lf_abs q) c \<and>
    (fst r = Inr full \<longrightarrow> lf_capacity_epoch q' = lf_capacity_epoch q)"
proof (cases "lf_producer_gate q = closed_bit")
  case True
  with h show ?thesis
    by (auto simp: lf_try_push_def gate_words spec_try_push_def lf_abs_eq [OF h])
next
  case False
  note D = lf_holds_D [OF h]
  from False D(8) have gate: "lf_producer_gate q = 0" by simp
  obtain r where r: "scq_try_dequeue (lf_available_indices q) False =
      Some (case av of [] \<Rightarrow> None | x # _ \<Rightarrow> Some x, r)" "scq_holds k (tl av) r"
    using ring.dequeue_law [OF D(4)] .
  have room: "(length (aq_items (lf_abs q)) = aq_cap (lf_abs q)) = (av = [])"
    using D(12) by (auto simp: lf_abs_eq [OF h])
  have notclosed: "\<not> aq_closed (lf_abs q)" using False by (simp add: lf_abs_eq [OF h])
  show ?thesis
  proof (cases av)
    case Nil
    let ?q = "q\<lparr>lf_available_indices := r\<rparr>"
    have "lf_try_push q c = Some ((Inr full, False), ?q)"
      using r(1) Nil gate by (simp add: lf_try_push_def gate_words lf_leave_producer_def)
    moreover have h': "lf_holds k [] pub ?q" using D(1-11) r(2) Nil by (auto simp: lf_holds_def)
    moreover have "lf_abs ?q = lf_abs q" by (simp add: lf_abs_eq [OF h] lf_abs_eq [OF h'])
    ultimately show ?thesis using room notclosed Nil by (auto simp: spec_try_push_def)
  next
    case (Cons i av')
    then have step: "lf_try_push q c =
        lf_construct_and_publish (q\<lparr>lf_producer_gate := 1, lf_available_indices := r\<rparr>) i c"
      using r(1) gate by (simp add: lf_try_push_def gate_words)
    show ?thesis
    proof (cases c)
      case (Inl x)
      with step lf_construct_throws_ok [of k i av' pub q r x] h r(2) gate Cons room notclosed
      show ?thesis by (auto simp: spec_try_push_def spec_push_now_def)
    next
      case (Inr e)
      with step lf_publish_ok [of k i av' pub q r e] h r(2) gate Cons room notclosed
      show ?thesis by (auto simp: spec_try_push_def spec_push_now_def)
    qed
  qed
qed

lemma lf_try_pop_ok:
  assumes h: "lf_holds k av pub q"
  shows "\<exists>p q' av' pub'. lf_try_pop q = Some (p, q') \<and> lf_holds k av' pub' q' \<and>
    (p, lf_abs q') = spec_try_pop (lf_abs q) \<and>
    (pr_status p = empty \<longrightarrow> lf_data_epoch q' = lf_data_epoch q)"
proof (cases "lf_consumer_gate q = closed_bit")
  case True
  with h lf_holds_D(11) [OF h True] show ?thesis
    by (auto simp: lf_try_pop_def gate_words spec_try_pop_def lf_abs_eq [OF h])
next
  case False
  note D = lf_holds_D [OF h]
  from False D(9) have gate: "lf_consumer_gate q = 0" by simp
  obtain r where r: "scq_try_dequeue (lf_published_indices q) False =
      Some (case pub of [] \<Rightarrow> None | x # _ \<Rightarrow> Some x, r)" "scq_holds k (tl pub) r"
    using ring.dequeue_law [OF D(5)] .
  show ?thesis
  proof (cases pub)
    case Nil
    let ?q = "q\<lparr>lf_published_indices := r\<rparr>"
    have "lf_try_pop q = Some (if lf_producer_quiesced q then pop_closed else pop_empty, ?q)"
      using r(1) Nil gate by (simp add: lf_try_pop_def gate_words lf_leave_consumer_def)
    moreover have h': "lf_holds k av [] ?q" using D(1-11) r(2) Nil by (auto simp: lf_holds_def)
    moreover have "lf_abs ?q = lf_abs q" by (simp add: lf_abs_eq [OF h] lf_abs_eq [OF h'] Nil)
    ultimately show ?thesis using D(10) Nil by (auto simp: spec_try_pop_def lf_abs_eq [OF h])
  next
    case (Cons i pub')
    obtain e where e: "lf_slots q ! unat i = Some e" "unat i < 2 ^ k"
      using slots_ok_engaged D(6) Cons by blast
    have "length av < 2 ^ k" using D(12) Cons by simp
    then obtain r' where r': "scq_enqueue (lf_available_indices q) i False = Some r'"
      "scq_holds k (av @ [i]) r'"
      using ring.enqueue_law [OF D(4) _ e(2)] by blast
    define q' where "q' = q\<lparr>lf_published_indices := r, lf_slots := (lf_slots q)[unat i := None],
      lf_occupied_count := lf_occupied_count q - 1, lf_available_indices := r',
      lf_capacity_epoch := lf_capacity_epoch q + 1\<rparr>"
    have "lf_try_pop q = Some (pop_success e, q')"
      using r(1) r'(1) e(1) Cons gate
      by (simp add: lf_try_pop_def gate_words lf_update_defs q'_def)
    moreover have h': "lf_holds k (av @ [i]) pub' q'"
      using D(1-3,7-11) r(2) r'(2) slots_ok_release [of k av i pub' "lf_slots q"] D(6) Cons False
      by (auto simp: lf_holds_def q'_def)
    moreover have "i \<notin> set pub'" using D(6) Cons by (simp add: slots_ok_def)
    then have "lf_abs q' = (lf_abs q)\<lparr>aq_items := map (\<lambda>i. the (lf_slots q ! unat i)) pub'\<rparr>"
      using map_update_other [of i pub' "lf_slots q" None]
      by (simp add: lf_abs_eq [OF h] lf_abs_eq [OF h']) (simp add: q'_def)
    ultimately show ?thesis using e(1) Cons by (auto simp: spec_try_pop_def lf_abs_eq [OF h])
  qed
qed

section \<open>Waiting operations\<close>

lemma lf_try_push_step:
  assumes "lf_inv q"
  obtains r q' where "lf_try_push q c = Some (r, q')" "lf_inv q'"
    "(r, lf_abs q') = spec_try_push (lf_abs q) c"
    "fst r = Inr full \<longrightarrow> lf_capacity_epoch q' = lf_capacity_epoch q"
  using assms lf_try_push_ok [of _ _ _ q c] unfolding lf_inv_def by blast

lemma lf_try_pop_step:
  assumes "lf_inv q"
  obtains p q' where "lf_try_pop q = Some (p, q')" "lf_inv q'"
    "(p, lf_abs q') = spec_try_pop (lf_abs q)"
    "pr_status p = empty \<longrightarrow> lf_data_epoch q' = lf_data_epoch q"
  using assms lf_try_pop_ok [of _ _ _ q] unfolding lf_inv_def by blast

lemma lf_epoch_update [simp]:
  "lf_inv (q\<lparr>lf_data_epoch := x\<rparr>) = lf_inv q" "lf_inv (q\<lparr>lf_capacity_epoch := x\<rparr>) = lf_inv q"
  "lf_abs (q\<lparr>lf_data_epoch := x\<rparr>) = lf_abs q" "lf_abs (q\<lparr>lf_capacity_epoch := x\<rparr>) = lf_abs q"
  by (simp_all add: lf_inv_def lf_holds_def lf_abs_def lf_closed_def)

lemma spec_try_push_full:
  "(r, a') = spec_try_push a c \<Longrightarrow> fst r = Inr full \<Longrightarrow>
   r = (Inr full, False) \<and> a' = a \<and> \<not> aq_closed a \<and> length (aq_items a) = aq_cap a"
  by (auto simp: spec_try_push_def spec_push_now_def split: if_splits sum.splits)

lemma spec_try_push_not_full:
  "(r, a') = spec_try_push a c \<Longrightarrow> fst r \<noteq> Inr full \<Longrightarrow>
   spec_wait_push a c stop = Some (r, a') \<and> spec_wait_push_until a c stop expired = Some (r, a')"
  by (auto simp: spec_try_push_def spec_wait_push_def spec_wait_push_until_def split: if_splits)

lemma lf_wait_push_loop_ok:
  assumes "lf_inv q"
  shows "map_option (map_prod id lf_abs) (lf_wait_push_loop q c stop) = spec_wait_push (lf_abs q) c stop"
    "lf_wait_push_loop q c stop = Some (r, q') \<Longrightarrow> lf_inv q'"
proof -
  obtain r1 q1 where 1: "lf_try_push q c = Some (r1, q1)" "lf_inv q1"
    "(r1, lf_abs q1) = spec_try_push (lf_abs q) c"
    using lf_try_push_step [OF assms, of c] .
  obtain r2 q2 where 2: "lf_try_push q1 c = Some (r2, q2)" "lf_inv q2"
    "(r2, lf_abs q2) = spec_try_push (lf_abs q1) c"
    "fst r2 = Inr full \<longrightarrow> lf_capacity_epoch q2 = lf_capacity_epoch q1"
    using lf_try_push_step [OF 1(2), of c] .
  have full2: "fst r2 = Inr full" if "fst r1 = Inr full"
    using spec_try_push_full [OF 1(3) that] 2(3) by (auto simp: spec_try_push_def)
  have eq: "lf_wait_push_loop q c stop =
      (if fst r1 \<noteq> Inr full then Some (r1, q1) else if stop then Some ((Inr stopped, False), q1) else None)"
    using 1(1) 2(1,4) full2 by (subst lf_wait_push_loop.simps) simp
  show "map_option (map_prod id lf_abs) (lf_wait_push_loop q c stop) = spec_wait_push (lf_abs q) c stop"
    using eq spec_try_push_full [OF 1(3)] spec_try_push_not_full [OF 1(3), of stop]
    by (cases "fst r1 = Inr full") (simp_all add: spec_wait_push_def)
  show "lf_wait_push_loop q c stop = Some (r, q') \<Longrightarrow> lf_inv q'"
    using eq 1(2) by (auto split: if_splits)
qed

lemma lf_wait_push_ok:
  assumes "lf_inv q"
  shows "map_option (map_prod id lf_abs) (lf_wait_push q c stop) = spec_wait_push (lf_abs q) c stop"
    "lf_wait_push q c stop = Some (r, q') \<Longrightarrow> lf_inv q'"
proof -
  let ?q = "if stop then q\<lparr>lf_capacity_epoch := lf_capacity_epoch q + 1\<rparr> else q"
  have q: "lf_inv ?q" "lf_abs ?q = lf_abs q" using assms by simp_all
  show "map_option (map_prod id lf_abs) (lf_wait_push q c stop) = spec_wait_push (lf_abs q) c stop"
    using lf_wait_push_loop_ok(1) [OF q(1)] by (simp only: lf_wait_push_def q(2))
  show "lf_wait_push q c stop = Some (r, q') \<Longrightarrow> lf_inv q'"
    unfolding lf_wait_push_def by (rule lf_wait_push_loop_ok(2) [OF q(1)])
qed

lemma lf_wait_push_until_ok:
  assumes "lf_inv q"
  shows "map_option (map_prod id lf_abs) (lf_wait_push_until q c stop expired) =
      spec_wait_push_until (lf_abs q) c stop expired"
    "lf_wait_push_until q c stop expired = Some (r, q') \<Longrightarrow> lf_inv q'"
proof -
  obtain r1 q1 where 1: "lf_try_push q c = Some (r1, q1)" "lf_inv q1"
    "(r1, lf_abs q1) = spec_try_push (lf_abs q) c"
    using lf_try_push_step [OF assms, of c] .
  obtain r2 q2 where 2: "lf_try_push q1 c = Some (r2, q2)" "lf_inv q2"
    "(r2, lf_abs q2) = spec_try_push (lf_abs q1) c"
    using lf_try_push_step [OF 1(2), of c] .
  have full2: "fst r2 = Inr full \<and> lf_abs q2 = lf_abs q1" if "fst r1 = Inr full"
    using spec_try_push_full [OF 1(3) that] 2(3) by (auto simp: spec_try_push_def)
  have eq: "lf_wait_push_until q c stop expired =
      (if fst r1 \<noteq> Inr full then Some (r1, q1) else if stop then Some ((Inr stopped, False), q1)
       else if expired then Some ((Inr timeout, False), q2) else None)"
    using 1(1) 2(1) full2 by (simp add: lf_wait_push_until_def)
  show "map_option (map_prod id lf_abs) (lf_wait_push_until q c stop expired) =
      spec_wait_push_until (lf_abs q) c stop expired"
    using eq full2 spec_try_push_full [OF 1(3)] spec_try_push_not_full [OF 1(3), of stop expired]
    by (cases "fst r1 = Inr full") (simp_all add: spec_wait_push_until_def)
  show "lf_wait_push_until q c stop expired = Some (r, q') \<Longrightarrow> lf_inv q'"
    using eq 1(2) 2(2) by (auto split: if_splits)
qed

lemma lf_wait_pop_loop_ok:
  assumes "lf_inv q"
  shows "map_option (map_prod id lf_abs) (lf_wait_pop_loop q stop) = spec_wait_pop (lf_abs q) stop"
    "lf_wait_pop_loop q stop = Some (p, q') \<Longrightarrow> lf_inv q'"
proof -
  obtain p1 q1 where 1: "lf_try_pop q = Some (p1, q1)" "lf_inv q1"
    "(p1, lf_abs q1) = spec_try_pop (lf_abs q)"
    using lf_try_pop_step [OF assms] .
  obtain p2 q2 where 2: "lf_try_pop q1 = Some (p2, q2)" "lf_inv q2"
    "(p2, lf_abs q2) = spec_try_pop (lf_abs q1)"
    "pr_status p2 = empty \<longrightarrow> lf_data_epoch q2 = lf_data_epoch q1"
    using lf_try_pop_step [OF 1(2)] .
  have e: "pr_status p1 = empty \<longleftrightarrow> aq_items (lf_abs q) = [] \<and> \<not> aq_closed (lf_abs q)"
    "pr_status p1 = empty \<Longrightarrow> lf_abs q1 = lf_abs q"
    using 1(3) by (auto simp: spec_try_pop_def split: list.splits)
  have empty2: "pr_status p2 = empty" if "pr_status p1 = empty"
    using that e 2(3) by (auto simp: spec_try_pop_def split: list.splits)
  have eq: "lf_wait_pop_loop q stop =
      (if pr_status p1 \<noteq> empty then Some (p1, q1) else if stop then Some (pop_stopped, q1) else None)"
    using 1(1) 2(1,4) empty2 by (subst lf_wait_pop_loop.simps) simp
  show "map_option (map_prod id lf_abs) (lf_wait_pop_loop q stop) = spec_wait_pop (lf_abs q) stop"
    using eq e 1(3) by (auto simp: spec_wait_pop_def spec_try_pop_def split: list.splits)
  show "lf_wait_pop_loop q stop = Some (p, q') \<Longrightarrow> lf_inv q'"
    using eq 1(2) by (auto split: if_splits)
qed

lemma lf_wait_pop_ok:
  assumes "lf_inv q"
  shows "map_option (map_prod id lf_abs) (lf_wait_pop q stop) = spec_wait_pop (lf_abs q) stop"
    "lf_wait_pop q stop = Some (p, q') \<Longrightarrow> lf_inv q'"
proof -
  let ?q = "if stop then q\<lparr>lf_data_epoch := lf_data_epoch q + 1\<rparr> else q"
  have q: "lf_inv ?q" "lf_abs ?q = lf_abs q" using assms by simp_all
  show "map_option (map_prod id lf_abs) (lf_wait_pop q stop) = spec_wait_pop (lf_abs q) stop"
    using lf_wait_pop_loop_ok(1) [OF q(1)] by (simp only: lf_wait_pop_def q(2))
  show "lf_wait_pop q stop = Some (p, q') \<Longrightarrow> lf_inv q'"
    unfolding lf_wait_pop_def by (rule lf_wait_pop_loop_ok(2) [OF q(1)])
qed

section \<open>Closing, discarding, destruction\<close>

lemma close_producers_ok:
  assumes h: "lf_holds k av pub q"
  shows "\<exists>q'. close_producers q = Some q' \<and> lf_holds k av pub q' \<and> lf_abs q' = spec_close (lf_abs q) \<and>
    lf_producer_gate q' = closed_bit \<and> lf_consumer_gate q' = lf_consumer_gate q"
proof -
  note D = lf_holds_D [OF h]
  define q' where "q' = lf_signal_capacity (lf_signal_data
    (q\<lparr>lf_producer_gate := closed_bit, lf_producer_quiesced := True\<rparr>))"
  have "close_producers q = Some q'"
    using D(8) by (auto simp: close_producers_def gate_words q'_def)
  moreover have h': "lf_holds k av pub q'"
    using D(1-11) by (auto simp: lf_holds_def q'_def lf_update_defs)
  moreover have "lf_abs q' = spec_close (lf_abs q)"
    by (simp add: lf_abs_eq [OF h] lf_abs_eq [OF h'] spec_close_def) (simp add: q'_def lf_update_defs)
  ultimately show ?thesis by (auto simp: q'_def lf_update_defs)
qed

text \<open>The discard loop runs with both gates closed; its invariant is that of the queue apart from
  the consumer gate.\<close>

lemma lf_discard_loop_ok:
  assumes "lf_holds k av pub (q\<lparr>lf_consumer_gate := 0\<rparr>)"
  shows "\<exists>q' av'. lf_discard_loop q n = Some (n + of_nat (length pub), q') \<and>
    lf_holds k av' [] (q'\<lparr>lf_consumer_gate := 0\<rparr>) \<and> lf_consumer_gate q' = lf_consumer_gate q \<and>
    lf_producer_gate q' = lf_producer_gate q"
  using assms
proof (induction pub arbitrary: q av n)
  case Nil
  note D = lf_holds_D [OF Nil]
  obtain r where r: "scq_try_dequeue (lf_published_indices q) False = Some (None, r)" "scq_holds k [] r"
    using ring.dequeue_miss [OF D(5)] by auto
  then have "lf_discard_loop q n = Some (n, q\<lparr>lf_published_indices := r\<rparr>)"
    by (subst lf_discard_loop.simps) simp
  moreover have "lf_holds k av [] (q\<lparr>lf_published_indices := r, lf_consumer_gate := 0\<rparr>)"
    using D(1-11) r(2) by (auto simp: lf_holds_def)
  ultimately show ?case by auto
next
  case (Cons i pub)
  note D = lf_holds_D [OF Cons.prems]
  obtain r where r: "scq_try_dequeue (lf_published_indices q) False = Some (Some i, r)" "scq_holds k pub r"
    using ring.dequeue_hit [OF D(5)] by auto
  obtain e where e: "lf_slots q ! unat i = Some e" "unat i < 2 ^ k"
    using slots_ok_engaged [OF D(6)] by auto
  have "length av < 2 ^ k" using D(12) by simp
  then obtain r' where r': "scq_enqueue (lf_available_indices q) i False = Some r'"
    "scq_holds k (av @ [i]) r'"
    using ring.enqueue_law [OF D(4) _ e(2)] by auto
  define q1 where "q1 = q\<lparr>lf_published_indices := r, lf_slots := (lf_slots q)[unat i := None],
    lf_occupied_count := lf_occupied_count q - 1, lf_available_indices := r'\<rparr>"
  have step: "lf_discard_loop q n = lf_discard_loop q1 (n + 1)"
    using r(1) r'(1) e(1) by (subst lf_discard_loop.simps) (simp add: q1_def)
  have "lf_holds k (av @ [i]) pub (q1\<lparr>lf_consumer_gate := 0\<rparr>)"
    using D(1-3,7-11) r(2) r'(2) slots_ok_release [OF D(6)] by (auto simp: lf_holds_def q1_def)
  from Cons.IH [OF this, of "n + 1"] show ?case
    unfolding step by (auto simp: q1_def add_ac)
qed

lemma lf_close_and_discard_ok:
  assumes "lf_inv q"
  shows "\<exists>n q'. lf_close_and_discard q = Some (n, q') \<and> lf_inv q' \<and>
    (n, lf_abs q') = spec_close_and_discard (lf_abs q)"
proof -
  from assms obtain k av pub where h: "lf_holds k av pub q" by (auto simp: lf_inv_def)
  obtain q1 where q1: "close_producers q = Some q1" "lf_holds k av pub q1"
    "lf_abs q1 = spec_close (lf_abs q)" "lf_producer_gate q1 = closed_bit"
    using close_producers_ok [OF h] by blast
  have gate: "close_gate (lf_consumer_gate q1) = Some closed_bit"
    using lf_holds_D(9) [OF q1(2)] by (auto simp: gate_words)
  have "lf_holds k av pub ((q1\<lparr>lf_consumer_gate := closed_bit\<rparr>)\<lparr>lf_consumer_gate := 0\<rparr>)"
    using q1(2) gate_words by (auto simp: lf_holds_def)
  from lf_discard_loop_ok [OF this, of 0] obtain q2 av' where
    q2: "lf_discard_loop (q1\<lparr>lf_consumer_gate := closed_bit\<rparr>) 0 = Some (of_nat (length pub), q2)"
      "lf_holds k av' [] (q2\<lparr>lf_consumer_gate := 0\<rparr>)" "lf_consumer_gate q2 = closed_bit"
      "lf_producer_gate q2 = closed_bit"
    using q1(4) by auto
  have h2: "lf_holds k av' [] q2" using q2(2-4) by (auto simp: lf_holds_def)
  define q' where "q' = lf_signal_capacity (lf_signal_data q2)"
  have "lf_close_and_discard q = Some (of_nat (length pub), q')"
    using q1(1) gate q2(1) by (simp add: lf_close_and_discard_def q'_def)
  moreover have "lf_inv q'" "lf_abs q' = lf_abs q2"
    using h2 by (auto simp: q'_def lf_update_defs) (auto simp: lf_inv_def)
  ultimately show ?thesis
    using lf_abs_eq [OF h] lf_abs_eq [OF h2] q2(4) by (simp add: spec_close_and_discard_def)
qed

lemma lf_destroy_ok:
  assumes "scq_holds k pub (lf_published_indices q)" "distinct pub" "length (lf_slots q) = 2 ^ k"
    and "\<forall>x. unat x < 2 ^ k \<longrightarrow> (lf_slots q ! unat x \<noteq> None) = (x \<in> set pub)"
  shows "\<exists>q'. lf_destroy q = Some q' \<and> length (lf_slots q') = 2 ^ k \<and>
    (\<forall>x :: size_t. unat x < 2 ^ k \<longrightarrow> lf_slots q' ! unat x = None)"
  using assms
proof (induction pub arbitrary: q)
  case Nil
  obtain r where "scq_try_dequeue (lf_published_indices q) False = Some (None, r)"
    using ring.dequeue_miss [OF Nil(1)] by auto
  then have "lf_destroy q = Some (q\<lparr>lf_published_indices := r\<rparr>)" by (subst lf_destroy.simps) simp
  with Nil(3,4) show ?case by simp
next
  case (Cons i pub)
  obtain r where r: "scq_try_dequeue (lf_published_indices q) False = Some (Some i, r)" "scq_holds k pub r"
    using ring.dequeue_hit [OF Cons.prems(1)] by auto
  have i: "unat i < 2 ^ k" using ring.holds_bounds [OF Cons.prems(1)] by simp
  then obtain e where e: "lf_slots q ! unat i = Some e" using Cons.prems(4) by fastforce
  let ?q = "q\<lparr>lf_published_indices := r, lf_slots := (lf_slots q)[unat i := None]\<rparr>"
  have "(lf_slots q)[unat i := None] ! unat x = (if x = i then None else lf_slots q ! unat x)" for x
    using i Cons.prems(3) by (intro nth_update_word) simp
  then have "\<forall>x. unat x < 2 ^ k \<longrightarrow> (lf_slots ?q ! unat x \<noteq> None) = (x \<in> set pub)"
    using Cons.prems(2,4) by auto
  from Cons.IH [of ?q] this r Cons.prems show ?case
    using e by (subst lf_destroy.simps) simp
qed

section \<open>The lock-free queue as a queue policy\<close>

definition lock_free_queue_policy :: "('e, 'e bounded_lock_free_queue) queue_policy" where
  "lock_free_queue_policy = \<lparr>
     qp_new = lf_new, qp_try_push = lf_try_push, qp_try_emplace = lf_try_emplace,
     qp_wait_push = lf_wait_push, qp_wait_push_until = lf_wait_push_until,
     qp_try_pop = lf_try_pop, qp_wait_pop = lf_wait_pop, qp_close = lf_close,
     qp_close_and_discard = lf_close_and_discard, qp_capacity = lf_capacity, qp_size = lf_size,
     qp_closed = lf_closed\<rparr>"

lemma lf_holds_size:
  assumes h: "lf_holds k av pub q"
  shows "unat (lf_size q) = length (aq_items (lf_abs q))" "unat (lf_capacity q) = aq_cap (lf_abs q)"
    "aqueue_ok (lf_abs q)"
proof -
  note D = lf_holds_D [OF h]
  have "(2::nat) ^ k \<le> 2 ^ 61" using D(2) by (intro power_increasing) simp_all
  moreover have "length pub \<le> 2 ^ k" using D(12) by simp
  ultimately show "unat (lf_size q) = length (aq_items (lf_abs q))" "aqueue_ok (lf_abs q)"
    using D(7) by (simp_all add: lf_size_def lf_abs_eq [OF h] aqueue_ok_def unat_of_nat_small)
  show "unat (lf_capacity q) = aq_cap (lf_abs q)" by (simp add: lf_abs_def)
qed

lemma lf_try_push_ref:
  assumes "lf_inv q"
  shows "map_option (map_prod id lf_abs) (lf_try_push q c) = Some (spec_try_push (lf_abs q) c)"
    "lf_try_push q c = Some (r, q') \<Longrightarrow> lf_inv q'"
proof -
  obtain r1 q1 where "lf_try_push q c = Some (r1, q1)" "lf_inv q1"
    "(r1, lf_abs q1) = spec_try_push (lf_abs q) c"
    using lf_try_push_step [OF assms, of c] .
  then show "map_option (map_prod id lf_abs) (lf_try_push q c) = Some (spec_try_push (lf_abs q) c)"
    "lf_try_push q c = Some (r, q') \<Longrightarrow> lf_inv q'" by simp_all
qed

lemma lf_try_pop_ref:
  assumes "lf_inv q"
  shows "map_option (map_prod id lf_abs) (lf_try_pop q) = Some (spec_try_pop (lf_abs q))"
    "lf_try_pop q = Some (p, q') \<Longrightarrow> lf_inv q'"
proof -
  obtain p1 q1 where "lf_try_pop q = Some (p1, q1)" "lf_inv q1"
    "(p1, lf_abs q1) = spec_try_pop (lf_abs q)"
    using lf_try_pop_step [OF assms] .
  then show "map_option (map_prod id lf_abs) (lf_try_pop q) = Some (spec_try_pop (lf_abs q))"
    "lf_try_pop q = Some (p, q') \<Longrightarrow> lf_inv q'" by simp_all
qed

lemma lf_close_ref:
  assumes "lf_inv q"
  shows "map_option lf_abs (lf_close q) = Some (spec_close (lf_abs q))" "lf_close q = Some q' \<Longrightarrow> lf_inv q'"
proof -
  from assms obtain k av pub where "lf_holds k av pub q" by (auto simp: lf_inv_def)
  then obtain q1 where "close_producers q = Some q1" "lf_holds k av pub q1"
    "lf_abs q1 = spec_close (lf_abs q)" using close_producers_ok by blast
  then show "map_option lf_abs (lf_close q) = Some (spec_close (lf_abs q))"
    "lf_close q = Some q' \<Longrightarrow> lf_inv q'" by (auto simp: lf_close_def lf_inv_def)
qed

lemma lf_close_and_discard_ref:
  assumes "lf_inv q"
  shows "map_option (map_prod id lf_abs) (lf_close_and_discard q) = Some (spec_close_and_discard (lf_abs q))"
    "lf_close_and_discard q = Some (n, q') \<Longrightarrow> lf_inv q'"
proof -
  obtain m q1 where "lf_close_and_discard q = Some (m, q1)" "lf_inv q1"
    "(m, lf_abs q1) = spec_close_and_discard (lf_abs q)"
    using lf_close_and_discard_ok [OF assms] by blast
  then show "map_option (map_prod id lf_abs) (lf_close_and_discard q) =
      Some (spec_close_and_discard (lf_abs q))"
    "lf_close_and_discard q = Some (n, q') \<Longrightarrow> lf_inv q'" by simp_all
qed

lemma lock_free_policy_ops [simp]:
  "qp_new lock_free_queue_policy = lf_new" "qp_try_push lock_free_queue_policy = lf_try_push"
  "qp_try_emplace lock_free_queue_policy = lf_try_push" "qp_wait_push lock_free_queue_policy = lf_wait_push"
  "qp_wait_push_until lock_free_queue_policy = lf_wait_push_until"
  "qp_try_pop lock_free_queue_policy = lf_try_pop" "qp_wait_pop lock_free_queue_policy = lf_wait_pop"
  "qp_close lock_free_queue_policy = lf_close"
  "qp_close_and_discard lock_free_queue_policy = lf_close_and_discard"
  "qp_capacity lock_free_queue_policy = lf_capacity" "qp_size lock_free_queue_policy = lf_size"
  "qp_closed lock_free_queue_policy = lf_closed"
  by (simp_all add: lock_free_queue_policy_def lf_try_emplace_eq)

lemma lf_inv_size:
  assumes "lf_inv q"
  shows "unat (lf_size q) = length (aq_items (lf_abs q))" "unat (lf_capacity q) = aq_cap (lf_abs q)"
    "aqueue_ok (lf_abs q)" "lf_closed q = aq_closed (lf_abs q)"
  using assms lf_holds_size unfolding lf_inv_def by (blast, blast, blast) (simp add: lf_abs_def)

interpretation lfq: concurrent_queue lock_free_queue_policy lf_abs lf_inv
  by (unfold_locales; (unfold lock_free_policy_ops)?)
    (rule lf_new_ok lf_inv_size lf_try_push_ref lf_wait_push_ok lf_wait_push_until_ok lf_try_pop_ref
      lf_wait_pop_ok lf_close_ref lf_close_and_discard_ref; assumption)+

section \<open>Histories\<close>

text \<open>
  Property C9. For every sequence of calls on a lock-free queue over the word-level rings, in the
  order of their linearization points: the accepted events are the popped ones, in the same order,
  then the ones a discard destroyed, then the ones still queued; something was discarded only if
  the queue is closed and empty; and the size never exceeds the capacity.
\<close>

theorem lf_history_fifo:
  assumes "lf_new n = Inr q" "queue_history lock_free_queue_policy q calls = (q', l)"
  shows "(\<exists>dropped. ql_accepted l = ql_popped l @ dropped @ aq_items (lf_abs q') \<and>
      length dropped = ql_discarded l \<and> (dropped \<noteq> [] \<longrightarrow> aq_items (lf_abs q') = [] \<and> lf_closed q')) \<and>
    length (aq_items (lf_abs q')) = unat (lf_size q') \<and> unat (lf_size q') \<le> unat n"
proof -
  have "qp_new lock_free_queue_policy n = Inr q" using assms(1) by (simp add: lock_free_queue_policy_def)
  from lfq.queue_history_fifo [OF this assms(2)] show ?thesis by (simp add: lock_free_queue_policy_def)
qed

lemma lf_new_2: "lf_new 2 = Inr \<lparr>lf_capacity = 2, lf_slots = [None, None],
    lf_available_indices = scq_new 2 True, lf_published_indices = scq_new 2 False,
    lf_occupied_count = 0, lf_producer_gate = 0, lf_consumer_gate = 0,
    lf_producer_quiesced = False, lf_data_epoch = 0, lf_capacity_epoch = 0\<rparr>"
  using validate_capacity_power [of 1] by (simp add: lf_new_def) (simp add: numeral_2_eq_2)

theorem lf_history_fifo_witness:
  "case lf_new 2 of Inl _ \<Rightarrow> False | Inr (q :: nat bounded_lock_free_queue) \<Rightarrow>
     unat (lf_size (fst (queue_history lock_free_queue_policy q
       [Try_push (Inr 7), Try_push (Inr 8), Try_pop, Close_and_discard]))) \<le> 2"
  using lf_history_fifo [of 2 _ "[Try_push (Inr (7::nat)), Try_push (Inr 8), Try_pop, Close_and_discard]", OF lf_new_2 surjective_pairing]
  by (simp add: lf_new_2)

text \<open>
  The constructor accepts exactly the powers of two from 2 to \<open>2 ^ 61\<close>; every other
  capacity throws \<open>std::invalid_argument\<close> and builds nothing.
\<close>

lemma lf_new_capacities:
  "(\<exists>q. lf_new n = (Inr q :: exn + 'e bounded_lock_free_queue)) = (\<exists>k. 1 \<le> k \<and> k \<le> 61 \<and> n = 2 ^ k) \<and>
   ((\<exists>q. lf_new n = (Inr q :: exn + 'e bounded_lock_free_queue)) \<or>
    (\<exists>msg. lf_new n = (Inl (Invalid_argument msg) :: exn + 'e bounded_lock_free_queue)))"
proof -
  have 1: "(\<exists>q. lf_new n = (Inr q :: exn + 'e bounded_lock_free_queue)) = (validate_capacity n = Inr n)"
    using validate_capacity_ok [of n] by (auto simp: lf_new_def split: sum.splits)
  have 2: "validate_capacity n = Inr n" if "1 \<le> k" "k \<le> 61" "n = 2 ^ k" for k
    using validate_capacity_power [OF that(1,2)] that(3) by simp
  have "(\<exists>q. lf_new n = (Inr q :: exn + 'e bounded_lock_free_queue)) \<or>
      (\<exists>msg. lf_new n = (Inl (Invalid_argument msg) :: exn + 'e bounded_lock_free_queue))"
    by (auto simp: lf_new_def validate_capacity_def)
  with 1 2 validate_capacity_ok [of n n] show ?thesis by blast
qed

text \<open>
  Property C36. Destruction after any sequence of calls: the destructor returns, it destroys only
  slots that hold an event (a second destruction or a read of raw storage would give no result),
  and afterwards no slot holds one.
\<close>

theorem lf_destroy_releases_all:
  assumes "lf_new n = Inr q" "queue_history lock_free_queue_policy q calls = (q', l)"
  shows "\<exists>q''. lf_destroy q' = Some q'' \<and> length (lf_slots q'') = unat n \<and>
    list_all (\<lambda>s. s = None) (lf_slots q'')"
proof -
  have "qp_new lock_free_queue_policy n = Inr q" using assms(1) by (simp add: lock_free_queue_policy_def)
  from lfq.queue_history_ok [OF this, of calls] have "lf_inv q'" "aq_cap (lf_abs q') = unat n"
    using assms(2) by (simp_all add: lfq.history_ok_def)
  then obtain k av pub where h: "lf_holds k av pub q'" and n: "unat n = 2 ^ k"
    using lf_abs_eq by (fastforce simp: lf_inv_def)
  note D = lf_holds_D [OF h]
  have "\<exists>q''. lf_destroy q' = Some q'' \<and> length (lf_slots q'') = 2 ^ k \<and>
      (\<forall>x :: size_t. unat x < 2 ^ k \<longrightarrow> lf_slots q'' ! unat x = None)"
    by (rule lf_destroy_ok [OF D(5)]) (use D(6) in \<open>auto simp: slots_ok_def\<close>)
  then obtain q'' where q'': "lf_destroy q' = Some q''" "length (lf_slots q'') = 2 ^ k"
    "\<And>x :: size_t. unat x < 2 ^ k \<Longrightarrow> lf_slots q'' ! unat x = None" by blast
  have "lf_slots q'' ! i = None" if "i < 2 ^ k" for i
    using q''(3) [of "of_nat i"] that n unat_lt_2_64 [of n] by (simp add: unat_of_nat_small)
  with q'' n show ?thesis by (auto simp: list_all_length)
qed

theorem lf_destroy_releases_all_witness:
  "case lf_new 2 of Inl _ \<Rightarrow> False | Inr (q :: nat bounded_lock_free_queue) \<Rightarrow>
     \<exists>q''. lf_destroy (fst (queue_history lock_free_queue_policy q [Try_push (Inr 7), Try_push (Inr 8)]))
       = Some q'' \<and> length (lf_slots q'') = 2 \<and> list_all (\<lambda>s. s = None) (lf_slots q'')"
  using lf_destroy_releases_all [of 2 _ "[Try_push (Inr (7::nat)), Try_push (Inr 8)]", OF lf_new_2 surjective_pairing]
  by (simp add: lf_new_2)

end
