(* ===== verification/Lock_Free_Threads.thy ===== *)
theory Lock_Free_Threads
  imports Lock_Free_Queue
begin

text \<open>
  The threads that use one \<open>bounded_lock_free_queue\<close> (\<open>queue/bounded_lock_free_queue.hpp\<close>): producers and
  consumers anywhere inside \<open>try_push\<close>, \<open>wait_push\<close>, \<open>wait_push_until\<close>, \<open>try_pop\<close> and \<open>wait_pop\<close>, and threads
  inside \<open>close\<close> and \<open>close_and_discard\<close>. A step is one access to shared memory: a gate word, a ring
  operation, the construction or destruction of an event in its slot, the occupied counter, the
  quiesced flag, an epoch, a notification. The queue is the record of \<open>Lock_Free_Queue\<close>, with the
  word-level rings; a ring operation is one step.

  The invariants say who owns which slot index, what the two gate words count, and that the events
  leave in the order in which they were published. Two runs at the end show what the protocol does
  not give: a consumer can report \<open>closed\<close> while an accepted event is queued, and a consumer can
  stay asleep after the queue was closed.
\<close>

section \<open>Program counters\<close>

datatype channel = Data | Capacity

text \<open>How an attempt was started: by a \<open>try_\<close> method, as the first or second attempt of a round of a
  waiting method (the second with the epoch it read), by the polling method, or as its last attempt.\<close>

datatype attempt = Once | First | Second size_t | Timed | Final

text \<open>
  One constructor per point between two accesses. \<open>L_signal\<close> and \<open>L_notify\<close> are inside \<open>signal_data\<close> or
  \<open>signal_capacity\<close> with the point to go on at; \<open>L_await\<close> and \<open>L_parked\<close> are inside \<open>epoch.wait(old)\<close>.
\<close>

datatype 'e lf_pc =
    L_idle
  | L_pushed push_out
  | L_popped "'e pop_result"
  | L_terminated
  | P_entering attempt "exn + 'e"
  | P_inside attempt "exn + 'e"
  | P_reserved attempt "exn + 'e" size_t
  | P_counting attempt "exn + 'e" size_t
  | P_publishing attempt "exn + 'e" size_t
  | P_unreserving attempt "exn + 'e" exn size_t
  | P_leaving attempt "exn + 'e" push_out
  | P_done attempt "exn + 'e" push_out
  | P_epoch "exn + 'e"
  | C_entering attempt
  | C_inside attempt
  | C_missed attempt
  | C_taking attempt size_t
  | C_uncounting attempt size_t 'e
  | C_releasing attempt size_t 'e
  | C_leaving attempt "'e pop_result"
  | C_done attempt "'e pop_result"
  | C_epoch
  | K_locking bool
  | K_closing bool
  | K_quiescing bool
  | K_storing bool
  | K_closing_consumers
  | K_quiescing_consumers
  | K_discarding size_t
  | K_destroying size_t size_t
  | K_uncounting size_t size_t
  | K_recycling size_t size_t
  | K_unlocking size_t
  | K_returned size_t
  | L_signal channel "'e lf_pc"
  | L_notify channel "'e lf_pc"
  | L_await channel size_t "'e lf_pc"
  | L_parked channel size_t "'e lf_pc"

fun lf_epoch :: "channel \<Rightarrow> 'e bounded_lock_free_queue \<Rightarrow> size_t" where
  "lf_epoch Data q = lf_data_epoch q"
| "lf_epoch Capacity q = lf_capacity_epoch q"

fun lf_signal :: "channel \<Rightarrow> 'e bounded_lock_free_queue \<Rightarrow> 'e bounded_lock_free_queue" where
  "lf_signal Data q = lf_signal_data q"
| "lf_signal Capacity q = lf_signal_capacity q"

section \<open>Steps of one thread\<close>

text \<open>What a waiting or polling method does with the result of an attempt. \<open>stop\<close> and \<open>expired\<close> are the
  stop token and the deadline as the thread sees them at this point.\<close>

fun push_continue ::
  "bool \<Rightarrow> bool \<Rightarrow> attempt \<Rightarrow> exn + 'e \<Rightarrow> push_out \<Rightarrow> 'e lf_pc" where
  "push_continue stop expired Once c r = L_pushed r"
| "push_continue stop expired First c r =
     (if fst r \<noteq> Inr full then L_pushed r else if stop then L_pushed (Inr stopped, False) else P_epoch c)"
| "push_continue stop expired (Second epoch) c r =
     (if fst r \<noteq> Inr full then L_pushed r else if stop then L_pushed (Inr stopped, False)
      else L_await Capacity epoch (P_entering First c))"
| "push_continue stop expired Timed c r =
     (if fst r \<noteq> Inr full then L_pushed r else if stop then L_pushed (Inr stopped, False)
      else if expired then P_entering Final c else P_entering Timed c)"
| "push_continue stop expired Final c r =
     L_pushed (if fst r = Inr full then (Inr timeout, False) else r)"

fun pop_continue :: "bool \<Rightarrow> attempt \<Rightarrow> 'e pop_result \<Rightarrow> 'e lf_pc" where
  "pop_continue stop First p =
     (if pr_status p \<noteq> empty then L_popped p else if stop then L_popped pop_stopped else C_epoch)"
| "pop_continue stop (Second epoch) p =
     (if pr_status p \<noteq> empty then L_popped p else if stop then L_popped pop_stopped
      else L_await Data epoch (C_entering First))"
| "pop_continue stop _ p = L_popped p"

text \<open>
  The next access of a thread; \<open>None\<close> when the thread is idle, waits for another thread, or takes part
  in a step that also changes another thread or the close mutex. Reading or destroying a raw slot
  would also be \<open>None\<close>.
\<close>

fun lf_move ::
  "bool \<Rightarrow> bool \<Rightarrow> 'e bounded_lock_free_queue \<Rightarrow> 'e lf_pc \<Rightarrow> ('e lf_pc \<times> 'e bounded_lock_free_queue) option" where
  "lf_move stop expired q (P_entering m c) = (case guard_enter (lf_producer_gate q) of
       Entered gate \<Rightarrow> Some (P_inside m c, q\<lparr>lf_producer_gate := gate\<rparr>)
     | Refused \<Rightarrow> Some (P_done m c (Inr closed, False), q)
     | Terminated \<Rightarrow> Some (L_terminated, q))"
| "lf_move stop expired q (P_inside m c) = (case scq_try_dequeue (lf_available_indices q) False of
       None \<Rightarrow> None
     | Some (None, ring) \<Rightarrow> Some (P_leaving m c (Inr full, False), q\<lparr>lf_available_indices := ring\<rparr>)
     | Some (Some i, ring) \<Rightarrow> Some (P_reserved m c i, q\<lparr>lf_available_indices := ring\<rparr>))"
| "lf_move stop expired q (P_reserved m c i) = (case c of
       Inl x \<Rightarrow> Some (P_unreserving m c x i, q)
     | Inr e \<Rightarrow> Some (P_counting m c i, q\<lparr>lf_slots := (lf_slots q)[unat i := Some e]\<rparr>))"
| "lf_move stop expired q (P_counting m c i) =
     Some (P_publishing m c i, q\<lparr>lf_occupied_count := lf_occupied_count q + 1\<rparr>)"
| "lf_move stop expired q (P_publishing m c i) = (case scq_enqueue (lf_published_indices q) i False of
       None \<Rightarrow> None
     | Some ring \<Rightarrow>
         Some (L_signal Data (P_leaving m c (Inr success, True)), q\<lparr>lf_published_indices := ring\<rparr>))"
| "lf_move stop expired q (P_unreserving m c x i) = (case scq_enqueue (lf_available_indices q) i False of
       None \<Rightarrow> None
     | Some ring \<Rightarrow>
         Some (L_signal Capacity (P_leaving m c (Inl x, True)), q\<lparr>lf_available_indices := ring\<rparr>))"
| "lf_move stop expired q (P_leaving m c r) = Some (P_done m c r, lf_leave_producer q)"
| "lf_move stop expired q (P_done m c r) = Some (push_continue stop expired m c r, q)"
| "lf_move stop expired q (P_epoch c) = Some (P_entering (Second (lf_capacity_epoch q)) c, q)"
| "lf_move stop expired q (C_entering m) = (case guard_enter (lf_consumer_gate q) of
       Entered gate \<Rightarrow> Some (C_inside m, q\<lparr>lf_consumer_gate := gate\<rparr>)
     | Refused \<Rightarrow> Some (C_done m pop_closed, q)
     | Terminated \<Rightarrow> Some (L_terminated, q))"
| "lf_move stop expired q (C_inside m) = (case scq_try_dequeue (lf_published_indices q) False of
       None \<Rightarrow> None
     | Some (None, ring) \<Rightarrow> Some (C_missed m, q\<lparr>lf_published_indices := ring\<rparr>)
     | Some (Some i, ring) \<Rightarrow> Some (C_taking m i, q\<lparr>lf_published_indices := ring\<rparr>))"
| "lf_move stop expired q (C_missed m) =
     Some (C_leaving m (if lf_producer_quiesced q then pop_closed else pop_empty), q)"
| "lf_move stop expired q (C_taking m i) = (case lf_slots q ! unat i of
       None \<Rightarrow> None
     | Some e \<Rightarrow> Some (C_uncounting m i e, q\<lparr>lf_slots := (lf_slots q)[unat i := None]\<rparr>))"
| "lf_move stop expired q (C_uncounting m i e) =
     Some (C_releasing m i e, q\<lparr>lf_occupied_count := lf_occupied_count q - 1\<rparr>)"
| "lf_move stop expired q (C_releasing m i e) = (case scq_enqueue (lf_available_indices q) i False of
       None \<Rightarrow> None
     | Some ring \<Rightarrow>
         Some (L_signal Capacity (C_leaving m (pop_success e)), q\<lparr>lf_available_indices := ring\<rparr>))"
| "lf_move stop expired q (C_leaving m p) = Some (C_done m p, lf_leave_consumer q)"
| "lf_move stop expired q (C_done m p) = Some (pop_continue stop m p, q)"
| "lf_move stop expired q C_epoch = Some (C_entering (Second (lf_data_epoch q)), q)"
| "lf_move stop expired q (K_closing d) =
     Some (K_quiescing d, q\<lparr>lf_producer_gate := lf_producer_gate q OR closed_bit\<rparr>)"
| "lf_move stop expired q (K_quiescing d) =
     (if lf_producer_gate q AND active_mask \<noteq> 0 then None else Some (K_storing d, q))"
| "lf_move stop expired q (K_storing d) =
     Some (L_signal Data (L_signal Capacity (if d then K_closing_consumers else K_unlocking 0)),
       q\<lparr>lf_producer_quiesced := True\<rparr>)"
| "lf_move stop expired q K_closing_consumers =
     Some (K_quiescing_consumers, q\<lparr>lf_consumer_gate := lf_consumer_gate q OR closed_bit\<rparr>)"
| "lf_move stop expired q K_quiescing_consumers =
     (if lf_consumer_gate q AND active_mask \<noteq> 0 then None else Some (K_discarding 0, q))"
| "lf_move stop expired q (K_discarding n) = (case scq_try_dequeue (lf_published_indices q) False of
       None \<Rightarrow> None
     | Some (None, ring) \<Rightarrow>
         Some (L_signal Data (L_signal Capacity (K_unlocking n)), q\<lparr>lf_published_indices := ring\<rparr>)
     | Some (Some i, ring) \<Rightarrow> Some (K_destroying n i, q\<lparr>lf_published_indices := ring\<rparr>))"
| "lf_move stop expired q (K_destroying n i) = (case lf_slots q ! unat i of
       None \<Rightarrow> None
     | Some e \<Rightarrow> Some (K_uncounting n i, q\<lparr>lf_slots := (lf_slots q)[unat i := None]\<rparr>))"
| "lf_move stop expired q (K_uncounting n i) =
     Some (K_recycling n i, q\<lparr>lf_occupied_count := lf_occupied_count q - 1\<rparr>)"
| "lf_move stop expired q (K_recycling n i) = (case scq_enqueue (lf_available_indices q) i False of
       None \<Rightarrow> None
     | Some ring \<Rightarrow> Some (K_discarding (n + 1), q\<lparr>lf_available_indices := ring\<rparr>))"
| "lf_move stop expired q (L_signal ch pc) = Some (L_notify ch pc, lf_signal ch q)"
| "lf_move stop expired q (L_await ch old pc) =
     Some (if lf_epoch ch q \<noteq> old then pc else L_parked ch old pc, q)"
| "lf_move stop expired q _ = None"

text \<open>Ghost: the event that a move adds to the published ones, and the one it takes out.\<close>

definition slot_event :: "'e bounded_lock_free_queue \<Rightarrow> size_t \<Rightarrow> 'e" where
  "slot_event q i = the (lf_slots q ! unat i)"

fun published_by :: "'e bounded_lock_free_queue \<Rightarrow> 'e lf_pc \<Rightarrow> 'e list" where
  "published_by q (P_publishing m c i) = [slot_event q i]"
| "published_by q _ = []"

fun dequeuing :: "'e lf_pc \<Rightarrow> bool" where
  "dequeuing (C_inside m) = True"
| "dequeuing (K_discarding n) = True"
| "dequeuing _ = False"

fun dequeued_index :: "'e lf_pc \<Rightarrow> size_t list" where
  "dequeued_index (C_taking m i) = [i]"
| "dequeued_index (K_destroying n i) = [i]"
| "dequeued_index _ = []"

definition taken_by :: "'e bounded_lock_free_queue \<Rightarrow> 'e lf_pc \<Rightarrow> 'e lf_pc \<Rightarrow> 'e list" where
  "taken_by q pc pc' = (if dequeuing pc then map (slot_event q) (dequeued_index pc') else [])"

section \<open>Steps of the system\<close>

record 'e lf_system =
  ls_q :: "'e bounded_lock_free_queue"
  ls_threads :: "'e lf_pc list"
  ls_close_mutex :: bool
  ls_accepted :: "'e list"
  ls_taken :: "'e list"

fun at_rest :: "'e lf_pc \<Rightarrow> bool" where
  "at_rest L_idle = True"
| "at_rest (L_pushed r) = True"
| "at_rest (L_popped p) = True"
| "at_rest (K_returned n) = True"
| "at_rest _ = False"

fun call_entry :: "'e lf_pc \<Rightarrow> bool" where
  "call_entry (P_entering m c) = (m \<in> {Once, First, Timed})"
| "call_entry (C_entering m) = (m \<in> {Once, First})"
| "call_entry (K_locking d) = True"
| "call_entry _ = False"

fun wake_all :: "channel \<Rightarrow> 'e lf_pc \<Rightarrow> 'e lf_pc" where
  "wake_all ch (L_parked ch' old pc) = (if ch' = ch then L_await ch' old pc else L_parked ch' old pc)"
| "wake_all ch pc = pc"

fun parked_on :: "channel \<Rightarrow> 'e lf_pc \<Rightarrow> bool" where
  "parked_on ch (L_parked ch' old pc) = (ch' = ch)"
| "parked_on ch pc = False"

text \<open>
  \<open>notify_one\<close> releases one parked thread, which compares the epoch again. The stop callback of a
  waiting method advances its epoch and releases all. The gates' own \<open>wait\<close> and \<open>notify_all\<close> are the
  guards of the quiescing moves: every leaving operation notifies all of them.
\<close>

inductive lf_step :: "'e lf_system \<Rightarrow> 'e lf_system \<Rightarrow> bool" where
  call: "t < length (ls_threads s) \<Longrightarrow> at_rest (ls_threads s ! t) \<Longrightarrow> call_entry pc \<Longrightarrow>
    lf_step s (s\<lparr>ls_threads := (ls_threads s)[t := pc]\<rparr>)"
| move: "t < length (ls_threads s) \<Longrightarrow> lf_move stop expired (ls_q s) (ls_threads s ! t) = Some (pc, q) \<Longrightarrow>
    lf_step s (s\<lparr>ls_q := q, ls_threads := (ls_threads s)[t := pc],
      ls_accepted := ls_accepted s @ published_by (ls_q s) (ls_threads s ! t),
      ls_taken := ls_taken s @ taken_by (ls_q s) (ls_threads s ! t) pc\<rparr>)"
| lock: "t < length (ls_threads s) \<Longrightarrow> ls_threads s ! t = K_locking d \<Longrightarrow> \<not> ls_close_mutex s \<Longrightarrow>
    lf_step s (s\<lparr>ls_close_mutex := True, ls_threads := (ls_threads s)[t := K_closing d]\<rparr>)"
| unlock: "t < length (ls_threads s) \<Longrightarrow> ls_threads s ! t = K_unlocking n \<Longrightarrow>
    lf_step s (s\<lparr>ls_close_mutex := False, ls_threads := (ls_threads s)[t := K_returned n]\<rparr>)"
| notify_hit: "t < length (ls_threads s) \<Longrightarrow> ls_threads s ! t = L_notify ch pc \<Longrightarrow>
    u < length (ls_threads s) \<Longrightarrow> ls_threads s ! u = L_parked ch old pc' \<Longrightarrow>
    lf_step s (s\<lparr>ls_threads := (ls_threads s)[t := pc, u := L_await ch old pc']\<rparr>)"
| notify_miss: "t < length (ls_threads s) \<Longrightarrow> ls_threads s ! t = L_notify ch pc \<Longrightarrow>
    \<not> list_ex (parked_on ch) (ls_threads s) \<Longrightarrow>
    lf_step s (s\<lparr>ls_threads := (ls_threads s)[t := pc]\<rparr>)"
| stop_callback:
    "lf_step s (s\<lparr>ls_q := lf_signal ch (ls_q s), ls_threads := map (wake_all ch) (ls_threads s)\<rparr>)"

definition lf_start :: "nat \<Rightarrow> 'e bounded_lock_free_queue \<Rightarrow> 'e lf_system" where
  "lf_start n q = \<lparr>ls_q = q, ls_threads = replicate n L_idle, ls_close_mutex = False, ls_accepted = [],
     ls_taken = []\<rparr>"

inductive lf_reachable :: "nat \<Rightarrow> size_t \<Rightarrow> 'e lf_system \<Rightarrow> bool" for n capacity where
  start: "lf_new capacity = Inr q \<Longrightarrow> lf_reachable n capacity (lf_start n q)"
| step: "lf_reachable n capacity s \<Longrightarrow> lf_step s s' \<Longrightarrow> lf_reachable n capacity s'"

section \<open>Who owns a slot\<close>

text \<open>The indices a thread holds whose slot has no object yet or no more, and those whose slot has one.\<close>

fun raw_indices :: "'e lf_pc \<Rightarrow> size_t list" where
  "raw_indices (P_reserved m c i) = [i]"
| "raw_indices (P_unreserving m c x i) = [i]"
| "raw_indices (C_uncounting m i e) = [i]"
| "raw_indices (C_releasing m i e) = [i]"
| "raw_indices (K_uncounting n i) = [i]"
| "raw_indices (K_recycling n i) = [i]"
| "raw_indices (L_signal ch pc) = raw_indices pc"
| "raw_indices (L_notify ch pc) = raw_indices pc"
| "raw_indices (L_await ch old pc) = raw_indices pc"
| "raw_indices (L_parked ch old pc) = raw_indices pc"
| "raw_indices _ = []"

fun live_indices :: "'e lf_pc \<Rightarrow> size_t list" where
  "live_indices (P_counting m c i) = [i]"
| "live_indices (P_publishing m c i) = [i]"
| "live_indices (C_taking m i) = [i]"
| "live_indices (K_destroying n i) = [i]"
| "live_indices (L_signal ch pc) = live_indices pc"
| "live_indices (L_notify ch pc) = live_indices pc"
| "live_indices (L_await ch old pc) = live_indices pc"
| "live_indices (L_parked ch old pc) = live_indices pc"
| "live_indices _ = []"

definition index_set :: "nat \<Rightarrow> size_t multiset" where
  "index_set k = mset_set {x. unat x < 2 ^ k}"

text \<open>Every index is in exactly one place: a ring, or a thread. A slot has an object exactly when its
  index is published or held live.\<close>

definition slots_owned ::
  "nat \<Rightarrow> 'e bounded_lock_free_queue \<Rightarrow> size_t list \<Rightarrow> size_t list \<Rightarrow> size_t multiset \<Rightarrow> size_t multiset \<Rightarrow> bool" where
  "slots_owned k q av pub R L = (1 \<le> k \<and> k \<le> 61 \<and> scq_holds k av (lf_available_indices q) \<and>
     scq_holds k pub (lf_published_indices q) \<and> length (lf_slots q) = 2 ^ k \<and>
     mset av + mset pub + R + L = index_set k \<and>
     (\<forall>i. unat i < 2 ^ k \<longrightarrow> (lf_slots q ! unat i \<noteq> None) = (i \<in># mset pub + L)))"

lemma index_set_member: "i \<in># index_set k \<Longrightarrow> unat i < 2 ^ k"
  by (auto simp: index_set_def)

lemma index_set_count: "count (index_set k) i \<le> 1"
  by (simp add: index_set_def count_mset_set')

lemma index_set_once: "index_set k = add_mset i M \<Longrightarrow> i \<notin># M \<and> unat i < 2 ^ k"
  using index_set_count [of k i] index_set_member [of i k] by (auto simp: not_in_iff)

lemma index_set_size: "k \<le> 61 \<Longrightarrow> size (index_set k) = 2 ^ k"
  using finite_indices [of k] by (simp add: index_set_def)

lemma slots_owned_fields [simp]:
  "slots_owned k (q\<lparr>lf_producer_gate := g\<rparr>) = slots_owned k q"
  "slots_owned k (q\<lparr>lf_consumer_gate := g\<rparr>) = slots_owned k q"
  "slots_owned k (q\<lparr>lf_producer_quiesced := b\<rparr>) = slots_owned k q"
  "slots_owned k (q\<lparr>lf_occupied_count := n\<rparr>) = slots_owned k q"
  "slots_owned k (lf_leave_producer q) = slots_owned k q"
  "slots_owned k (lf_leave_consumer q) = slots_owned k q"
  "slots_owned k (lf_signal ch q) = slots_owned k q"
  by (cases ch; simp add: fun_eq_iff slots_owned_def lf_update_defs)+

lemma slot_event_fields [simp]:
  "slot_event (q\<lparr>lf_producer_gate := g\<rparr>) = slot_event q"
  "slot_event (q\<lparr>lf_consumer_gate := g\<rparr>) = slot_event q"
  "slot_event (q\<lparr>lf_producer_quiesced := b\<rparr>) = slot_event q"
  "slot_event (q\<lparr>lf_occupied_count := n\<rparr>) = slot_event q"
  "slot_event (q\<lparr>lf_available_indices := r\<rparr>) = slot_event q"
  "slot_event (q\<lparr>lf_published_indices := r\<rparr>) = slot_event q"
  "slot_event (lf_leave_producer q) = slot_event q"
  "slot_event (lf_leave_consumer q) = slot_event q"
  "slot_event (lf_signal ch q) = slot_event q"
  by (cases ch; simp add: fun_eq_iff slot_event_def lf_update_defs)+

lemma take_available:
  assumes "slots_owned k q av pub R L" "scq_try_dequeue (lf_available_indices q) False = Some (idx, r)"
  shows "case idx of
      None \<Rightarrow> slots_owned k (q\<lparr>lf_available_indices := r\<rparr>) av pub R L
    | Some i \<Rightarrow> \<exists>av'. slots_owned k (q\<lparr>lf_available_indices := r\<rparr>) av' pub (add_mset i R) L"
proof -
  have h: "scq_holds k av (lf_available_indices q)" using assms(1) by (simp add: slots_owned_def)
  show ?thesis
  proof (cases av)
    case Nil
    then show ?thesis using assms ring.dequeue_miss [of k "lf_available_indices q"] h by (auto simp: slots_owned_def)
  next
    case (Cons i av')
    then have "idx = Some i" "scq_holds k av' r" using assms(2) ring.dequeue_hit [of k i av'] h by fastforce+
    with assms(1) Cons show ?thesis by (auto simp: slots_owned_def)
  qed
qed

lemma take_published:
  assumes "slots_owned k q av pub R L" "scq_try_dequeue (lf_published_indices q) False = Some (idx, r)"
  shows "case idx of
      None \<Rightarrow> pub = [] \<and> slots_owned k (q\<lparr>lf_published_indices := r\<rparr>) av pub R L
    | Some i \<Rightarrow> \<exists>pub'. pub = i # pub' \<and> slots_owned k (q\<lparr>lf_published_indices := r\<rparr>) av pub' R (add_mset i L)"
proof -
  have h: "scq_holds k pub (lf_published_indices q)" using assms(1) by (simp add: slots_owned_def)
  show ?thesis
  proof (cases pub)
    case Nil
    then show ?thesis using assms ring.dequeue_miss [of k "lf_published_indices q"] h by (auto simp: slots_owned_def)
  next
    case (Cons i pub')
    then have "idx = Some i" "scq_holds k pub' r" using assms(2) ring.dequeue_hit [of k i pub'] h by fastforce+
    with assms(1) Cons show ?thesis by (auto simp: slots_owned_def)
  qed
qed

text \<open>A thread that holds an index finds room for it in either ring.\<close>

lemma ring_room:
  assumes "slots_owned k q av pub R L" "i \<in># R + L"
  shows "length av < 2 ^ k" "length pub < 2 ^ k" "unat i < 2 ^ k"
proof -
  from assms have m: "mset av + mset pub + R + L = index_set k" "k \<le> 61" by (simp_all add: slots_owned_def)
  from arg_cong [OF m(1), of size] index_set_size [OF m(2)]
  have "length av + length pub + size R + size L = 2 ^ k" by simp
  moreover have "0 < size (R + L)" using assms(2) by (metis multi_member_split size_add_mset zero_less_Suc)
  ultimately show "length av < 2 ^ k" "length pub < 2 ^ k" unfolding size_union by linarith+
  have "i \<in># index_set k" unfolding m(1) [symmetric] using assms(2) by auto
  then show "unat i < 2 ^ k" by (rule index_set_member)
qed

lemma give_available:
  assumes "slots_owned k q av pub (add_mset i R) L"
  obtains r where "scq_enqueue (lf_available_indices q) i False = Some r"
    "slots_owned k (q\<lparr>lf_available_indices := r\<rparr>) (av @ [i]) pub R L"
proof -
  note room = ring_room [OF assms, of i]
  have "scq_holds k av (lf_available_indices q)" using assms by (simp add: slots_owned_def)
  then obtain r where "scq_enqueue (lf_available_indices q) i False = Some r" "scq_holds k (av @ [i]) r"
    using ring.enqueue_law [of k av "lf_available_indices q" i] room by auto
  with assms show thesis by (intro that [of r]) (auto simp: slots_owned_def)
qed

lemma give_published:
  assumes "slots_owned k q av pub R (add_mset i L)"
  obtains r where "scq_enqueue (lf_published_indices q) i False = Some r"
    "slots_owned k (q\<lparr>lf_published_indices := r\<rparr>) av (pub @ [i]) R L"
proof -
  note room = ring_room [OF assms, of i]
  have "scq_holds k pub (lf_published_indices q)" using assms by (simp add: slots_owned_def)
  then obtain r where "scq_enqueue (lf_published_indices q) i False = Some r" "scq_holds k (pub @ [i]) r"
    using ring.enqueue_law [of k pub "lf_published_indices q" i] room by auto
  with assms show thesis by (intro that [of r]) (auto simp: slots_owned_def)
qed

lemma construct_owned:
  assumes "slots_owned k q av pub (add_mset i R) L"
  shows "slots_owned k (q\<lparr>lf_slots := (lf_slots q)[unat i := Some e]\<rparr>) av pub R (add_mset i L)"
    "map (slot_event (q\<lparr>lf_slots := (lf_slots q)[unat i := Some e]\<rparr>)) pub = map (slot_event q) pub"
    "lf_slots q ! unat i = None"
proof -
  from assms have m: "index_set k = add_mset i (mset av + mset pub + R + L)" by (simp add: slots_owned_def)
  note once = index_set_once [OF m]
  have u: "(lf_slots q)[unat i := Some e] ! unat j = (if j = i then Some e else lf_slots q ! unat j)" for j
    using once assms by (intro nth_update_word) (simp add: slots_owned_def)
  show "slots_owned k (q\<lparr>lf_slots := (lf_slots q)[unat i := Some e]\<rparr>) av pub R (add_mset i L)"
    using assms once by (auto simp: slots_owned_def u)
  show "map (slot_event (q\<lparr>lf_slots := (lf_slots q)[unat i := Some e]\<rparr>)) pub = map (slot_event q) pub"
    using once by (auto simp: slot_event_def u)
  show "lf_slots q ! unat i = None" using assms once by (auto simp: slots_owned_def)
qed

lemma destroy_owned:
  assumes "slots_owned k q av pub R (add_mset i L)"
  shows "slots_owned k (q\<lparr>lf_slots := (lf_slots q)[unat i := None]\<rparr>) av pub (add_mset i R) L"
    "map (slot_event (q\<lparr>lf_slots := (lf_slots q)[unat i := None]\<rparr>)) pub = map (slot_event q) pub"
    "lf_slots q ! unat i \<noteq> None"
proof -
  from assms have m: "index_set k = add_mset i (mset av + mset pub + R + L)" by (simp add: slots_owned_def)
  note once = index_set_once [OF m]
  have u: "(lf_slots q)[unat i := None] ! unat j = (if j = i then None else lf_slots q ! unat j)" for j
    using once assms by (intro nth_update_word) (simp add: slots_owned_def)
  show "slots_owned k (q\<lparr>lf_slots := (lf_slots q)[unat i := None]\<rparr>) av pub (add_mset i R) L"
    using assms once by (auto simp: slots_owned_def u)
  show "map (slot_event (q\<lparr>lf_slots := (lf_slots q)[unat i := None]\<rparr>)) pub = map (slot_event q) pub"
    using once by (auto simp: slot_event_def u)
  show "lf_slots q ! unat i \<noteq> None" using assms once by (auto simp: slots_owned_def)
qed

lemma continue_indices [simp]:
  "raw_indices (push_continue stop expired m c r) = []" "live_indices (push_continue stop expired m c r) = []"
  "raw_indices (pop_continue stop m p) = []" "live_indices (pop_continue stop m p) = []"
  by (cases m; simp)+

text \<open>One move of a thread, the others holding \<open>R\<close> and \<open>L\<close>.\<close>

definition move_keeps ::
  "nat \<Rightarrow> 'e bounded_lock_free_queue \<Rightarrow> size_t list \<Rightarrow> size_t multiset \<Rightarrow> size_t multiset \<Rightarrow>
   'e lf_pc \<Rightarrow> 'e lf_pc \<Rightarrow> 'e bounded_lock_free_queue \<Rightarrow> bool" where
  "move_keeps k q pub R L pc pc' q' = (\<exists>av' pub'.
     slots_owned k q' av' pub' (R + mset (raw_indices pc')) (L + mset (live_indices pc')) \<and>
     map (slot_event q) pub @ published_by q pc = taken_by q pc pc' @ map (slot_event q') pub')"

lemma move_keepsI:
  "slots_owned k q' av' pub' (R + mset (raw_indices pc')) (L + mset (live_indices pc')) \<Longrightarrow>
   map (slot_event q) pub @ published_by q pc = taken_by q pc pc' @ map (slot_event q') pub' \<Longrightarrow>
   move_keeps k q pub R L pc pc' q'"
  by (auto simp: move_keeps_def)

lemma move_owned:
  assumes own: "slots_owned k q av pub (R + mset (raw_indices pc)) (L + mset (live_indices pc))"
    and move: "lf_move stop expired q pc = Some (pc', q')"
  shows "move_keeps k q pub R L pc pc' q'"
proof (cases pc)
  case (P_inside m c)
  with move obtain idx r where d: "scq_try_dequeue (lf_available_indices q) False = Some (idx, r)"
    "pc' = (case idx of None \<Rightarrow> P_leaving m c (Inr full, False) | Some i \<Rightarrow> P_reserved m c i)"
    "q' = q\<lparr>lf_available_indices := r\<rparr>" by (auto split: option.splits)
  from take_available [OF own d(1)] P_inside d(2,3) show ?thesis
    by (cases idx) (auto simp: taken_by_def intro: move_keepsI)
next
  case (P_reserved m c i)
  with own have o: "slots_owned k q av pub (add_mset i R) L" by simp
  show ?thesis
  proof (cases c)
    case (Inr e)
    with move P_reserved construct_owned(1,2) [OF o, of e] show ?thesis
      by (auto simp: taken_by_def intro!: move_keepsI)
  qed (use move P_reserved o in \<open>auto simp: taken_by_def intro!: move_keepsI\<close>)
next
  case (P_publishing m c i)
  with own have o: "slots_owned k q av pub R (add_mset i L)" by simp
  obtain r where "scq_enqueue (lf_published_indices q) i False = Some r"
    "slots_owned k (q\<lparr>lf_published_indices := r\<rparr>) av (pub @ [i]) R L"
    using give_published [OF o] .
  with move P_publishing show ?thesis by (auto simp: taken_by_def intro!: move_keepsI)
next
  case (P_unreserving m c x i)
  with own have o: "slots_owned k q av pub (add_mset i R) L" by simp
  obtain r where "scq_enqueue (lf_available_indices q) i False = Some r"
    "slots_owned k (q\<lparr>lf_available_indices := r\<rparr>) (av @ [i]) pub R L"
    using give_available [OF o] .
  with move P_unreserving show ?thesis by (auto simp: taken_by_def intro!: move_keepsI)
next
  case (C_inside m)
  with move obtain idx r where d: "scq_try_dequeue (lf_published_indices q) False = Some (idx, r)"
    "pc' = (case idx of None \<Rightarrow> C_missed m | Some i \<Rightarrow> C_taking m i)"
    "q' = q\<lparr>lf_published_indices := r\<rparr>" by (auto split: option.splits)
  from take_published [OF own d(1)] C_inside d(2,3) show ?thesis
    by (cases idx) (auto simp: taken_by_def intro: move_keepsI)
next
  case (C_taking m i)
  with own have o: "slots_owned k q av pub R (add_mset i L)" by simp
  from destroy_owned [OF o] move C_taking show ?thesis
    by (auto simp: taken_by_def intro!: move_keepsI split: option.splits)
next
  case (C_releasing m i e)
  with own have o: "slots_owned k q av pub (add_mset i R) L" by simp
  obtain r where "scq_enqueue (lf_available_indices q) i False = Some r"
    "slots_owned k (q\<lparr>lf_available_indices := r\<rparr>) (av @ [i]) pub R L"
    using give_available [OF o] .
  with move C_releasing show ?thesis by (auto simp: taken_by_def intro!: move_keepsI)
next
  case (K_discarding n)
  with move obtain idx r where d: "scq_try_dequeue (lf_published_indices q) False = Some (idx, r)"
    "pc' = (case idx of None \<Rightarrow> L_signal Data (L_signal Capacity (K_unlocking n)) | Some i \<Rightarrow> K_destroying n i)"
    "q' = q\<lparr>lf_published_indices := r\<rparr>" by (auto split: option.splits)
  from take_published [OF own d(1)] K_discarding d(2,3) show ?thesis
    by (cases idx) (auto simp: taken_by_def intro: move_keepsI)
next
  case (K_destroying n i)
  with own have o: "slots_owned k q av pub R (add_mset i L)" by simp
  from destroy_owned [OF o] move K_destroying show ?thesis
    by (auto simp: taken_by_def intro!: move_keepsI split: option.splits)
next
  case (K_recycling n i)
  with own have o: "slots_owned k q av pub (add_mset i R) L" by simp
  obtain r where "scq_enqueue (lf_available_indices q) i False = Some r"
    "slots_owned k (q\<lparr>lf_available_indices := r\<rparr>) (av @ [i]) pub R L"
    using give_available [OF o] .
  with move K_recycling show ?thesis by (auto simp: taken_by_def intro!: move_keepsI)
qed (use own move in \<open>auto simp: taken_by_def intro!: move_keepsI split: guard_outcome.splits if_splits\<close>)

text \<open>Where a thread waits for another one.\<close>

fun waits :: "'e bounded_lock_free_queue \<Rightarrow> 'e lf_pc \<Rightarrow> bool" where
  "waits q (K_locking d) = True"
| "waits q (K_unlocking n) = True"
| "waits q (K_quiescing d) = (lf_producer_gate q AND active_mask \<noteq> 0)"
| "waits q K_quiescing_consumers = (lf_consumer_gate q AND active_mask \<noteq> 0)"
| "waits q (L_notify ch pc) = True"
| "waits q (L_parked ch old pc) = True"
| "waits q pc = False"

lemma move_possible:
  assumes own: "slots_owned k q av pub (R + mset (raw_indices pc)) (L + mset (live_indices pc))"
    and run: "\<not> at_rest pc" "pc \<noteq> L_terminated" "\<not> waits q pc"
  shows "lf_move stop expired q pc \<noteq> None"
proof -
  have h: "scq_holds k av (lf_available_indices q)" "scq_holds k pub (lf_published_indices q)"
    using own by (simp_all add: slots_owned_def)
  obtain r1 r2 where deq: "scq_try_dequeue (lf_available_indices q) False = Some (case av of [] \<Rightarrow> None | x # _ \<Rightarrow> Some x, r1)"
    "scq_try_dequeue (lf_published_indices q) False = Some (case pub of [] \<Rightarrow> None | x # _ \<Rightarrow> Some x, r2)"
    using ring.dequeue_law [OF h(1)] ring.dequeue_law [OF h(2)] by metis
  show ?thesis
  proof (cases pc)
    case (P_publishing m c i)
    with own give_published [of k q av pub R i L] show ?thesis by fastforce
  next
    case (P_unreserving m c x i)
    with own give_available [of k q av pub i R L] show ?thesis by fastforce
  next
    case (C_releasing m i e)
    with own give_available [of k q av pub i R L] show ?thesis by fastforce
  next
    case (K_recycling n i)
    with own give_available [of k q av pub i R L] show ?thesis by fastforce
  next
    case (C_taking m i)
    with own destroy_owned(3) [of k q av pub R i L] show ?thesis by auto
  next
    case (K_destroying n i)
    with own destroy_owned(3) [of k q av pub R i L] show ?thesis by auto
  qed (use run deq in \<open>auto split: sum.splits guard_outcome.splits list.splits\<close>)
qed

section \<open>Gates and phases of closing\<close>

text \<open>A gate word: the number of operations inside, and the closed bit.\<close>

definition gate_word :: "nat \<Rightarrow> bool \<Rightarrow> size_t" where
  "gate_word n c = of_nat n OR (if c then closed_bit else 0)"

lemma closed_bit_bit: "bit closed_bit i = (i = 63)"
  unfolding closed_bit_def bit_push_bit_iff by (auto simp: bit_1_iff)

lemma active_mask_bit: "bit active_mask i = (i < 63)"
proof -
  have m: "active_mask = mask 63" by (simp add: active_mask_def closed_bit_def mask_eq_exp_minus_1)
  show ?thesis unfolding m bit_mask_iff by auto
qed

lemma no_high_bit: "n < 2 ^ 63 \<Longrightarrow> \<not> bit (n :: nat) 63"
  by (simp add: bit_iff_odd)

lemma gate_word_bits:
  assumes "n < 2 ^ 63"
  shows "gate_word n c AND closed_bit = (if c then closed_bit else 0)" "gate_word n c AND active_mask = of_nat n"
    "gate_word n c OR closed_bit = gate_word n True"
proof -
  have high: "i < 63" if "i < 64" "bit n i" for i
    using no_high_bit [OF assms] that by (cases "i = 63") auto
  show "gate_word n c AND closed_bit = (if c then closed_bit else 0)" "gate_word n c AND active_mask = of_nat n"
    "gate_word n c OR closed_bit = gate_word n True"
    using high no_high_bit [OF assms]
    by (auto intro!: bit_word_eqI simp: gate_word_def bit_simps closed_bit_bit active_mask_bit)
qed

lemma gate_word_sum:
  assumes "n < 2 ^ 63"
  shows "gate_word n c = of_nat n + (if c then closed_bit else 0)"
proof -
  have "of_nat n AND (if c then closed_bit else 0) = (0 :: size_t)"
    using no_high_bit [OF assms] by (auto intro!: bit_word_eqI simp: bit_simps closed_bit_bit)
  then show ?thesis unfolding gate_word_def by (simp add: disjunctive_add_eq_or)
qed

lemma closed_bit_nonzero: "closed_bit \<noteq> 0"
  by (simp add: closed_bit_def)

lemma gate_enter_word:
  assumes "n < 2 ^ 63 - 1"
  shows "guard_enter (gate_word n c) = (if c then Refused else Entered (gate_word (Suc n) False))"
proof -
  have n: "n < 2 ^ 63" "Suc n < 2 ^ 63" using assms by simp_all
  have "(of_nat n :: size_t) \<noteq> active_mask"
  proof
    assume "(of_nat n :: size_t) = active_mask"
    then have "unat (of_nat n :: size_t) = unat active_mask" by simp
    moreover have "unat active_mask = 2 ^ 63 - 1" by (simp add: active_mask_def closed_bit_def)
    ultimately show False using assms unat_of_nat_small [of n] by simp
  qed
  then have "guard_enter (gate_word n c) = (if c then Refused else Entered (gate_word n c + 1))"
    using gate_word_bits(1,2) [OF n(1), of c] by (cases c) (simp_all add: guard_enter_def closed_bit_nonzero)
  moreover have "gate_word n False + 1 = gate_word (Suc n) False" using n by (simp add: gate_word_sum)
  ultimately show ?thesis by simp
qed

lemma gate_leave_word: "Suc n < 2 ^ 63 \<Longrightarrow> guard_leave (gate_word (Suc n) c) = gate_word n c"
  by (simp add: guard_leave_def gate_word_sum)

text \<open>The operations inside a gate.\<close>

fun in_producer_gate :: "'e lf_pc \<Rightarrow> nat" where
  "in_producer_gate (P_inside m c) = 1"
| "in_producer_gate (P_reserved m c i) = 1"
| "in_producer_gate (P_counting m c i) = 1"
| "in_producer_gate (P_publishing m c i) = 1"
| "in_producer_gate (P_unreserving m c x i) = 1"
| "in_producer_gate (P_leaving m c r) = 1"
| "in_producer_gate (L_signal ch pc) = in_producer_gate pc"
| "in_producer_gate (L_notify ch pc) = in_producer_gate pc"
| "in_producer_gate (L_await ch old pc) = in_producer_gate pc"
| "in_producer_gate (L_parked ch old pc) = in_producer_gate pc"
| "in_producer_gate _ = 0"

fun in_consumer_gate :: "'e lf_pc \<Rightarrow> nat" where
  "in_consumer_gate (C_inside m) = 1"
| "in_consumer_gate (C_missed m) = 1"
| "in_consumer_gate (C_taking m i) = 1"
| "in_consumer_gate (C_uncounting m i e) = 1"
| "in_consumer_gate (C_releasing m i e) = 1"
| "in_consumer_gate (C_leaving m p) = 1"
| "in_consumer_gate (L_signal ch pc) = in_consumer_gate pc"
| "in_consumer_gate (L_notify ch pc) = in_consumer_gate pc"
| "in_consumer_gate (L_await ch old pc) = in_consumer_gate pc"
| "in_consumer_gate (L_parked ch old pc) = in_consumer_gate pc"
| "in_consumer_gate _ = 0"

lemma continue_gates [simp]:
  "in_producer_gate (push_continue stop expired m c r) = 0" "in_consumer_gate (push_continue stop expired m c r) = 0"
  "in_producer_gate (pop_continue stop m p) = 0" "in_consumer_gate (pop_continue stop m p) = 0"
  by (cases m; simp)+

lemma in_gate_le: "in_producer_gate pc \<le> 1" "in_consumer_gate pc \<le> 1"
  by (induction pc) simp_all

text \<open>\<open>np\<close> operations in the producer gate and \<open>nc\<close> in the consumer gate, which are closed or not.\<close>

definition gates_ok :: "'e bounded_lock_free_queue \<Rightarrow> nat \<Rightarrow> nat \<Rightarrow> bool \<Rightarrow> bool \<Rightarrow> bool" where
  "gates_ok q np nc pclosed cclosed =
     (lf_producer_gate q = gate_word np pclosed \<and> lf_consumer_gate q = gate_word nc cclosed)"

text \<open>What a closing thread has established at each point; no thread runs into \<open>std::terminate\<close>.\<close>

fun phase_ok :: "bool \<Rightarrow> nat \<Rightarrow> bool \<Rightarrow> nat \<Rightarrow> 'e lf_pc \<Rightarrow> bool" where
  "phase_ok pclosed np cclosed nc (K_quiescing d) = pclosed"
| "phase_ok pclosed np cclosed nc (K_storing d) = (pclosed \<and> np = 0)"
| "phase_ok pclosed np cclosed nc K_quiescing_consumers = cclosed"
| "phase_ok pclosed np cclosed nc (K_discarding n) = (cclosed \<and> nc = 0)"
| "phase_ok pclosed np cclosed nc (K_destroying n i) = (cclosed \<and> nc = 0)"
| "phase_ok pclosed np cclosed nc (K_uncounting n i) = (cclosed \<and> nc = 0)"
| "phase_ok pclosed np cclosed nc (K_recycling n i) = (cclosed \<and> nc = 0)"
| "phase_ok pclosed np cclosed nc L_terminated = False"
| "phase_ok pclosed np cclosed nc (L_signal ch pc) = phase_ok pclosed np cclosed nc pc"
| "phase_ok pclosed np cclosed nc (L_notify ch pc) = phase_ok pclosed np cclosed nc pc"
| "phase_ok pclosed np cclosed nc (L_await ch old pc) = phase_ok pclosed np cclosed nc pc"
| "phase_ok pclosed np cclosed nc (L_parked ch old pc) = phase_ok pclosed np cclosed nc pc"
| "phase_ok pclosed np cclosed nc _ = True"

lemma continue_phase [simp]:
  "phase_ok pclosed np cclosed nc (push_continue stop expired m c r)"
  "phase_ok pclosed np cclosed nc (pop_continue stop m p)"
  by (cases m; simp)+

lemma phase_ok_mono:
  "phase_ok a np b nc pc \<Longrightarrow> (a \<longrightarrow> a' \<and> np' \<le> np) \<Longrightarrow> (b \<longrightarrow> b' \<and> nc' \<le> nc) \<Longrightarrow> phase_ok a' np' b' nc' pc"
  by (induction pc) auto

text \<open>The moves that touch a gate word or the quiesced flag, and what all others keep.\<close>

fun gate_move :: "'e lf_pc \<Rightarrow> bool" where
  "gate_move (P_entering m c) = True"
| "gate_move (P_leaving m c r) = True"
| "gate_move (C_entering m) = True"
| "gate_move (C_leaving m p) = True"
| "gate_move (K_closing d) = True"
| "gate_move (K_quiescing d) = True"
| "gate_move (K_storing d) = True"
| "gate_move K_closing_consumers = True"
| "gate_move K_quiescing_consumers = True"
| "gate_move _ = False"

lemma signal_fields [simp]:
  "lf_producer_gate (lf_signal ch q) = lf_producer_gate q" "lf_consumer_gate (lf_signal ch q) = lf_consumer_gate q"
  "lf_producer_quiesced (lf_signal ch q) = lf_producer_quiesced q"
  "lf_occupied_count (lf_signal ch q) = lf_occupied_count q"
  by (cases ch; simp add: lf_update_defs)+

lemma inert_move:
  assumes "lf_move stop expired q pc = Some (pc', q')" "\<not> gate_move pc"
  shows "lf_producer_gate q' = lf_producer_gate q \<and> lf_consumer_gate q' = lf_consumer_gate q \<and>
    lf_producer_quiesced q' = lf_producer_quiesced q \<and> in_producer_gate pc' = in_producer_gate pc \<and>
    in_consumer_gate pc' = in_consumer_gate pc"
    "phase_ok a np b nc pc \<Longrightarrow> phase_ok a np b nc pc'"
  using assms by (cases pc; auto split: option.splits sum.splits if_splits)+

text \<open>A move changes the gate words as it changes what is inside; a closed gate stays closed and lets
  nobody in.\<close>

lemma move_gates:
  assumes g: "gates_ok q (np + in_producer_gate pc) (nc + in_consumer_gate pc) a b"
    and small: "Suc np < 2 ^ 63" "Suc nc < 2 ^ 63"
    and phase: "phase_ok a (np + in_producer_gate pc) b (nc + in_consumer_gate pc) pc"
    and quiesced: "lf_producer_quiesced q \<longrightarrow> a \<and> np + in_producer_gate pc = 0"
    and move: "lf_move stop expired q pc = Some (pc', q')"
  shows "\<exists>a' b'. gates_ok q' (np + in_producer_gate pc') (nc + in_consumer_gate pc') a' b' \<and>
    (a \<longrightarrow> a' \<and> in_producer_gate pc' \<le> in_producer_gate pc) \<and>
    (b \<longrightarrow> b' \<and> in_consumer_gate pc' \<le> in_consumer_gate pc) \<and>
    phase_ok a' (np + in_producer_gate pc') b' (nc + in_consumer_gate pc') pc' \<and>
    (lf_producer_quiesced q' \<longrightarrow> a' \<and> np + in_producer_gate pc' = 0) \<and> 
    (lf_producer_quiesced q \<longrightarrow> lf_producer_quiesced q')"
proof (cases "gate_move pc")
  case False
  note same = inert_move(1) [OF move False]
  have "phase_ok a (np + in_producer_gate pc') b (nc + in_consumer_gate pc') pc'"
    using inert_move(2) [OF move False phase] same by simp
  with same g quiesced show ?thesis by (intro exI [of _ a] exI [of _ b]) (simp add: gates_ok_def)
next
  case gate: True
  show ?thesis
  proof (cases pc)
    case (P_entering m c)
    with g move small gate_enter_word [of np a] show ?thesis
      using phase quiesced by (intro exI [of _ a] exI [of _ b]) (auto simp: gates_ok_def split: if_splits)
  next
    case (C_entering m)
    with g move small gate_enter_word [of nc b] show ?thesis
      using phase quiesced by (intro exI [of _ a] exI [of _ b]) (auto simp: gates_ok_def split: if_splits)
  next
    case (P_leaving m c r)
    with g move small gate_leave_word [of np a] show ?thesis
      using phase quiesced by (intro exI [of _ a] exI [of _ b]) (auto simp: gates_ok_def lf_leave_producer_def)
  next
    case (C_leaving m c)
    with g move small gate_leave_word [of nc b] show ?thesis
      using phase quiesced by (intro exI [of _ a] exI [of _ b]) (auto simp: gates_ok_def lf_leave_consumer_def)
  next
    case (K_closing d)
    with g move small gate_word_bits(3) [of np a] show ?thesis
      using phase quiesced by (intro exI [of _ True] exI [of _ b]) (auto simp: gates_ok_def)
  next
    case K_closing_consumers
    with g move small gate_word_bits(3) [of nc b] show ?thesis
      using phase quiesced by (intro exI [of _ a] exI [of _ True]) (auto simp: gates_ok_def)
  next
    case (K_quiescing d)
    have "np = 0" if "(of_nat np :: size_t) = 0" using that small(1) unat_of_nat_small [of np] by simp
    with K_quiescing g move small gate_word_bits(2) [of np a] show ?thesis
      using phase quiesced by (intro exI [of _ a] exI [of _ b]) (auto simp: gates_ok_def split: if_splits)
  next
    case K_quiescing_consumers
    have "nc = 0" if "(of_nat nc :: size_t) = 0" using that small(2) unat_of_nat_small [of nc] by simp
    with K_quiescing_consumers g move small gate_word_bits(2) [of nc b] show ?thesis
      using phase quiesced by (intro exI [of _ a] exI [of _ b]) (auto simp: gates_ok_def split: if_splits)
  next
    case (K_storing d)
    with assms show ?thesis by (intro exI [of _ a] exI [of _ b]) (auto simp: gates_ok_def)
  qed (use gate in simp_all)
qed

section \<open>The invariant of the system\<close>

definition owned_ok :: "nat \<Rightarrow> 'e lf_system \<Rightarrow> bool" where
  "owned_ok k s = (\<exists>av pub.
     slots_owned k (ls_q s) av pub (gather raw_indices (ls_threads s)) (gather live_indices (ls_threads s)) \<and>
     ls_accepted s = ls_taken s @ map (slot_event (ls_q s)) pub)"

definition closing_gates_ok :: "'e lf_system \<Rightarrow> bool" where
  "closing_gates_ok s = (\<exists>a b.
     gates_ok (ls_q s) (tally in_producer_gate (ls_threads s)) (tally in_consumer_gate (ls_threads s)) a b \<and>
     list_all (phase_ok a (tally in_producer_gate (ls_threads s)) b (tally in_consumer_gate (ls_threads s)))
       (ls_threads s) \<and>
     (lf_producer_quiesced (ls_q s) \<longrightarrow> a \<and> tally in_producer_gate (ls_threads s) = 0))"

text \<open>The threads that are counted as occupying a slot beyond the published ones.\<close>

fun occupying :: "'e lf_pc \<Rightarrow> nat" where
  "occupying (P_publishing m c i) = 1"
| "occupying (C_taking m i) = 1"
| "occupying (C_uncounting m i e) = 1"
| "occupying (K_destroying n i) = 1"
| "occupying (K_uncounting n i) = 1"
| "occupying (L_signal ch pc) = occupying pc"
| "occupying (L_notify ch pc) = occupying pc"
| "occupying (L_await ch old pc) = occupying pc"
| "occupying (L_parked ch old pc) = occupying pc"
| "occupying _ = 0"

definition occupied_ok :: "'e lf_system \<Rightarrow> bool" where
  "occupied_ok s = (lf_occupied_count (ls_q s) + of_nat (length (ls_taken s)) =
     of_nat (length (ls_accepted s)) + of_nat (tally occupying (ls_threads s)))"

lemma rest_indices [simp]:
  "at_rest pc \<Longrightarrow> raw_indices pc = []" "at_rest pc \<Longrightarrow> live_indices pc = []" "at_rest pc \<Longrightarrow> in_producer_gate pc = 0"
  "at_rest pc \<Longrightarrow> in_consumer_gate pc = 0" "at_rest pc \<Longrightarrow> occupying pc = 0" "at_rest pc \<Longrightarrow> pc \<noteq> L_terminated"
  by (cases pc; simp)+

lemma entry_indices [simp]:
  "call_entry pc \<Longrightarrow> raw_indices pc = []" "call_entry pc \<Longrightarrow> live_indices pc = []" "call_entry pc \<Longrightarrow> in_producer_gate pc = 0"
  "call_entry pc \<Longrightarrow> in_consumer_gate pc = 0" "call_entry pc \<Longrightarrow> occupying pc = 0" "call_entry pc \<Longrightarrow> phase_ok a np b nc pc"
  "call_entry pc \<Longrightarrow> pc \<noteq> L_terminated"
  by (cases pc; simp)+

lemma wake_all_indices [simp]:
  "raw_indices (wake_all ch pc) = raw_indices pc" "live_indices (wake_all ch pc) = live_indices pc"
  "in_producer_gate (wake_all ch pc) = in_producer_gate pc" "in_consumer_gate (wake_all ch pc) = in_consumer_gate pc"
  "occupying (wake_all ch pc) = occupying pc" "phase_ok a np b nc (wake_all ch pc) = phase_ok a np b nc pc"
  "(wake_all ch pc = L_terminated) = (pc = L_terminated)"
  by (cases pc; simp)+

lemma tally_wake_all: "(\<And>pc. f (wake_all ch pc) = f pc) \<Longrightarrow> tally f (map (wake_all ch) ts) = tally f ts"
  by (simp add: tally_def comp_def)

lemma owned_step:
  assumes "lf_step s s'" "owned_ok k s"
  shows "owned_ok k s'"
  using assms(1)
proof (cases rule: lf_step.cases)
  case (move t stop expired pc q)
  from assms(2) obtain av pub where o: "slots_owned k (ls_q s) av pub (gather raw_indices (ls_threads s))
      (gather live_indices (ls_threads s))" "ls_accepted s = ls_taken s @ map (slot_event (ls_q s)) pub"
    by (auto simp: owned_ok_def)
  obtain R where R: "gather raw_indices (ls_threads s) = R + mset (raw_indices (ls_threads s ! t))"
    "\<And>y. gather raw_indices ((ls_threads s)[t := y]) = R + mset (raw_indices y)"
    using gather_split [OF move(2), of raw_indices] by blast
  obtain L where L: "gather live_indices (ls_threads s) = L + mset (live_indices (ls_threads s ! t))"
    "\<And>y. gather live_indices ((ls_threads s)[t := y]) = L + mset (live_indices y)"
    using gather_split [OF move(2), of live_indices] by blast
  from move_owned [OF o(1) [unfolded R(1) L(1)] move(3)] obtain av' pub' where
    "slots_owned k q av' pub' (R + mset (raw_indices pc)) (L + mset (live_indices pc))"
    "map (slot_event (ls_q s)) pub @ published_by (ls_q s) (ls_threads s ! t) =
      taken_by (ls_q s) (ls_threads s ! t) pc @ map (slot_event q) pub'"
    by (auto simp: move_keeps_def)
  with move(1) o(2) R(2) L(2) show ?thesis by (auto simp: owned_ok_def)
next
  case (notify_hit t ch pc u old pc')
  then have "t \<noteq> u" by auto
  with notify_hit assms(2) show ?thesis by (simp add: owned_ok_def gather_keep)
qed (use assms(2) in \<open>simp_all add: owned_ok_def gather_keep gather_map\<close>)

lemma tally_gate_le: "tally in_producer_gate ts \<le> length ts" "tally in_consumer_gate ts \<le> length ts"
  by (rule tally_le, rule in_gate_le)+

lemma gates_keep:
  assumes "closing_gates_ok s" "t < length (ls_threads s)" "in_producer_gate pc = in_producer_gate (ls_threads s ! t)"
    "in_consumer_gate pc = in_consumer_gate (ls_threads s ! t)"
    "\<And>a np b nc. phase_ok a np b nc (ls_threads s ! t) \<Longrightarrow> phase_ok a np b nc pc"
  shows "closing_gates_ok (s\<lparr>ls_threads := (ls_threads s)[t := pc]\<rparr>)"
proof -
  from assms(1) obtain a b where ab: "gates_ok (ls_q s) (tally in_producer_gate (ls_threads s)) (tally in_consumer_gate (ls_threads s)) a b"
    "list_all (phase_ok a (tally in_producer_gate (ls_threads s)) b (tally in_consumer_gate (ls_threads s))) (ls_threads s)"
    "lf_producer_quiesced (ls_q s) \<longrightarrow> a \<and> tally in_producer_gate (ls_threads s) = 0"
    by (auto simp: closing_gates_ok_def)
  have t: "tally in_producer_gate ((ls_threads s)[t := pc]) = tally in_producer_gate (ls_threads s)"
    "tally in_consumer_gate ((ls_threads s)[t := pc]) = tally in_consumer_gate (ls_threads s)"
    using assms(2-4) by (simp_all add: tally_keep)
  have "list_all (phase_ok a (tally in_producer_gate (ls_threads s)) b (tally in_consumer_gate (ls_threads s)))
      ((ls_threads s)[t := pc])"
    using ab(2) assms(2,5) by (simp add: list_all_length nth_list_update)
  with ab t show ?thesis unfolding closing_gates_ok_def by auto
qed

lemma gates_step:
  assumes "lf_step s s'" "closing_gates_ok s" "length (ls_threads s) < 2 ^ 63"
  shows "closing_gates_ok s'"
  using assms(1)
proof (cases rule: lf_step.cases)
  case (move t stop expired pc q)
  from assms(2) obtain a b where ab: "gates_ok (ls_q s) (tally in_producer_gate (ls_threads s)) (tally in_consumer_gate (ls_threads s)) a b"
    "list_all (phase_ok a (tally in_producer_gate (ls_threads s)) b (tally in_consumer_gate (ls_threads s))) (ls_threads s)"
    "lf_producer_quiesced (ls_q s) \<longrightarrow> a \<and> tally in_producer_gate (ls_threads s) = 0"
    by (auto simp: closing_gates_ok_def)
  obtain np where np: "tally in_producer_gate (ls_threads s) = np + in_producer_gate (ls_threads s ! t)"
    "\<And>y. tally in_producer_gate ((ls_threads s)[t := y]) = np + in_producer_gate y"
    using tally_split [OF move(2), of in_producer_gate] by blast
  obtain nc where nc: "tally in_consumer_gate (ls_threads s) = nc + in_consumer_gate (ls_threads s ! t)"
    "\<And>y. tally in_consumer_gate ((ls_threads s)[t := y]) = nc + in_consumer_gate y"
    using tally_split [OF move(2), of in_consumer_gate] by blast
  have "Suc np < 2 ^ 63" "Suc nc < 2 ^ 63"
    using np(2) [of "P_inside Once (Inl Bad_optional_access)"] nc(2) [of "C_inside Once"]
      tally_gate_le(1) [of "(ls_threads s)[t := P_inside Once (Inl Bad_optional_access)]"]
      tally_gate_le(2) [of "(ls_threads s)[t := C_inside Once]"] assms(3) by simp_all
  moreover have "phase_ok a (np + in_producer_gate (ls_threads s ! t)) b (nc + in_consumer_gate (ls_threads s ! t)) (ls_threads s ! t)"
    using ab(2) move(2) np(1) nc(1) by (simp add: list_all_length)
  ultimately obtain a' b' where g: "gates_ok q (np + in_producer_gate pc) (nc + in_consumer_gate pc) a' b'"
    "a \<longrightarrow> a' \<and> in_producer_gate pc \<le> in_producer_gate (ls_threads s ! t)"
    "b \<longrightarrow> b' \<and> in_consumer_gate pc \<le> in_consumer_gate (ls_threads s ! t)"
    "phase_ok a' (np + in_producer_gate pc) b' (nc + in_consumer_gate pc) pc"
    "lf_producer_quiesced q \<longrightarrow> a' \<and> np + in_producer_gate pc = 0"
    using move_gates [OF ab(1) [unfolded np(1) nc(1)] _ _ _ ab(3) [unfolded np(1)] move(3)] by blast
  have "phase_ok a' (np + in_producer_gate pc) b' (nc + in_consumer_gate pc) ((ls_threads s)[t := pc] ! u)"
    if "u < length (ls_threads s)" for u
  proof (cases "u = t")
    case False
    have "phase_ok a (np + in_producer_gate (ls_threads s ! t)) b (nc + in_consumer_gate (ls_threads s ! t)) (ls_threads s ! u)"
      using ab(2) that np(1) nc(1) by (simp add: list_all_length)
    from phase_ok_mono [OF this, of a' "np + in_producer_gate pc" b' "nc + in_consumer_gate pc"] g(2,3) False
    show ?thesis by simp
  qed (use g(4) that in simp)
  then have "list_all (phase_ok a' (np + in_producer_gate pc) b' (nc + in_consumer_gate pc)) ((ls_threads s)[t := pc])"
    by (simp add: list_all_length)
  with g(1,5) np(2) nc(2) move(1) show ?thesis unfolding closing_gates_ok_def by auto
next
  case (call t pc)
  then show ?thesis using gates_keep [OF assms(2) call(2), of pc] by simp
next
  case (lock t d)
  then show ?thesis using gates_keep [OF assms(2) lock(2), of "K_closing d"] by (simp add: closing_gates_ok_def)
next
  case (unlock t n)
  then show ?thesis using gates_keep [OF assms(2) unlock(2), of "K_returned n"] by (simp add: closing_gates_ok_def)
next
  case (notify_hit t ch pc u old pc')
  then have tu: "t \<noteq> u" by auto
  let ?s = "s\<lparr>ls_threads := (ls_threads s)[t := pc]\<rparr>"
  have "closing_gates_ok ?s" using gates_keep [OF assms(2) notify_hit(2), of pc] notify_hit(3) by simp
  from gates_keep [OF this, of u "L_await ch old pc'"] notify_hit tu show ?thesis by simp
next
  case (notify_miss t ch pc)
  then show ?thesis using gates_keep [OF assms(2) notify_miss(2), of pc] by simp
next
  case (stop_callback ch)
  then show ?thesis using assms(2) by (simp add: closing_gates_ok_def gates_ok_def tally_wake_all list.pred_map comp_def)
qed

lemma continue_occupying [simp]:
  "occupying (push_continue stop expired m c r) = 0" "occupying (pop_continue stop m p) = 0"
  by (cases m; simp)+

lemma move_occupying:
  assumes "lf_move stop expired q pc = Some (pc', q')"
  shows "lf_occupied_count q' + of_nat (length (taken_by q pc pc')) + of_nat (occupying pc) =
    lf_occupied_count q + of_nat (length (published_by q pc)) + of_nat (occupying pc')"
  using assms
  by (cases pc) (auto simp: taken_by_def lf_leave_producer_def lf_leave_consumer_def
      split: option.splits sum.splits if_splits guard_outcome.splits)

lemma balance_step:
  fixes a :: "'a :: comm_ring_1"
  assumes "a' + t + old = a + p + new" "a + T = A + Y"
  shows "a' + (T + t) = A + p + (Y + new - old)"
proof -
  have "a' = a + p + new - t - old" using assms(1) by (simp add: algebra_simps)
  moreover have "T = A + Y - a" using assms(2) by (simp add: algebra_simps)
  ultimately show ?thesis by simp
qed

lemma occupied_step:
  assumes "lf_step s s'" "occupied_ok s"
  shows "occupied_ok s'"
  using assms(1)
proof (cases rule: lf_step.cases)
  case (move t stop expired pc q)
  from balance_step [OF move_occupying [OF move(3)] assms(2) [unfolded occupied_ok_def]] move(1,2) show ?thesis
    by (simp add: occupied_ok_def of_nat_tally_update)
next
  case (notify_hit t ch pc u old pc')
  then have "t \<noteq> u" by auto
  with notify_hit assms(2) show ?thesis by (simp add: occupied_ok_def tally_keep)
qed (use assms(2) in \<open>simp_all add: occupied_ok_def tally_keep tally_wake_all\<close>)

lemma signal_capacity_field [simp]: "lf_capacity (lf_signal ch q) = lf_capacity q"
  by (cases ch) (simp_all add: lf_update_defs)

lemma move_capacity: "lf_move stop expired q pc = Some (pc', q') \<Longrightarrow> lf_capacity q' = lf_capacity q"
  by (cases pc) (auto simp: lf_leave_producer_def lf_leave_consumer_def
      split: option.splits sum.splits if_splits guard_outcome.splits)

lemma capacity_step: "lf_step s s' \<Longrightarrow>
    lf_capacity (ls_q s') = lf_capacity (ls_q s) \<and> length (ls_threads s') = length (ls_threads s)"
  by (cases rule: lf_step.cases) (auto dest: move_capacity)

definition lf_system_inv :: "nat \<Rightarrow> size_t \<Rightarrow> 'e lf_system \<Rightarrow> bool" where
  "lf_system_inv n capacity s = (length (ls_threads s) = n \<and> lf_capacity (ls_q s) = capacity \<and>
     (\<exists>k. capacity = 2 ^ k \<and> owned_ok k s) \<and> closing_gates_ok s \<and> occupied_ok s)"

lemma holds_owned:
  assumes "lf_holds k av pub q"
  shows "slots_owned k q av pub {#} {#}"
proof -
  note D = lf_holds_D [OF assms]
  have "distinct (av @ pub)" "set (av @ pub) = {x. unat x < 2 ^ k}" using D(6) by (auto simp: slots_ok_def)
  then have "mset av + mset pub = index_set k"
    using mset_set_set [of "av @ pub"] by (simp add: index_set_def)
  with D show ?thesis by (simp add: slots_owned_def slots_ok_def)
qed

lemma lf_start_inv:
  assumes "lf_new capacity = Inr q"
  shows "lf_system_inv n capacity (lf_start n q)"
proof -
  from lf_new_ok [OF assms] obtain k av pub where h: "lf_holds k av pub q" and items: "aq_items (lf_abs q) = []"
    by (auto simp: lf_inv_def)
  from items have "pub = []" by (simp add: lf_abs_eq [OF h])
  moreover have q: "lf_capacity q = capacity" "lf_producer_gate q = 0" "lf_consumer_gate q = 0"
    "lf_occupied_count q = 0" "\<not> lf_producer_quiesced q"
    using assms by (auto simp: lf_new_def validate_capacity_def split: sum.splits if_splits)
  moreover have "gate_word 0 False = 0" by (simp add: gate_word_def)
  ultimately show ?thesis
    using holds_owned [OF h] lf_holds_D(3) [OF h]
    by (auto simp: lf_system_inv_def lf_start_def owned_ok_def closing_gates_ok_def occupied_ok_def gates_ok_def
        gather_replicate tally_replicate list_all_iff)
qed

lemma lf_reachable_inv:
  assumes "lf_reachable n capacity s" "n < 2 ^ 63"
  shows "lf_system_inv n capacity s"
  using assms(1)
proof (induction rule: lf_reachable.induct)
  case (step s s')
  then show ?case
    using assms(2) owned_step [OF step(2)] gates_step [OF step(2)] occupied_step [OF step(2)] capacity_step [OF step(2)]
    unfolding lf_system_inv_def by auto
qed (rule lf_start_inv)

text \<open>The indices that a thread holds.\<close>

definition held_indices :: "'e lf_pc \<Rightarrow> size_t list" where
  "held_indices pc = raw_indices pc @ live_indices pc"

lemma owned_disjoint:
  assumes "slots_owned k q av pub (gather raw_indices ts) (gather live_indices ts)"
    "t < length ts" "u < length ts" "t \<noteq> u"
  shows "set (held_indices (ts ! t)) \<inter> set (held_indices (ts ! u)) = {}"
proof (rule ccontr)
  assume "set (held_indices (ts ! t)) \<inter> set (held_indices (ts ! u)) \<noteq> {}"
  then obtain i where "i \<in> set (held_indices (ts ! t))" "i \<in> set (held_indices (ts ! u))" by blast
  from gather_twice [OF assms(2-4) this] have "1 < count (gather held_indices ts) i" .
  moreover have "gather held_indices ts = gather raw_indices ts + gather live_indices ts"
    by (simp add: gather_append held_indices_def [abs_def])
  moreover have "index_set k = mset av + mset pub + gather raw_indices ts + gather live_indices ts"
    using assms(1) by (simp add: slots_owned_def)
  then have "count (gather raw_indices ts + gather live_indices ts) i \<le> count (index_set k) i" by simp
  ultimately show False using index_set_count [of k i] by simp
qed

section \<open>Schedules\<close>

text \<open>A schedule that can be run; every state it leads to is reachable.\<close>

datatype 'e lf_action =
    Call nat "'e lf_pc"
  | Move nat
  | Lock nat
  | Unlock nat
  | Notify_hit nat nat
  | Notify_miss nat

fun lf_act :: "'e lf_action \<Rightarrow> 'e lf_system \<Rightarrow> 'e lf_system option" where
  "lf_act (Call t pc) s =
     (if t < length (ls_threads s) \<and> at_rest (ls_threads s ! t) \<and> call_entry pc
      then Some (s\<lparr>ls_threads := (ls_threads s)[t := pc]\<rparr>) else None)"
| "lf_act (Move t) s = (if t < length (ls_threads s) then
     (case lf_move False False (ls_q s) (ls_threads s ! t) of
        None \<Rightarrow> None
      | Some (pc, q) \<Rightarrow> Some (s\<lparr>ls_q := q, ls_threads := (ls_threads s)[t := pc],
          ls_accepted := ls_accepted s @ published_by (ls_q s) (ls_threads s ! t),
          ls_taken := ls_taken s @ taken_by (ls_q s) (ls_threads s ! t) pc\<rparr>)) else None)"
| "lf_act (Lock t) s = (if t < length (ls_threads s) \<and> \<not> ls_close_mutex s then
     (case ls_threads s ! t of
        K_locking d \<Rightarrow> Some (s\<lparr>ls_close_mutex := True, ls_threads := (ls_threads s)[t := K_closing d]\<rparr>)
      | _ \<Rightarrow> None) else None)"
| "lf_act (Unlock t) s = (if t < length (ls_threads s) then
     (case ls_threads s ! t of
        K_unlocking n \<Rightarrow> Some (s\<lparr>ls_close_mutex := False, ls_threads := (ls_threads s)[t := K_returned n]\<rparr>)
      | _ \<Rightarrow> None) else None)"
| "lf_act (Notify_hit t u) s = (if t < length (ls_threads s) \<and> u < length (ls_threads s) then
     (case (ls_threads s ! t, ls_threads s ! u) of
        (L_notify ch pc, L_parked ch' old pc') \<Rightarrow>
          if ch' = ch then Some (s\<lparr>ls_threads := (ls_threads s)[t := pc, u := L_await ch old pc']\<rparr>) else None
      | _ \<Rightarrow> None) else None)"
| "lf_act (Notify_miss t) s = (if t < length (ls_threads s) then
     (case ls_threads s ! t of
        L_notify ch pc \<Rightarrow>
          if list_ex (parked_on ch) (ls_threads s) then None
          else Some (s\<lparr>ls_threads := (ls_threads s)[t := pc]\<rparr>)
      | _ \<Rightarrow> None) else None)"

fun lf_run :: "'e lf_action list \<Rightarrow> 'e lf_system \<Rightarrow> 'e lf_system option" where
  "lf_run [] s = Some s"
| "lf_run (a # as) s = (case lf_act a s of None \<Rightarrow> None | Some s' \<Rightarrow> lf_run as s')"

lemma lf_act_step: "lf_act a s = Some s' \<Longrightarrow> lf_step s s'"
  by (cases a) (auto intro: lf_step.intros split: if_splits option.splits lf_pc.splits)

lemma lf_run_reachable: "lf_reachable n capacity s \<Longrightarrow> lf_run as s = Some s' \<Longrightarrow> lf_reachable n capacity s'"
proof (induction as arbitrary: s)
  case (Cons a as)
  then obtain s1 where "lf_act a s = Some s1" "lf_run as s1 = Some s'" by (auto split: option.splits)
  with Cons show ?case using lf_reachable.step [OF Cons.prems(1) lf_act_step] by blast
qed simp

declare scq_dequeue_loop.simps [code] scq_enqueue.simps [code]

definition lf_run_new :: "nat \<Rightarrow> size_t \<Rightarrow> 'e lf_action list \<Rightarrow> 'e lf_system option" where
  "lf_run_new n capacity as = (case lf_new capacity of Inl x \<Rightarrow> None | Inr q \<Rightarrow> lf_run as (lf_start n q))"

lemma lf_run_new_reachable: "lf_run_new n capacity as = Some s \<Longrightarrow> lf_reachable n capacity s"
  by (auto simp: lf_run_new_def intro: lf_run_reachable lf_reachable.start split: sum.splits)

lemma run_state:
  assumes "case lf_run_new n capacity as of None \<Rightarrow> False | Some s \<Rightarrow> Q s"
  shows "\<exists>s. lf_reachable n capacity s \<and> Q s"
  using assms by (auto dest: lf_run_new_reachable split: option.splits)

lemma lf_run_steps: "lf_run as s = Some s' \<Longrightarrow> lf_step\<^sup>*\<^sup>* s s'"
proof (induction as arbitrary: s)
  case (Cons a as)
  then obtain s1 where "lf_act a s = Some s1" "lf_run as s1 = Some s'" by (auto split: option.splits)
  with Cons.IH [of s1] show ?case using lf_act_step converse_rtranclp_into_rtranclp [of lf_step s s1 s'] by blast
qed simp

text \<open>A schedule, and one that goes on from where it ends.\<close>

lemma run_further:
  assumes "case lf_run_new n capacity as of None \<Rightarrow> False | Some s \<Rightarrow>
    (case lf_run bs s of None \<Rightarrow> False | Some s' \<Rightarrow> Q s s')"
  shows "\<exists>s s'. lf_reachable n capacity s \<and> lf_step\<^sup>*\<^sup>* s s' \<and> Q s s'"
  using assms by (auto dest: lf_run_new_reachable lf_run_steps split: option.splits)

section \<open>Safety of the protocol\<close>

text \<open>The indices of the ring are the words below the capacity.\<close>

lemma index_set_words: "k \<le> 61 \<Longrightarrow> index_set k = mset (map of_nat [0..<2 ^ k])"
proof -
  assume "k \<le> 61"
  then have "(2::nat) ^ k \<le> 2 ^ 61" by (intro power_increasing) simp_all
  then have small: "unat (of_nat i :: size_t) = i" if "i < 2 ^ k" for i using that by (intro unat_of_nat_small) simp
  have "inj_on (of_nat :: nat \<Rightarrow> size_t) {0..<2 ^ k}"
    using small by (intro inj_on_inverseI [where g = unat]) simp
  then have "distinct (map (of_nat :: nat \<Rightarrow> size_t) [0..<2 ^ k])" by (simp add: distinct_map)
  moreover have "set (map (of_nat :: nat \<Rightarrow> size_t) [0..<2 ^ k]) = {x. unat x < 2 ^ k}"
    using small by (auto intro!: image_eqI [of _ _ "unat _"])
  ultimately show ?thesis unfolding index_set_def by (metis mset_set_set)
qed

text \<open>
  Property C10. Slots are owned exclusively, for any number of threads below 2^63 and any
  interleaving. The available ring, the published ring and the threads partition the slot indices: each
  index below the capacity is in exactly one of these places and there once. A slot has an
  object exactly when its index is in the published ring or held by a thread that owns the object. So no
  two threads hold the same index, a producer constructs only in a slot without an
  object, and a consumer or a discarding thread moves from or destroys only a slot with one. Every
  thread that does not wait for another one can take its
  next step (neither a ring operation nor an access to a slot ever fails), and the guard's
  \<open>std::terminate\<close> is never reached.
\<close>

theorem lf_slot_ownership:
  assumes "lf_reachable n capacity s" "n < 2 ^ 63"
  shows "mset (scq_items (lf_available_indices (ls_q s))) + mset (scq_items (lf_published_indices (ls_q s))) +
      gather raw_indices (ls_threads s) + gather live_indices (ls_threads s) = mset (map of_nat [0..<unat capacity]) \<and>
    (\<forall>i. unat i < unat capacity \<longrightarrow> (lf_slots (ls_q s) ! unat i \<noteq> None) =
      (i \<in> set (scq_items (lf_published_indices (ls_q s))) \<or> i \<in># gather live_indices (ls_threads s))) \<and>
    (\<forall>t u. t < n \<and> u < n \<and> t \<noteq> u \<longrightarrow>
      set (held_indices (ls_threads s ! t)) \<inter> set (held_indices (ls_threads s ! u)) = {}) \<and>
    (\<forall>t < n. list_all (\<lambda>i. lf_slots (ls_q s) ! unat i = None) (raw_indices (ls_threads s ! t)) \<and>
      list_all (\<lambda>i. lf_slots (ls_q s) ! unat i \<noteq> None) (live_indices (ls_threads s ! t))) \<and>
    list_all (\<lambda>i. lf_slots (ls_q s) ! unat i \<noteq> None) (scq_items (lf_published_indices (ls_q s))) \<and>
    (\<forall>t < n. at_rest (ls_threads s ! t) \<or> waits (ls_q s) (ls_threads s ! t) \<or>
      lf_move stop expired (ls_q s) (ls_threads s ! t) \<noteq> None) \<and>
    L_terminated \<notin> set (ls_threads s)"
proof -
  let ?ts = "ls_threads s" and ?q = "ls_q s"
  from lf_reachable_inv [OF assms] obtain k where k: "length ?ts = n" "owned_ok k s" "closing_gates_ok s"
    "capacity = 2 ^ k"
    by (auto simp: lf_system_inv_def)
  then obtain av pub where o: "slots_owned k ?q av pub (gather raw_indices ?ts) (gather live_indices ?ts)"
    by (auto simp: owned_ok_def)
  have items: "scq_items (lf_published_indices ?q) = pub"
    using o scq_items_eq [of k pub "lf_published_indices ?q"] by (simp add: slots_owned_def)
  have available: "scq_items (lf_available_indices ?q) = av"
    using o scq_items_eq [of k av "lf_available_indices ?q"] by (simp add: slots_owned_def)
  have k61: "k \<le> 61" using o by (simp add: slots_owned_def)
  have cap: "unat capacity = 2 ^ k" using capacity_words(1) [OF k61] k(4) by simp
  have part: "mset av + mset pub + gather raw_indices ?ts + gather live_indices ?ts = mset (map of_nat [0..<unat capacity])"
    using o index_set_words [OF k61] cap by (simp add: slots_owned_def)
  have objects: "\<forall>i. unat i < unat capacity \<longrightarrow>
      (lf_slots ?q ! unat i \<noteq> None) = (i \<in> set pub \<or> i \<in># gather live_indices ?ts)"
    using o cap by (simp add: slots_owned_def)
  have raw: "lf_slots ?q ! unat i = None" if "i \<in># gather raw_indices ?ts" for i
    using construct_owned(3) [of k ?q av pub i "gather raw_indices ?ts - {#i#}" "gather live_indices ?ts"] o that by simp
  have live: "lf_slots ?q ! unat i \<noteq> None" if "i \<in># mset pub + gather live_indices ?ts" for i
  proof -
    have "index_set k = mset av + mset pub + gather raw_indices ?ts + gather live_indices ?ts"
      using o by (simp add: slots_owned_def)
    then have "i \<in># index_set k" using that by auto
    then have "unat i < 2 ^ k" by (rule index_set_member)
    with o that show ?thesis by (auto simp: slots_owned_def)
  qed
  have nt: "pc \<noteq> L_terminated" if "pc \<in> set ?ts" for pc
    using k(3) that by (auto simp: closing_gates_ok_def list_all_iff)
  have moves: "at_rest (?ts ! t) \<or> waits ?q (?ts ! t) \<or> lf_move stop expired ?q (?ts ! t) \<noteq> None"
    if t: "t < n" for t
  proof -
    obtain R where R: "gather raw_indices ?ts = R + mset (raw_indices (?ts ! t))"
      using gather_split [of t ?ts raw_indices] t k(1) by blast
    obtain L where L: "gather live_indices ?ts = L + mset (live_indices (?ts ! t))"
      using gather_split [of t ?ts live_indices] t k(1) by blast
    from move_possible [OF o [unfolded R L]] nt [of "?ts ! t"] t k(1) show ?thesis by auto
  qed
  have member: "i \<in># gather f ?ts" if "t < n" "i \<in> set (f (?ts ! t))" for t i and f :: "'a lf_pc \<Rightarrow> size_t list"
    using that k(1) nth_mem [of t ?ts] by (auto simp: gather_def)
  have "\<forall>t < n. list_all (\<lambda>i. lf_slots ?q ! unat i = None) (raw_indices (?ts ! t)) \<and>
      list_all (\<lambda>i. lf_slots ?q ! unat i \<noteq> None) (live_indices (?ts ! t))"
    using raw live member by (auto simp: list_all_iff)
  moreover have "list_all (\<lambda>i. lf_slots ?q ! unat i \<noteq> None) pub" using live by (auto simp: list_all_iff)
  moreover have "\<forall>t u. t < n \<and> u < n \<and> t \<noteq> u \<longrightarrow>
      set (held_indices (?ts ! t)) \<inter> set (held_indices (?ts ! u)) = {}"
    using owned_disjoint [OF o] k(1) by blast
  ultimately show ?thesis using part objects moves nt unfolding items available by blast
qed

theorem lf_slot_ownership_witness:
  "\<exists>s :: nat lf_system. lf_reachable 2 4 s \<and>
     ls_threads s = [P_reserved Once (Inr 5) 0, P_counting Once (Inr 6) 1] \<and>
     mset (scq_items (lf_available_indices (ls_q s))) + mset (scq_items (lf_published_indices (ls_q s))) = {#2, 3#}"
proof -
  have "\<exists>s :: nat lf_system. lf_reachable 2 4 s \<and>
      ls_threads s = [P_reserved Once (Inr 5) 0, P_counting Once (Inr 6) 1]"
    by (rule run_state [where as = "[Call 0 (P_entering Once (Inr 5)), Move 0, Move 0,
        Call 1 (P_entering Once (Inr 6)), Move 1, Move 1, Move 1]"]) code_simp
  then obtain s :: "nat lf_system" where s: "lf_reachable 2 4 s"
    "ls_threads s = [P_reserved Once (Inr 5) 0, P_counting Once (Inr 6) 1]" by blast
  have "mset (scq_items (lf_available_indices (ls_q s))) + mset (scq_items (lf_published_indices (ls_q s))) +
      gather raw_indices (ls_threads s) + gather live_indices (ls_threads s) = mset (map of_nat [0..<unat (4 :: size_t)])"
    using lf_slot_ownership [OF s(1)] by simp
  then have "mset (scq_items (lf_available_indices (ls_q s))) + mset (scq_items (lf_published_indices (ls_q s))) +
      {#0, 1#} = {#2, 3#} + {#0, 1#}"
    using s(2) by (simp add: gather_def upt_rec add.assoc add_mset_commute)
  then show ?thesis using s unfolding add_right_cancel by blast
qed

lemma occupying_le: "occupying pc \<le> length (raw_indices pc) + length (live_indices pc)"
  by (induction pc) simp_all

lemma tally_occupying_le: "tally occupying ts \<le> size (gather raw_indices ts) + size (gather live_indices ts)"
proof (induction ts)
  case (Cons pc ts)
  then show ?case using occupying_le [of pc] by (simp add: tally_def gather_def)
qed (simp add: tally_def)

text \<open>
  Property C18. Order and bounds, under the same conditions: the events leave in the order in which their
  indices were published, none is lost or duplicated (what was accepted is what consumers and a
  discard took out, in order, then what is queued), at most \<open>capacity\<close> events are queued, and
  \<open>size()\<close> is their number plus the operations between their counter update and their ring operation,
  never more than the capacity.
\<close>

theorem lf_threads_fifo:
  assumes "lf_reachable n capacity s" "n < 2 ^ 63"
  shows "ls_accepted s = ls_taken s @ map (slot_event (ls_q s)) (scq_items (lf_published_indices (ls_q s))) \<and>
    unat (lf_size (ls_q s)) = length (scq_items (lf_published_indices (ls_q s))) + tally occupying (ls_threads s) \<and>
    unat (lf_size (ls_q s)) \<le> unat capacity"
proof -
  let ?ts = "ls_threads s" and ?q = "ls_q s"
  from lf_reachable_inv [OF assms] obtain k where k: "capacity = 2 ^ k" "owned_ok k s" "occupied_ok s"
    by (auto simp: lf_system_inv_def)
  then obtain av pub where o: "slots_owned k ?q av pub (gather raw_indices ?ts) (gather live_indices ?ts)"
    "ls_accepted s = ls_taken s @ map (slot_event ?q) pub"
    by (auto simp: owned_ok_def)
  have k61: "k \<le> 61" and part: "mset av + mset pub + gather raw_indices ?ts + gather live_indices ?ts = index_set k"
    using o(1) by (simp_all add: slots_owned_def)
  have items: "scq_items (lf_published_indices ?q) = pub"
    using o(1) scq_items_eq [of k pub "lf_published_indices ?q"] by (simp add: slots_owned_def)
  have cap: "unat capacity = 2 ^ k" using capacity_words(1) [OF k61] k(1) by simp
  have bound: "length pub + tally occupying ?ts \<le> 2 ^ k"
    using arg_cong [OF part, of size] tally_occupying_le [of ?ts] index_set_size [OF k61] by simp
  have "lf_occupied_count ?q = of_nat (length pub + tally occupying ?ts)"
    using k(3) o(2) by (simp add: occupied_ok_def algebra_simps)
  moreover have "(2::nat) ^ k \<le> 2 ^ 61" using k61 by (intro power_increasing) simp_all
  ultimately have "unat (lf_size ?q) = length pub + tally occupying ?ts"
    using bound unat_of_nat_small [of "length pub + tally occupying ?ts"] by (simp add: lf_size_def)
  with o(2) bound cap show ?thesis unfolding items by simp
qed

theorem lf_threads_fifo_witness:
  "\<exists>s :: nat lf_system. lf_reachable 2 2 s \<and> ls_accepted s = [5, 6] \<and> ls_taken s = [5] \<and>
     map (slot_event (ls_q s)) (scq_items (lf_published_indices (ls_q s))) = [6]"
proof -
  have "\<exists>s :: nat lf_system. lf_reachable 2 2 s \<and> ls_accepted s = [5, 6] \<and> ls_taken s = [5]"
    by (rule run_state [where as = "[Call 0 (P_entering Once (Inr 5)), Move 0, Move 0, Move 0, Move 0, Move 0, Move 0,
        Notify_miss 0, Move 0, Move 0, Call 0 (P_entering Once (Inr 6)), Move 0, Move 0, Move 0, Move 0, Move 0,
        Call 1 (C_entering Once), Move 1, Move 1]"]) code_simp
  then obtain s :: "nat lf_system" where s: "lf_reachable 2 2 s" "ls_accepted s = [5, 6]" "ls_taken s = [5]" by blast
  from lf_threads_fifo [OF s(1)] have "ls_accepted s = ls_taken s @ map (slot_event (ls_q s)) (scq_items (lf_published_indices (ls_q s)))"
    by simp
  with s show ?thesis by auto
qed

section \<open>Closing\<close>

lemma move_seals:
  assumes "lf_move stop expired q pc = Some (pc', q')" "lf_producer_quiesced q"
  shows "lf_producer_quiesced q'"
proof (cases "gate_move pc")
  case True
  with assms show ?thesis
    by (cases pc) (auto simp: lf_leave_producer_def lf_leave_consumer_def split: if_splits guard_outcome.splits)
qed (use assms inert_move(1) [OF assms(1)] in simp)

lemma published_inside: "published_by q pc \<noteq> [] \<Longrightarrow> in_producer_gate pc = 1"
  by (cases pc) simp_all

text \<open>The points of \<open>close\<close> and \<open>close_and_discard\<close> behind the store of the quiesced flag.\<close>

fun close_published :: "'e lf_pc \<Rightarrow> bool" where
  "close_published K_closing_consumers = True"
| "close_published K_quiescing_consumers = True"
| "close_published (K_discarding n) = True"
| "close_published (K_destroying n i) = True"
| "close_published (K_uncounting n i) = True"
| "close_published (K_recycling n i) = True"
| "close_published (K_unlocking n) = True"
| "close_published (K_returned n) = True"
| "close_published (L_signal ch pc) = close_published pc"
| "close_published (L_notify ch pc) = close_published pc"
| "close_published (L_await ch old pc) = close_published pc"
| "close_published (L_parked ch old pc) = close_published pc"
| "close_published _ = False"

definition close_publishes :: "'e lf_system \<Rightarrow> bool" where
  "close_publishes s = (list_ex close_published (ls_threads s) \<longrightarrow> lf_producer_quiesced (ls_q s))"

lemma continue_close_published [simp]:
  "\<not> close_published (push_continue stop expired m c r)" "\<not> close_published (pop_continue stop m p)"
  by (cases m; simp)+

lemma entry_close_published [simp]: "call_entry pc \<Longrightarrow> \<not> close_published pc"
  by (cases pc) simp_all

lemma wake_all_close_published [simp]: "close_published (wake_all ch pc) = close_published pc"
  by (cases pc) simp_all

lemma move_close_published:
  assumes "lf_move stop expired q pc = Some (pc', q')" "close_published pc'"
  shows "close_published pc \<or> lf_producer_quiesced q'"
  using assms by (cases pc) (auto split: option.splits sum.splits if_splits guard_outcome.splits)

lemma close_publishes_step:
  assumes "lf_step s s'" "close_publishes s"
  shows "close_publishes s'"
  using assms(1)
proof (cases rule: lf_step.cases)
  case (move t stop expired pc q)
  have "lf_producer_quiesced q" if "list_ex close_published ((ls_threads s)[t := pc])"
    using list_ex_update [OF that]
  proof
    assume "close_published pc"
    then have "close_published (ls_threads s ! t) \<or> lf_producer_quiesced q" using move_close_published [OF move(3)] by simp
    then show ?thesis using assms(2) move(2) move_seals [OF move(3)]
      by (auto simp: close_publishes_def list_ex_length)
  qed (use assms(2) move_seals [OF move(3)] in \<open>simp add: close_publishes_def\<close>)
  with move(1) show ?thesis by (simp add: close_publishes_def)
next
  case (stop_callback ch)
  with assms(2) show ?thesis by (simp add: close_publishes_def list_ex_iff)
qed (use assms(2) in \<open>force simp: close_publishes_def list_ex_length nth_list_update split: if_splits\<close>)+

lemma close_publishes_reachable: "lf_reachable n capacity s \<Longrightarrow> close_publishes s"
proof (induction rule: lf_reachable.induct)
  case (start q)
  then show ?case by (simp add: close_publishes_def lf_start_def list_ex_iff)
qed (rule close_publishes_step)

lemma quiesced_sealed:
  assumes "lf_reachable n capacity s" "n < 2 ^ 63" "lf_producer_quiesced (ls_q s)"
  shows "lf_closed (ls_q s)" "tally in_producer_gate (ls_threads s) = 0"
proof -
  from lf_reachable_inv [OF assms(1,2)] assms(3) obtain b where g:
    "gates_ok (ls_q s) 0 (tally in_consumer_gate (ls_threads s)) True b"
    and zero: "tally in_producer_gate (ls_threads s) = 0"
    by (auto simp: lf_system_inv_def closing_gates_ok_def)
  then show "lf_closed (ls_q s)" "tally in_producer_gate (ls_threads s) = 0"
    using gate_word_bits(1) [of 0 True] by (simp_all add: gates_ok_def lf_closed_def closed_bit_nonzero)
qed

lemma quiesced_step:
  assumes "lf_reachable n capacity s" "n < 2 ^ 63" "lf_producer_quiesced (ls_q s)" "lf_step s s'"
  shows "lf_producer_quiesced (ls_q s') \<and> ls_accepted s' = ls_accepted s"
  using assms(4)
proof (cases rule: lf_step.cases)
  case (move t stop expired pc q)
  have "in_producer_gate (ls_threads s ! t) = 0"
    using quiesced_sealed(2) [OF assms(1-3)] move(2) by (simp add: tally_zero)
  then have "published_by (ls_q s) (ls_threads s ! t) = []" using published_inside by fastforce
  with move move_seals [OF move(3) assms(3)] show ?thesis by simp
qed (use assms(3) in simp_all)

text \<open>
  Property C24. \<open>close\<close> is a barrier for producers, and \<open>close_and_discard\<close> as well: once some call of one of them has
  returned, then from that moment on, whatever further steps the threads take, the queue is closed, the quiesced flag is
  set, no thread is inside a push, and no further event is accepted.
\<close>

theorem lf_close_seals:
  assumes "lf_reachable n capacity s" "n < 2 ^ 63" "K_returned d \<in> set (ls_threads s)" "lf_step\<^sup>*\<^sup>* s s'"
  shows "lf_closed (ls_q s') \<and> lf_producer_quiesced (ls_q s') \<and> tally in_producer_gate (ls_threads s') = 0 \<and>
    ls_accepted s' = ls_accepted s"
proof -
  have "lf_producer_quiesced (ls_q s)"
    using close_publishes_reachable [OF assms(1)] assms(3) by (force simp: close_publishes_def list_ex_iff)
  with assms(4) have "lf_reachable n capacity s' \<and> lf_producer_quiesced (ls_q s') \<and> ls_accepted s' = ls_accepted s"
  proof (induction rule: rtranclp_induct)
    case (step s1 s2)
    then show ?case using quiesced_step [of n capacity s1 s2] assms(2) by (auto intro: lf_reachable.step)
  qed (simp add: assms(1))
  then show ?thesis using quiesced_sealed [of n capacity s'] assms(2) by simp
qed

theorem lf_close_seals_witness:
  "\<exists>s s' :: nat lf_system. lf_reachable 2 2 s \<and> ls_threads s = [L_pushed (Inr success, True), K_returned 0] \<and>
     lf_step\<^sup>*\<^sup>* s s' \<and> ls_threads s' = [L_pushed (Inr closed, False), K_returned 0] \<and> ls_accepted s' = ls_accepted s"
proof -
  have "\<exists>s s' :: nat lf_system. lf_reachable 2 2 s \<and> lf_step\<^sup>*\<^sup>* s s' \<and>
      ls_threads s = [L_pushed (Inr success, True), K_returned 0] \<and>
      ls_threads s' = [L_pushed (Inr closed, False), K_returned 0]"
    by (rule run_further [where as = "[Call 0 (P_entering Once (Inr 5)), Move 0, Move 0, Move 0,
        Call 1 (K_locking False), Lock 1, Move 1, Move 0, Move 0, Move 0, Notify_miss 0, Move 0, Move 0, Move 1, Move 1, Move 1,
        Notify_miss 1, Move 1, Notify_miss 1, Unlock 1]"
      and bs = "[Call 0 (P_entering Once (Inr 6)), Move 0, Move 0]"]) code_simp
  then obtain s s' :: "nat lf_system" where s: "lf_reachable 2 2 s" "lf_step\<^sup>*\<^sup>* s s'"
    "ls_threads s = [L_pushed (Inr success, True), K_returned 0]"
    "ls_threads s' = [L_pushed (Inr closed, False), K_returned 0]" by blast
  have "ls_accepted s' = ls_accepted s" using lf_close_seals [OF s(1) _ _ s(2), of 0] s(3) by simp
  with s show ?thesis by blast
qed

text \<open>
  Property C39. A consumer can report \<open>closed\<close> and leave an accepted event behind: it finds the published
  ring empty, then a push and a complete \<open>close\<close> run, and only then does it read the quiesced flag. When
  all three calls have returned, \<open>wait_pop\<close> has returned \<open>closed\<close> and the event, which was accepted
  before the queue was closed, is still in the queue.
\<close>

theorem lf_close_misses_event:
  "\<exists>s :: nat lf_system. lf_reachable 3 2 s \<and>
     ls_threads s = [L_popped pop_closed, L_pushed (Inr success, True), K_returned 0] \<and>
     ls_accepted s = [7] \<and> ls_taken s = []"
  by (rule run_state [where as = "[Call 0 (C_entering First), Move 0, Move 0,
      Call 1 (P_entering Once (Inr 7)), Move 1, Move 1, Move 1, Move 1, Move 1, Move 1, Notify_miss 1, Move 1, Move 1,
      Call 2 (K_locking False), Lock 2, Move 2, Move 2, Move 2, Move 2, Notify_miss 2, Move 2, Notify_miss 2, Unlock 2,
      Move 0, Move 0, Move 0]"]) code_simp

text \<open>
  Property C40. \<open>close\<close> can leave a consumer asleep: two consumers wait on the data epoch of an empty
  queue, \<open>close\<close> advances the epoch and notifies one of them, which returns \<open>closed\<close>; when \<open>close\<close> has
  returned too, the other one is parked with no notification under way.
\<close>

theorem lf_close_leaves_sleeper:
  "\<exists>s :: nat lf_system. lf_reachable 3 2 s \<and>
     ls_threads s = [L_popped pop_closed, L_parked Data 0 (C_entering First), K_returned 0] \<and>
     lf_closed (ls_q s) \<and> lf_epoch Data (ls_q s) = 1"
  by (rule run_state [where as = "[Call 0 (C_entering First), Move 0, Move 0, Move 0, Move 0, Move 0, Move 0, Move 0,
      Move 0, Move 0, Move 0, Move 0, Move 0,
      Call 1 (C_entering First), Move 1, Move 1, Move 1, Move 1, Move 1, Move 1, Move 1, Move 1, Move 1, Move 1,
      Move 1, Move 1,
      Call 2 (K_locking False), Lock 2, Move 2, Move 2, Move 2, Move 2, Notify_hit 2 0, Move 2, Notify_miss 2, Unlock 2,
      Move 0, Move 0, Move 0, Move 0, Move 0, Move 0]"]) code_simp

end
