(* ===== verification/Ring_Entries.thy ===== *)
theory Ring_Entries
  imports Circular_Index_Queue
begin

text \<open>
  Words of the SCQ ring by their fields. An entry packs a signed cycle (\<open>-1\<close> for an entry that was never
  used), a safe bit and an index, where all ones is no index; a ticket is a round and a slot. The lemmas
  turn the bitwise expressions of \<open>enqueue\<close> and \<open>try_dequeue\<close>
  (\<open>queue/detail/scalable_circular_index_queue.hpp\<close>) into these fields, as long as no ticket has wrapped.
\<close>

section \<open>The fields of an entry word\<close>

definition ecycle :: "nat \<Rightarrow> size_t \<Rightarrow> int" where
  "ecycle k e = sint e div 2 ^ (k + 2)"

definition esafe :: "nat \<Rightarrow> size_t \<Rightarrow> bool" where
  "esafe k e = bit e (k + 1)"

definition eindex :: "nat \<Rightarrow> size_t \<Rightarrow> size_t" where
  "eindex k e = e AND mask (k + 1)"

definition eempty :: "nat \<Rightarrow> size_t \<Rightarrow> bool" where
  "eempty k e = (eindex k e = mask (k + 1))"

definition make_entry :: "nat \<Rightarrow> int \<Rightarrow> bool \<Rightarrow> size_t \<Rightarrow> size_t" where
  "make_entry k c s x =
     push_bit (k + 2) (word_of_int c) OR (if s then 2 ^ (k + 1) else 0) OR (x AND mask (k + 1))"

lemma bit_make_entry:
  "bit (make_entry k c s x) n = (n < 64 \<and>
     (if k + 2 \<le> n then bit c (n - (k + 2)) else if n = k + 1 then s else bit x n))"
proof -
  obtain m where m: "k + 2 = m" by simp
  have 1: "bit (push_bit m (word_of_int c) :: size_t) n = (m \<le> n \<and> n < 64 \<and> bit c (n - m))"
    by (simp only: bit_push_bit_iff bit_word_of_int_iff) auto
  have "bit (2 ^ j :: size_t) n = (n = j \<and> n < 64)" for j by (auto simp: bit_exp_iff)
  from this [of "k + 1"] have 2: "bit (2 ^ (k + 1) :: size_t) n = (n = k + 1 \<and> n < 64)" .
  have 3: "bit (x AND mask (k + 1)) n = (n < k + 1 \<and> bit x n)" using bit_imp_le_length [of x n] by (auto simp: bit_and_iff bit_mask_iff)
  show ?thesis unfolding make_entry_def m bit_or_iff 1 3
    using m 2 bit_imp_le_length [of x n] by auto
qed

lemma bit_ecycle: "bit (ecycle k e) n = bit e (if n + k + 2 < 63 then n + k + 2 else 63)"
proof -
  obtain m where m: "k + 2 = m" by simp
  have "ecycle k e = drop_bit m (sint e)" by (simp only: ecycle_def drop_bit_eq_div m)
  moreover have "bit (drop_bit m (sint e)) n = bit e (if m + n < 63 then m + n else 63)"
    using bit_imp_le_length [of e "m + n"]
    by (cases "m + n < 63"; cases "m + n = 63") (auto simp: bit_drop_bit_eq bit_sint_iff)
  moreover have "m + n = n + k + 2" using m by simp
  ultimately show ?thesis by (simp only:)
qed

lemma make_entry_fields:
  assumes "k \<le> 61"
  shows "make_entry k (ecycle k e) (esafe k e) (eindex k e) = e"
proof (rule bit_word_eqI)
  fix n assume "n < LENGTH(64)"
  then have n: "n < 64" by simp
  show "bit (make_entry k (ecycle k e) (esafe k e) (eindex k e)) n = bit e n"
  proof (cases "k + 2 \<le> n")
    case True
    then have "n - (k + 2) + k + 2 = n" by simp
    moreover have "n < 63 \<or> n = 63" using n by auto
    ultimately show ?thesis using True n by (simp only: bit_make_entry bit_ecycle) auto
  next
    case False
    with n show ?thesis by (auto simp: bit_make_entry esafe_def eindex_def bit_and_iff bit_mask_iff)
  qed
qed


text \<open>The words that the operations build, by their fields.\<close>

lemma make_entry_ops:
  assumes "k \<le> 61"
  shows "make_entry k c s x OR mask (k + 2) = make_entry k c True (mask (k + 1))"
    "make_entry k c s x OR mask (k + 1) = make_entry k c s (mask (k + 1))"
    "make_entry k c s x OR 2 ^ (k + 1) = make_entry k c True x"
    "make_entry k c s x AND NOT (2 ^ (k + 1)) = make_entry k c False x"
    "make_entry k c True y XOR (NOT (make_entry k c' s x) AND 2 ^ (k + 1)) = make_entry k c s y"
    "make_entry k c True y XOR 2 ^ (k + 1) = make_entry k c False y"
    "make_entry k c s x AND mask (k + 1) = x AND mask (k + 1)"
    "unat x < 2 ^ (k + 1) \<Longrightarrow> make_entry k c True (mask (k + 1)) XOR (x XOR mask (k + 1)) = make_entry k c True x"
proof -
  obtain j m where jm: "k + 1 = j" "k + 2 = m" by simp
  have e: "bit (2 ^ i :: size_t) n = (n = i \<and> n < 64)" for i n by (auto simp: bit_exp_iff)
  have m: "m = Suc j" "j \<le> 62" using assms jm by simp_all
  have x: "\<not> bit x n" if "unat x < 2 ^ j" "\<not> n < j" for n using bit_small [of x j n] that by blast
  note f = bit_make_entry [of k, unfolded jm]
  show "make_entry k c s x OR mask (k + 2) = make_entry k c True (mask (k + 1))"
    "make_entry k c s x OR mask (k + 1) = make_entry k c s (mask (k + 1))"
    "make_entry k c s x OR 2 ^ (k + 1) = make_entry k c True x"
    "make_entry k c s x AND NOT (2 ^ (k + 1)) = make_entry k c False x"
    "make_entry k c True y XOR (NOT (make_entry k c' s x) AND 2 ^ (k + 1)) = make_entry k c s y"
    "make_entry k c True y XOR 2 ^ (k + 1) = make_entry k c False y"
    "make_entry k c s x AND mask (k + 1) = x AND mask (k + 1)"
    unfolding jm using m(2) by (auto intro!: bit_word_eqI simp: f bit_simps e m(1))
  show "unat x < 2 ^ (k + 1) \<Longrightarrow> make_entry k c True (mask (k + 1)) XOR (x XOR mask (k + 1)) = make_entry k c True x"
    unfolding jm using m(2) x by (auto intro!: bit_word_eqI simp: f bit_simps e m(1))
qed


lemma fields_make_entry:
  assumes "k \<le> 61"
  shows "esafe k (make_entry k c s x) = s" "eindex k (make_entry k c s x) = x AND mask (k + 1)"
    "- 1 \<le> c \<Longrightarrow> c < 2 ^ (61 - k) \<Longrightarrow> ecycle k (make_entry k c s x) = c"
proof -
  show "esafe k (make_entry k c s x) = s" using assms by (simp add: esafe_def bit_make_entry)
  show "eindex k (make_entry k c s x) = x AND mask (k + 1)"
    unfolding eindex_def by (rule make_entry_ops(7) [OF assms])
  assume c: "- 1 \<le> c" "c < 2 ^ (61 - k)"
  have "bit (ecycle k (make_entry k c s x)) n = bit c (min n (61 - k))" for n
  proof (cases "n + k + 2 < 63")
    case True
    then show ?thesis by (simp only: bit_ecycle bit_make_entry) (auto simp: min_def)
  next
    case False
    then have "min n (61 - k) = 61 - k" "63 - (k + 2) = 61 - k" using assms by auto
    with False assms show ?thesis by (simp only: bit_ecycle bit_make_entry) auto
  qed
  then have "ecycle k (make_entry k c s x) = signed_take_bit (61 - k) c"
    by (intro bit_eqI) (simp add: bit_signed_take_bit_iff min.commute)
  also have "\<dots> = c"
    by (rule signed_take_bit_int_eq_self) (use c zero_less_power [of "2 :: int" "61 - k"] in linarith)+
  finally show "ecycle k (make_entry k c s x) = c" .
qed

lemma make_entry_mask:
  "make_entry k c True (mask (k + 1)) = word_of_int (c * 2 ^ (k + 2) + (2 ^ (k + 2) - 1))"
proof -
  obtain m where m: "k + 2 = m" by simp
  have "make_entry k c True (mask (k + 1)) = (push_bit m (word_of_int c) :: size_t) OR mask m"
    using m [symmetric] by (intro bit_word_eqI) (auto simp: bit_make_entry bit_simps simp del: push_bit_Suc)
  also have "\<dots> = push_bit m (word_of_int c) + mask m"
    by (subst disjunctive_add) (auto simp: bit_simps)
  also have "\<dots> = word_of_int (c * 2 ^ m + (2 ^ m - 1))" by (simp add: push_bit_eq_mult mask_eq_exp_minus_1)
  finally show ?thesis by (simp only: m)
qed

lemma sint_of_small: "- (2 ^ 63) \<le> z \<Longrightarrow> z < 2 ^ 63 \<Longrightarrow> sint (word_of_int z :: size_t) = z"
  by (simp add: sint_sbintrunc' signed_take_bit_int_eq_self)

lemma before_cycles:
  assumes "k \<le> 61" "- 1 \<le> c" "c < 2 ^ (61 - k)" "0 \<le> c'" "c' < 2 ^ (61 - k)"
  shows "before (make_entry k c True (mask (k + 1))) (make_entry k c' True (mask (k + 1))) = (c < c')"
proof -
  let ?z = "(c - c') * 2 ^ (k + 2)"
  have eq: "make_entry k c True (mask (k + 1)) - make_entry k c' True (mask (k + 1)) = word_of_int ?z"
    by (simp only: make_entry_mask flip: of_int_diff) (simp add: algebra_simps)
  have pow: "(2 :: int) ^ (61 - k) * 2 ^ (k + 2) = 2 ^ 63" using assms(1) by (simp flip: power_add)
  have "- (2 ^ (61 - k)) * 2 ^ (k + 2) \<le> ?z" "?z \<le> (2 ^ (61 - k) - 1) * 2 ^ (k + 2)"
    by (rule mult_right_mono; use assms in simp)+
  moreover have "(0 :: int) < 2 ^ (k + 2)" by simp
  ultimately have "- (2 ^ 63) \<le> ?z" "?z < 2 ^ 63" unfolding left_diff_distrib using pow by linarith+
  then have "sint (word_of_int ?z :: size_t) = ?z" by (rule sint_of_small)
  then show ?thesis unfolding before_def eq by (simp add: mult_less_0_iff)
qed

text \<open>The round of a ticket, and the cycle word that the code computes from it.\<close>

definition ticket_round :: "nat \<Rightarrow> size_t \<Rightarrow> int" where
  "ticket_round k t = uint t div 2 ^ (k + 1)"

lemma ticket_word:
  assumes "k \<le> 61"
  shows "push_bit 1 t OR mask (k + 2) = make_entry k (ticket_round k t) True (mask (k + 1))"
proof -
  obtain j where j: "k + 1 = j" by simp
  have "ticket_round k t = drop_bit j (uint t)" by (simp only: ticket_round_def drop_bit_eq_div j)
  then have "bit (ticket_round k t) n = bit t (n + k + 1)" for n
    using j by (auto simp: bit_drop_bit_eq bit_uint_iff ac_simps dest: bit_imp_le_length)
  moreover have "bit (push_bit 1 t) n = (1 \<le> n \<and> n < 64 \<and> bit t (n - 1))" for n
    by (simp only: bit_push_bit_iff) auto
  moreover have "n - (k + 2) + k + 1 = n - 1" if "k + 2 \<le> n" for n using that by simp
  ultimately show ?thesis
    by (intro bit_word_eqI) (simp only: bit_make_entry bit_or_iff bit_mask_iff, auto)
qed

lemma uint_less_of_unat:
  fixes t :: size_t
  assumes "unat t < 2 ^ m"
  shows "uint t < 2 ^ m"
proof -
  have "int (unat t) < int (2 ^ m)" using assms by (simp only: of_nat_less_iff)
  then show ?thesis by simp
qed

lemma ticket_round_bounds:
  assumes "k \<le> 61" "unat t < 2 ^ 62"
  shows "0 \<le> ticket_round k t" "ticket_round k t < 2 ^ (61 - k)"
proof -
  show "0 \<le> ticket_round k t" unfolding ticket_round_def by (rule pos_imp_zdiv_nonneg_iff [THEN iffD2]) simp_all
  have "uint t < 2 ^ 62" using assms(2) by (rule uint_less_of_unat)
  moreover have "(2 :: int) ^ 62 = 2 ^ (61 - k) * 2 ^ (k + 1)" using assms(1) by (simp flip: power_add)
  ultimately have "uint t < 2 ^ (61 - k) * 2 ^ (k + 1)" by (simp only:)
  moreover have "ticket_round k t * 2 ^ (k + 1) \<le> uint t"
    using div_mult_mod_eq [of "uint t" "2 ^ (k + 1)"]
      pos_mod_sign [of "2 ^ (k + 1)" "uint t", OF zero_less_power [OF zero_less_numeral]]
    unfolding ticket_round_def by linarith
  ultimately have "ticket_round k t * 2 ^ (k + 1) < 2 ^ (61 - k) * 2 ^ (k + 1)" by (rule le_less_trans [rotated])
  then show "ticket_round k t < 2 ^ (61 - k)" by (rule mult_right_less_imp_less) simp
qed


text \<open>The slot of a ticket; slot and round determine the ticket.\<close>

definition ticket_slot :: "nat \<Rightarrow> size_t \<Rightarrow> nat" where
  "ticket_slot k t = unat t mod 2 ^ (k + 1)"

lemma ticket_slot_less: "ticket_slot k t < 2 ^ (k + 1)"
  by (simp add: ticket_slot_def)

lemma ticket_round_nat: "ticket_round k t = int (unat t div 2 ^ (k + 1))"
  by (simp add: ticket_round_def zdiv_int)

lemma ticket_unat: "unat t = nat (ticket_round k t) * 2 ^ (k + 1) + ticket_slot k t"
proof -
  have "nat (ticket_round k t) = unat t div 2 ^ (k + 1)" by (simp add: ticket_round_nat)
  then show ?thesis by (simp only: ticket_slot_def div_mult_mod_eq)
qed

lemma ticket_eqI: "ticket_round k t = ticket_round k u \<Longrightarrow> ticket_slot k t = ticket_slot k u \<Longrightarrow> t = u"
  using ticket_unat [of t k] ticket_unat [of u k] by (simp add: word_unat_eq_iff)

lemma ticket_round_mono:
  assumes "ticket_slot k t = ticket_slot k u"
  shows "ticket_round k t < ticket_round k u \<longleftrightarrow> t < u"
proof -
  have "(unat t < unat u) = (nat (ticket_round k t) < nat (ticket_round k u))"
    unfolding ticket_unat [of t k] ticket_unat [of u k] assms by simp
  moreover have "0 \<le> ticket_round k t" "0 \<le> ticket_round k u"
    unfolding ticket_round_def by (rule pos_imp_zdiv_nonneg_iff [THEN iffD2]; simp)+
  ultimately show ?thesis by (auto simp: word_less_nat_alt)
qed

end
