(* ===== verification/Ring_Threads.thy ===== *)
theory Ring_Threads
  imports Ring_Entries
begin

text \<open>
  Any number of threads inside \<open>enqueue\<close>, \<open>try_dequeue\<close> and \<open>catch_up\<close> of one
  \<open>scalable_circular_index_queue\<close> (\<open>queue/detail/scalable_circular_index_queue.hpp\<close>). A step is one atomic
  access to the head, the tail, the threshold or an entry; a \<open>compare_exchange_weak\<close> may fail spuriously.
  The state carries a history of what was stored and taken out at which ticket and which tickets
  dequeuers gave up; the invariant relates it to the entries.
\<close>

section \<open>Program counters\<close>

text \<open>One constructor per point between two atomic accesses of \<open>enqueue\<close> (\<open>E_\<close>) and of \<open>try_dequeue\<close> with
  \<open>catch_up\<close> (\<open>D_\<close>), with the local variables that are live there.\<close>

datatype ring_pc =
    R_idle
  | R_enqueued
  | R_dequeued "size_t option"
  | E_ticket bool size_t
  | E_load bool size_t size_t
  | E_head bool size_t size_t size_t
  | E_cas bool size_t size_t size_t
  | E_threshold
  | E_rearm
  | D_threshold
  | D_ticket bool
  | D_load bool size_t nat
  | D_consume size_t size_t
  | D_cas bool size_t nat size_t size_t
  | D_tail size_t
  | D_catch_up size_t size_t
  | D_reload_head
  | D_reload_tail size_t
  | D_spend
  | D_spend_or_retry

text \<open>What \<open>enqueue\<close> does with an entry it has read, up to its next access.\<close>

definition enqueue_entry :: "scq \<Rightarrow> bool \<Rightarrow> size_t \<Rightarrow> size_t \<Rightarrow> size_t \<Rightarrow> ring_pc" where
  "enqueue_entry q known_nonempty index tail entry =
     (let tail_cycle = push_bit 1 tail OR cycle_mask q; entry_cycle = entry OR cycle_mask q in
      if \<not> before entry_cycle tail_cycle then E_ticket known_nonempty index
      else if entry = entry_cycle then E_cas known_nonempty index tail entry
      else if entry = entry_cycle XOR sq_ring_size q then E_head known_nonempty index tail entry
      else E_ticket known_nonempty index)"

text \<open>The end of a round of \<open>try_dequeue\<close> that found nothing at its ticket.\<close>

definition round_missed :: "bool \<Rightarrow> size_t \<Rightarrow> ring_pc" where
  "round_missed known_nonempty head = (if known_nonempty then D_ticket known_nonempty else D_tail head)"

text \<open>What \<open>try_dequeue\<close> does with an entry it has read, up to its next access.\<close>

definition dequeue_entry :: "scq \<Rightarrow> bool \<Rightarrow> size_t \<Rightarrow> nat \<Rightarrow> size_t \<Rightarrow> ring_pc" where
  "dequeue_entry q known_nonempty head attempts entry =
     (let head_cycle = push_bit 1 head OR cycle_mask q; entry_cycle = entry OR cycle_mask q;
          exchange = (\<lambda>attempts replacement.
            if \<not> before entry_cycle head_cycle then round_missed known_nonempty head
            else D_cas known_nonempty head attempts entry replacement) in
      if entry_cycle = head_cycle then D_consume head entry
      else if entry OR sq_ring_size q \<noteq> entry_cycle
      then (let replacement = entry AND NOT (sq_ring_size q) in
        if entry = replacement then round_missed known_nonempty head else exchange attempts replacement)
      else if attempts + 1 \<le> catchup_attempts then D_load known_nonempty head (attempts + 1)
      else exchange (attempts + 1) (head_cycle XOR (NOT entry AND sq_ring_size q)))"

section \<open>Steps\<close>

text \<open>The next access of a thread. \<open>spurious\<close> lets a \<open>compare_exchange_weak\<close> fail although the value is the
  expected one.\<close>

fun ring_move :: "bool \<Rightarrow> scq \<Rightarrow> ring_pc \<Rightarrow> (ring_pc \<times> scq) option" where
  "ring_move spurious q (E_ticket kn index) = Some (E_load kn index (sq_tail q), q\<lparr>sq_tail := sq_tail q + 1\<rparr>)"
| "ring_move spurious q (E_load kn index tail) =
     Some (enqueue_entry q kn index tail (sq_entries q ! unat (scq_map q tail)), q)"
| "ring_move spurious q (E_head kn index tail entry) =
     Some (if before_or_equal (sq_head q) tail then E_cas kn index tail entry else E_ticket kn index, q)"
| "ring_move spurious q (E_cas kn index tail entry) =
     (let target = unat (scq_map q tail); encoded_index = index XOR sq_ring_mask q;
          tail_cycle = push_bit 1 tail OR cycle_mask q in
      if sq_entries q ! target = entry \<and> \<not> spurious
      then Some (if kn then R_enqueued else E_threshold,
        q\<lparr>sq_entries := (sq_entries q)[target := tail_cycle XOR encoded_index]\<rparr>)
      else Some (enqueue_entry q kn index tail (sq_entries q ! target), q))"
| "ring_move spurious q E_threshold =
     Some (if sq_threshold q \<noteq> initial_threshold q then E_rearm else R_enqueued, q)"
| "ring_move spurious q E_rearm = Some (R_enqueued, q\<lparr>sq_threshold := initial_threshold q\<rparr>)"
| "ring_move spurious q D_threshold =
     Some (if sint (sq_threshold q) < 0 then R_dequeued None else D_ticket False, q)"
| "ring_move spurious q (D_ticket kn) = Some (D_load kn (sq_head q) 0, q\<lparr>sq_head := sq_head q + 1\<rparr>)"
| "ring_move spurious q (D_load kn head attempts) =
     Some (dequeue_entry q kn head attempts (sq_entries q ! unat (scq_map q head)), q)"
| "ring_move spurious q (D_consume head entry) =
     (let target = unat (scq_map q head) in
      Some (R_dequeued (Some (entry AND sq_ring_mask q)),
        q\<lparr>sq_entries := (sq_entries q)[target := sq_entries q ! target OR sq_ring_mask q]\<rparr>))"
| "ring_move spurious q (D_cas kn head attempts entry replacement) =
     (let target = unat (scq_map q head) in
      if sq_entries q ! target = entry \<and> \<not> spurious
      then Some (round_missed kn head, q\<lparr>sq_entries := (sq_entries q)[target := replacement]\<rparr>)
      else Some (dequeue_entry q kn head attempts (sq_entries q ! target), q))"
| "ring_move spurious q (D_tail head) =
     Some (if before_or_equal (sq_tail q) (head + 1) then D_catch_up (sq_tail q) (head + 1)
           else D_spend_or_retry, q)"
| "ring_move spurious q (D_catch_up tail head) =
     (if sq_tail q = tail \<and> \<not> spurious then Some (D_spend, q\<lparr>sq_tail := head\<rparr>) else Some (D_reload_head, q))"
| "ring_move spurious q D_reload_head = Some (D_reload_tail (sq_head q), q)"
| "ring_move spurious q (D_reload_tail head) =
     Some (if \<not> before (sq_tail q) head then D_spend else D_catch_up (sq_tail q) head, q)"
| "ring_move spurious q D_spend = Some (R_dequeued None, q\<lparr>sq_threshold := sq_threshold q - 1\<rparr>)"
| "ring_move spurious q D_spend_or_retry =
     Some (if sint (sq_threshold q) \<le> 0 then R_dequeued None else D_ticket False,
       q\<lparr>sq_threshold := sq_threshold q - 1\<rparr>)"
| "ring_move spurious q _ = None"

text \<open>The tickets that a thread holds, and the ghost events of a move: an index stored at a ticket, an
  index taken out at a ticket, a ticket given up.\<close>

fun enqueue_tickets :: "ring_pc \<Rightarrow> size_t list" where
  "enqueue_tickets (E_load kn index tail) = [tail]"
| "enqueue_tickets (E_head kn index tail entry) = [tail]"
| "enqueue_tickets (E_cas kn index tail entry) = [tail]"
| "enqueue_tickets _ = []"

fun dequeue_tickets :: "ring_pc \<Rightarrow> size_t list" where
  "dequeue_tickets (D_load kn head attempts) = [head]"
| "dequeue_tickets (D_consume head entry) = [head]"
| "dequeue_tickets (D_cas kn head attempts entry replacement) = [head]"
| "dequeue_tickets _ = []"

fun stored_by :: "ring_pc \<Rightarrow> ring_pc \<Rightarrow> (size_t \<times> size_t) list" where
  "stored_by (E_cas kn index tail entry) pc' = (if pc' \<in> {R_enqueued, E_threshold} then [(tail, index)] else [])"
| "stored_by _ _ = []"

fun taken_out_by :: "scq \<Rightarrow> ring_pc \<Rightarrow> (size_t \<times> size_t) list" where
  "taken_out_by q (D_consume head entry) = [(head, entry AND sq_ring_mask q)]"
| "taken_out_by q _ = []"

fun given_up_by :: "ring_pc \<Rightarrow> ring_pc \<Rightarrow> size_t list" where
  "given_up_by (D_load kn head attempts) pc' = (if dequeue_tickets pc' = [] then [head] else [])"
| "given_up_by (D_cas kn head attempts entry replacement) pc' = (if dequeue_tickets pc' = [] then [head] else [])"
| "given_up_by _ _ = []"

record ring_system =
  rs_q :: scq
  rs_threads :: "ring_pc list"
  rs_stored :: "(size_t \<times> size_t) list"
  rs_taken :: "(size_t \<times> size_t) list"
  rs_missed :: "size_t list"

fun ring_rest :: "ring_pc \<Rightarrow> bool" where
  "ring_rest R_idle = True"
| "ring_rest R_enqueued = True"
| "ring_rest (R_dequeued r) = True"
| "ring_rest _ = False"

inductive ring_step :: "ring_system \<Rightarrow> ring_system \<Rightarrow> bool" where
  call_enqueue: "i < length (rs_threads s) \<Longrightarrow> ring_rest (rs_threads s ! i) \<Longrightarrow> index < sq_capacity (rs_q s) \<Longrightarrow>
    ring_step s (s\<lparr>rs_threads := (rs_threads s)[i := E_ticket kn index]\<rparr>)"
| call_dequeue: "i < length (rs_threads s) \<Longrightarrow> ring_rest (rs_threads s ! i) \<Longrightarrow>
    ring_step s (s\<lparr>rs_threads := (rs_threads s)[i := if kn then D_ticket kn else D_threshold]\<rparr>)"
| access: "i < length (rs_threads s) \<Longrightarrow> ring_move spurious (rs_q s) (rs_threads s ! i) = Some (pc, q) \<Longrightarrow>
    ring_step s (s\<lparr>rs_q := q, rs_threads := (rs_threads s)[i := pc],
      rs_stored := rs_stored s @ stored_by (rs_threads s ! i) pc,
      rs_taken := rs_taken s @ taken_out_by (rs_q s) (rs_threads s ! i),
      rs_missed := rs_missed s @ given_up_by (rs_threads s ! i) pc\<rparr>)"

text \<open>A ring that starts full has stored index \<open>i\<close> at ticket \<open>i\<close>.\<close>

definition ring_start :: "size_t \<Rightarrow> bool \<Rightarrow> nat \<Rightarrow> ring_system" where
  "ring_start capacity initially_full n = \<lparr>rs_q = scq_new capacity initially_full,
     rs_threads = replicate n R_idle,
     rs_stored = (if initially_full then map (\<lambda>i. (of_nat i, of_nat i)) [0..<unat capacity] else []),
     rs_taken = [], rs_missed = []\<rparr>"

text \<open>Reached after \<open>m\<close> steps, from a capacity that the owning queue accepts.\<close>

inductive ring_reached :: "nat \<Rightarrow> bool \<Rightarrow> nat \<Rightarrow> nat \<Rightarrow> ring_system \<Rightarrow> bool" for k initially_full n where
  start: "1 \<le> k \<Longrightarrow> k \<le> 61 \<Longrightarrow> ring_reached k initially_full n 0 (ring_start (2 ^ k) initially_full n)"
| step: "ring_reached k initially_full n m s \<Longrightarrow> ring_step s s' \<Longrightarrow> ring_reached k initially_full n (Suc m) s'"

section \<open>What the code sees in an entry\<close>

definition ring_shape :: "nat \<Rightarrow> scq \<Rightarrow> bool" where
  "ring_shape k q = (1 \<le> k \<and> k \<le> 61 \<and> sq_capacity q = 2 ^ k \<and> sq_ring_size q = 2 ^ (k + 1) \<and>
     sq_ring_mask q = mask (k + 1) \<and> length (sq_entries q) = 2 ^ (k + 1))"

lemma ring_shape_D:
  assumes "ring_shape k q"
  shows "k \<le> 61" "sq_ring_size q = 2 ^ (k + 1)" "sq_ring_mask q = mask (k + 1)" "cycle_mask q = mask (k + 2)"
    "unat (scq_map q t) = ticket_slot k t" "length (sq_entries q) = 2 ^ (k + 1)"
proof -
  show f: "k \<le> 61" "sq_ring_size q = 2 ^ (k + 1)" "sq_ring_mask q = mask (k + 1)" "length (sq_entries q) = 2 ^ (k + 1)"
    using assms by (simp_all add: ring_shape_def)
  show "cycle_mask q = mask (k + 2)" using f(2) by (simp add: cycle_mask_def mask_eq_exp_minus_1)
  show "unat (scq_map q t) = ticket_slot k t"
    unfolding scq_map_def ticket_slot_def f(3) take_bit_eq_mask [symmetric] unsigned_take_bit_eq
    by (simp add: take_bit_eq_mod)
qed

definition entry_range :: "nat \<Rightarrow> size_t \<Rightarrow> bool" where
  "entry_range k e = (- 1 \<le> ecycle k e \<and> ecycle k e < 2 ^ (61 - k))"

lemma eempty_make: "k \<le> 61 \<Longrightarrow> eempty k (make_entry k c s (mask (k + 1)))"
  by (simp add: eempty_def fields_make_entry)

text \<open>The tests of the source on entry words, by the fields of the entry.\<close>

lemma entry_tests:
  assumes "k \<le> 61" "entry_range k e" "unat t < 2 ^ 62"
  shows "before (e OR mask (k + 2)) (push_bit 1 t OR mask (k + 2)) = (ecycle k e < ticket_round k t)"
    "(e OR mask (k + 2) = push_bit 1 t OR mask (k + 2)) = (ecycle k e = ticket_round k t)"
    "(e = e OR mask (k + 2)) = (esafe k e \<and> eempty k e)"
    "(e = (e OR mask (k + 2)) XOR 2 ^ (k + 1)) = (\<not> esafe k e \<and> eempty k e)"
    "(e OR 2 ^ (k + 1) = e OR mask (k + 2)) = eempty k e"
    "(e = make_entry k (ecycle k e) False (eindex k e)) = (\<not> esafe k e)"
    "e AND NOT (2 ^ (k + 1)) = make_entry k (ecycle k e) False (eindex k e)"
    "(push_bit 1 t OR mask (k + 2)) XOR (NOT e AND 2 ^ (k + 1)) = make_entry k (ticket_round k t) (esafe k e) (mask (k + 1))"
proof -
  define c s x where f: "c = ecycle k e" "s = esafe k e" "x = eindex k e"
  have e: "e = make_entry k c s x" using make_entry_fields [OF assms(1), of e] by (simp add: f)
  have c: "- 1 \<le> c" "c < 2 ^ (61 - k)" using assms(2) by (simp_all add: entry_range_def f)
  have x: "x AND mask (k + 1) = x" by (simp add: f eindex_def ac_simps)
  note r = ticket_round_bounds [OF assms(1,3)]
  note ops = make_entry_ops [OF assms(1)] and fl = fields_make_entry [OF assms(1)] and tw = ticket_word [OF assms(1)]
  have eq: "(make_entry k c s1 x = make_entry k c s' x') = (s1 = s' \<and> x = x' AND mask (k + 1))" for s1 s' x'
  proof
    assume "make_entry k c s1 x = make_entry k c s' x'"
    then show "s1 = s' \<and> x = x' AND mask (k + 1)" using fl(1,2) [of c s1 x] fl(1,2) [of c s' x'] x by simp
  qed (simp add: make_entry_def ac_simps)
  show "before (e OR mask (k + 2)) (push_bit 1 t OR mask (k + 2)) = (ecycle k e < ticket_round k t)"
    using before_cycles [OF assms(1) c r] by (simp only: tw f(1) [symmetric]) (simp only: e ops(1))
  show "(e OR mask (k + 2) = push_bit 1 t OR mask (k + 2)) = (ecycle k e = ticket_round k t)"
  proof -
    have "c = ticket_round k t"
      if h: "make_entry k c True (mask (k + 1)) = make_entry k (ticket_round k t) True (mask (k + 1))"
    proof -
      have "c = ecycle k (make_entry k c True (mask (k + 1)))" by (rule fl(3) [OF c, symmetric])
      also have "\<dots> = ticket_round k t" unfolding h by (rule fl(3)) (use r in linarith)+
      finally show ?thesis .
    qed
    then show ?thesis unfolding tw f(1) [symmetric] unfolding e ops(1) by blast
  qed
  show "(e = e OR mask (k + 2)) = (esafe k e \<and> eempty k e)"
    "(e = (e OR mask (k + 2)) XOR 2 ^ (k + 1)) = (\<not> esafe k e \<and> eempty k e)"
    unfolding eempty_def f(2,3) [symmetric] unfolding e ops(1,6) eq by simp_all
  show "(e OR 2 ^ (k + 1) = e OR mask (k + 2)) = eempty k e"
    unfolding eempty_def f(3) [symmetric] unfolding e ops(1,3) eq by simp
  show "(e = make_entry k (ecycle k e) False (eindex k e)) = (\<not> esafe k e)"
    unfolding f [symmetric] using eq [of s False x] x unfolding e by simp
  show "e AND NOT (2 ^ (k + 1)) = make_entry k (ecycle k e) False (eindex k e)"
    unfolding f [symmetric] unfolding e ops(4) ..
  show "(push_bit 1 t OR mask (k + 2)) XOR (NOT e AND 2 ^ (k + 1)) =
      make_entry k (ticket_round k t) (esafe k e) (mask (k + 1))"
    unfolding f(2) [symmetric] tw unfolding e ops(5) ..
qed

lemma enqueue_entry_eq:
  assumes "ring_shape k q" "entry_range k e" "unat t < 2 ^ 62"
  shows "enqueue_entry q kn index t e =
    (if ecycle k e < ticket_round k t \<and> eempty k e
     then if esafe k e then E_cas kn index t e else E_head kn index t e else E_ticket kn index)"
  unfolding enqueue_entry_def Let_def ring_shape_D(2,4) [OF assms(1)]
    entry_tests [OF ring_shape_D(1) [OF assms(1)] assms(2,3)] by auto

lemma dequeue_entry_eq:
  assumes "ring_shape k q" "entry_range k e" "unat h < 2 ^ 62"
  shows "dequeue_entry q kn h attempts e =
    (if ecycle k e = ticket_round k h then D_consume h e
     else if \<not> eempty k e
     then if esafe k e \<and> ecycle k e < ticket_round k h
       then D_cas kn h attempts e (make_entry k (ecycle k e) False (eindex k e)) else round_missed kn h
     else if attempts + 1 \<le> catchup_attempts then D_load kn h (attempts + 1)
     else if ecycle k e < ticket_round k h
     then D_cas kn h (attempts + 1) e (make_entry k (ticket_round k h) (esafe k e) (mask (k + 1)))
     else round_missed kn h)"
  unfolding dequeue_entry_def Let_def ring_shape_D(2,4) [OF assms(1)]
    entry_tests [OF ring_shape_D(1) [OF assms(1)] assms(2,3)] by simp


section \<open>The entries and the history\<close>

abbreviation entry_at :: "nat \<Rightarrow> scq \<Rightarrow> size_t \<Rightarrow> size_t" where
  "entry_at k q t \<equiv> sq_entries q ! ticket_slot k t"

text \<open>
  What the history says about one entry. An entry that carries the round of ticket \<open>t\<close> is empty because
  \<open>t\<close> was taken or given up, or it holds the index stored at \<open>t\<close>. An index that was stored and not taken
  is in its entry. The entry of a ticket that a dequeuer gave up has reached its round or is unsafe.
\<close>

definition slot_ok ::
  "nat \<Rightarrow> nat \<Rightarrow> size_t \<Rightarrow> (size_t \<times> size_t) list \<Rightarrow> (size_t \<times> size_t) list \<Rightarrow> size_t list \<Rightarrow> bool" where
  "slot_ok k j e A D M = (entry_range k e \<and> (ecycle k e = - 1 \<longrightarrow> eempty k e) \<and>
     (\<forall>t. ticket_slot k t = j \<longrightarrow> ticket_round k t = ecycle k e \<longrightarrow>
        (if eempty k e then t \<in> set M \<or> t \<in> fst ` set D else (t, eindex k e) \<in> set A \<and> t \<notin> fst ` set D)) \<and>
     (\<forall>t x. ticket_slot k t = j \<longrightarrow> (t, x) \<in> set A \<longrightarrow> t \<notin> fst ` set D \<longrightarrow>
        ticket_round k t = ecycle k e \<and> x = eindex k e) \<and>
     (\<forall>h. ticket_slot k h = j \<longrightarrow> h \<in> set M \<longrightarrow> ticket_round k h \<le> ecycle k e \<or> \<not> esafe k e))"

definition history_valid :: "nat \<Rightarrow> (size_t \<times> size_t) list \<Rightarrow> (size_t \<times> size_t) list \<Rightarrow> size_t list \<Rightarrow> bool" where
  "history_valid k A D M = (distinct (map fst A) \<and> (\<forall>(t, x) \<in> set A. unat x < 2 ^ k) \<and> set D \<subseteq> set A \<and>
     set M \<inter> fst ` set A = {})"

definition store_ok ::
  "nat \<Rightarrow> scq \<Rightarrow> (size_t \<times> size_t) list \<Rightarrow> (size_t \<times> size_t) list \<Rightarrow> size_t list \<Rightarrow> bool" where
  "store_ok k q A D M = (history_valid k A D M \<and> (\<forall>j < 2 ^ (k + 1). slot_ok k j (sq_entries q ! j) A D M))"

lemma store_slot: "store_ok k q A D M \<Longrightarrow> slot_ok k (ticket_slot k t) (entry_at k q t) A D M"
  using ticket_slot_less [of k t] by (simp add: store_ok_def)

lemma slot_ok_D:
  assumes "slot_ok k (ticket_slot k t) e A D M"
  shows "entry_range k e" "ecycle k e = - 1 \<Longrightarrow> eempty k e"
    "ticket_round k t = ecycle k e \<Longrightarrow> eempty k e \<Longrightarrow> t \<in> set M \<or> t \<in> fst ` set D"
    "ticket_round k t = ecycle k e \<Longrightarrow> \<not> eempty k e \<Longrightarrow> (t, eindex k e) \<in> set A \<and> t \<notin> fst ` set D"
    "(t, x) \<in> set A \<Longrightarrow> t \<notin> fst ` set D \<Longrightarrow> ticket_round k t = ecycle k e \<and> x = eindex k e"
    "t \<in> set M \<Longrightarrow> ticket_round k t \<le> ecycle k e \<or> \<not> esafe k e"
  using assms unfolding slot_ok_def by auto

text \<open>History at tickets of other slots does not matter to an entry.\<close>

lemma slot_ok_frame:
  assumes "slot_ok k j e A D M" "\<forall>t \<in> fst ` set a \<union> fst ` set d \<union> set m. ticket_slot k t \<noteq> j"
  shows "slot_ok k j e (A @ a) (D @ d) (M @ m)"
proof -
  have mem: "((t, x) \<in> set (A @ a)) = ((t, x) \<in> set A)" "(t \<in> fst ` set (D @ d)) = (t \<in> fst ` set D)"
    "(t \<in> set (M @ m)) = (t \<in> set M)" if "ticket_slot k t = j" for t x
    using assms(2) that by force+
  show ?thesis using assms(1) unfolding slot_ok_def by (simp add: mem del: set_append)
qed

lemma store_update:
  assumes "ring_shape k q" "store_ok k q A D M" "history_valid k (A @ a) (D @ d) (M @ m)"
    "slot_ok k (ticket_slot k t) e (A @ a) (D @ d) (M @ m)"
    "\<forall>u \<in> fst ` set a \<union> fst ` set d \<union> set m. u = t"
  shows "store_ok k (q\<lparr>sq_entries := (sq_entries q)[ticket_slot k t := e]\<rparr>) (A @ a) (D @ d) (M @ m)"
  unfolding store_ok_def
proof (intro conjI allI impI)
  show "history_valid k (A @ a) (D @ d) (M @ m)" by (rule assms(3))
  fix j :: nat assume j: "j < 2 ^ (k + 1)"
  show "slot_ok k j (sq_entries (q\<lparr>sq_entries := (sq_entries q)[ticket_slot k t := e]\<rparr>) ! j) (A @ a) (D @ d) (M @ m)"
  proof (cases "j = ticket_slot k t")
    case True
    with assms(4) show ?thesis using ring_shape_D(6) [OF assms(1)] ticket_slot_less [of k t] by simp
  next
    case False
    moreover have "slot_ok k j (sq_entries q ! j) A D M" using assms(2) j by (simp add: store_ok_def)
    moreover have "\<forall>u \<in> fst ` set a \<union> fst ` set d \<union> set m. ticket_slot k u \<noteq> j" using False assms(5) by metis
    ultimately show ?thesis using slot_ok_frame [of k j "sq_entries q ! j" A D M a d m] by simp
  qed
qed

lemma small_index_not_mask:
  fixes x :: size_t
  assumes "k \<le> 61" "unat x < 2 ^ k"
  shows "x AND mask (k + 1) = x" "x \<noteq> mask (k + 1)"
proof -
  have "unat x < 2 ^ (k + 1)" using assms(2) by (rule less_le_trans) simp
  from bit_small [OF this] have "take_bit (k + 1) x = x"
    by (intro bit_word_eqI) (auto simp: bit_take_bit_iff)
  then show "x AND mask (k + 1) = x" by (simp only: take_bit_eq_mask)
  have "bit (mask (k + 1) :: size_t) k" using assms(1) by (simp add: bit_mask_iff)
  then show "x \<noteq> mask (k + 1)" using bit_small [OF assms(2)] by blast
qed

lemma slot_occupied:
  assumes "k \<le> 61" "history_valid k A D M" "slot_ok k (ticket_slot k t) e A D M" "(t, x) \<in> set A" "t \<notin> fst ` set D"
  shows "ticket_round k t = ecycle k e" "x = eindex k e" "\<not> eempty k e"
proof -
  show f: "ticket_round k t = ecycle k e" "x = eindex k e" using slot_ok_D(5) [OF assms(3-5)] by simp_all
  have "unat x < 2 ^ k" using assms(2,4) by (auto simp: history_valid_def)
  with f(2) show "\<not> eempty k e" using small_index_not_mask(2) [OF assms(1)] by (auto simp: eempty_def)
qed


lemma entry_at_update:
  assumes "ring_shape k q"
  shows "entry_at k (q\<lparr>sq_entries := (sq_entries q)[ticket_slot k t := e]\<rparr>) u =
    (if ticket_slot k u = ticket_slot k t then e else entry_at k q u)"
  using ring_shape_D(6) [OF assms] ticket_slot_less [of k t] by simp

text \<open>The five ways in which an entry or its history changes.\<close>

lemma slot_given_up:
  assumes "slot_ok k (ticket_slot k h) e A D M" "ticket_round k h < ecycle k e \<or> \<not> esafe k e"
  shows "slot_ok k (ticket_slot k h) e A D (M @ [h])"
  using assms unfolding slot_ok_def by auto

lemma slot_marked:
  assumes "k \<le> 61" "slot_ok k (ticket_slot k h) e A D M"
  shows "slot_ok k (ticket_slot k h) (make_entry k (ecycle k e) False (eindex k e)) A D (M @ [h])"
proof -
  let ?r = "make_entry k (ecycle k e) False (eindex k e)"
  have "ecycle k ?r = ecycle k e" "eindex k ?r = eindex k e" "eempty k ?r = eempty k e" "\<not> esafe k ?r"
    using fields_make_entry [OF assms(1)] slot_ok_D(1) [OF assms(2)]
    by (simp_all add: entry_range_def eempty_def eindex_def ac_simps)
  with assms(2) show ?thesis unfolding slot_ok_def entry_range_def by auto
qed

lemma slot_skipped:
  assumes "k \<le> 61" "slot_ok k (ticket_slot k h) e A D M" "history_valid k A D M" "eempty k e"
    "ecycle k e < ticket_round k h" "unat h < 2 ^ 62"
  shows "slot_ok k (ticket_slot k h) (make_entry k (ticket_round k h) (esafe k e) (mask (k + 1))) A D (M @ [h])"
proof -
  define r where "r = make_entry k (ticket_round k h) (esafe k e) (mask (k + 1))"
  note b = ticket_round_bounds [OF assms(1,6)]
  have f: "ecycle k r = ticket_round k h" "eempty k r" "esafe k r = esafe k e"
    unfolding r_def using fields_make_entry [OF assms(1)] b eempty_make [OF assms(1)] by simp_all
  have none: "t \<in> fst ` set D" if "ticket_slot k t = ticket_slot k h" "(t, x) \<in> set A" for t x
    using slot_occupied(3) [OF assms(1,3), of t e x] assms(2,4) that by auto
  have eq: "t = h" if "ticket_slot k t = ticket_slot k h" "ticket_round k t = ticket_round k h" for t
    using ticket_eqI that by blast
  show ?thesis
    using assms(2,5) b none eq unfolding slot_ok_def entry_range_def r_def [symmetric] by (auto simp: f)
qed

lemma consumed_fields:
  assumes "k \<le> 61" "entry_range k e"
  shows "ecycle k (e OR mask (k + 1)) = ecycle k e" "eempty k (e OR mask (k + 1))"
    "esafe k (e OR mask (k + 1)) = esafe k e"
proof -
  obtain r where r: "r = e OR mask (k + 1)" by simp
  then have "r = make_entry k (ecycle k e) (esafe k e) (mask (k + 1))"
    using make_entry_ops(2) [OF assms(1), of "ecycle k e" "esafe k e" "eindex k e"]
    by (simp only: make_entry_fields [OF assms(1)])
  then have "ecycle k r = ecycle k e" "eempty k r" "esafe k r = esafe k e"
    using fields_make_entry [OF assms(1)] assms(2) eempty_make [OF assms(1)] by (simp_all add: entry_range_def)
  then show "ecycle k (e OR mask (k + 1)) = ecycle k e" "eempty k (e OR mask (k + 1))"
    "esafe k (e OR mask (k + 1)) = esafe k e" by (simp_all only: r)
qed

lemma slot_consumed:
  assumes "k \<le> 61" "slot_ok k (ticket_slot k h) e A D M" "\<not> eempty k e" "ecycle k e = ticket_round k h"
  shows "slot_ok k (ticket_slot k h) (e OR mask (k + 1)) A (D @ [(h, eindex k e)]) M"
proof -
  define r where "r = e OR mask (k + 1)"
  have f: "ecycle k r = ticket_round k h" "eempty k r" "esafe k r = esafe k e"
    using consumed_fields [OF assms(1) slot_ok_D(1) [OF assms(2)]] by (simp_all only: r_def assms(4))
  have eq: "t = h" if "ticket_slot k t = ticket_slot k h" "ticket_round k t = ticket_round k h" for t
    using ticket_eqI that by blast
  show ?thesis
    using assms(2,3,4) eq unfolding slot_ok_def entry_range_def r_def [symmetric] by (auto simp: f)
qed

lemma slot_stored:
  assumes "k \<le> 61" "slot_ok k (ticket_slot k t) e A D M" "history_valid k A D M" "eempty k e"
    "ecycle k e < ticket_round k t" "unat t < 2 ^ 62" "unat i < 2 ^ k" "t \<notin> fst ` set A"
    "\<forall>h \<in> set M. ticket_slot k h = ticket_slot k t \<longrightarrow> h < t"
  shows "slot_ok k (ticket_slot k t) (make_entry k (ticket_round k t) True i) (A @ [(t, i)]) D M"
proof -
  define r where "r = make_entry k (ticket_round k t) True i"
  note b = ticket_round_bounds [OF assms(1,6)] and i = small_index_not_mask [OF assms(1,7)]
  have f: "ecycle k r = ticket_round k t" "eindex k r = i" "\<not> eempty k r"
    unfolding r_def using fields_make_entry [OF assms(1)] b i by (simp_all add: eempty_def)
  have none: "u \<in> fst ` set D" if "ticket_slot k u = ticket_slot k t" "(u, x) \<in> set A" for u x
    using slot_occupied(3) [OF assms(1,3), of u e x] assms(2,4) that by auto
  have eq: "u = t" if "ticket_slot k u = ticket_slot k t" "ticket_round k u = ticket_round k t" for u
    using ticket_eqI that by blast
  have D: "t \<notin> fst ` set D" using assms(3,8) by (auto simp: history_valid_def)
  have M: "ticket_round k h \<le> ticket_round k t" if "h \<in> set M" "ticket_slot k h = ticket_slot k t" for h
    using ticket_round_mono [of k h t] assms(9) that by auto
  show ?thesis
    using b none eq D M unfolding slot_ok_def entry_range_def r_def [symmetric] by (auto simp: f)
qed


section \<open>What a thread knows\<close>

text \<open>An empty entry that an enqueuer has read: it is still there, or the entry has moved on to a later
  round.\<close>

definition entry_read :: "nat \<Rightarrow> scq \<Rightarrow> size_t \<Rightarrow> size_t \<Rightarrow> bool" where
  "entry_read k q t e = (eempty k e \<and> ecycle k e < ticket_round k t \<and>
     (entry_at k q t = e \<or> ecycle k e < ecycle k (entry_at k q t)))"

fun pc_ok :: "nat \<Rightarrow> scq \<Rightarrow> size_t list \<Rightarrow> ring_pc \<Rightarrow> bool" where
  "pc_ok k q M (E_ticket kn i) = (unat i < 2 ^ k)"
| "pc_ok k q M (E_load kn i t) = (unat i < 2 ^ k)"
| "pc_ok k q M (E_head kn i t e) = (unat i < 2 ^ k \<and> entry_read k q t e)"
| "pc_ok k q M (E_cas kn i t e) = (unat i < 2 ^ k \<and> entry_read k q t e \<and>
     (entry_at k q t = e \<longrightarrow> (\<forall>h \<in> set M. ticket_slot k h = ticket_slot k t \<longrightarrow> h < t)))"
| "pc_ok k q M (D_consume h e) = (ecycle k (entry_at k q h) = ticket_round k h \<and> \<not> eempty k (entry_at k q h) \<and>
     eindex k e = eindex k (entry_at k q h))"
| "pc_ok k q M (D_cas kn h attempts e r) = (ecycle k e < ticket_round k h \<and>
     r = (if eempty k e then make_entry k (ticket_round k h) (esafe k e) (mask (k + 1))
          else make_entry k (ecycle k e) False (eindex k e)))"
| "pc_ok k q M (D_tail h) = (h < sq_head q)"
| "pc_ok k q M (D_catch_up t h) = (t \<le> h \<and> h \<le> sq_head q)"
| "pc_ok k q M (D_reload_tail h) = (h \<le> sq_head q)"
| "pc_ok k q M _ = True"

lemma pc_ok_keep:
  assumes "pc_ok k q M pc" "sq_entries q' = sq_entries q" "sq_head q \<le> sq_head q'"
  shows "pc_ok k q' M pc"
  using assms by (cases pc) (auto simp: entry_read_def)

lemma pc_ok_given_up:
  assumes "pc_ok k q M pc" "eempty k (entry_at k q h) \<Longrightarrow> ticket_round k h < ecycle k (entry_at k q h)"
  shows "pc_ok k q (M @ [h]) pc"
proof (cases pc)
  case (E_cas kn i t e)
  have "h < t" if "entry_at k q t = e" "ticket_slot k h = ticket_slot k t"
    using assms E_cas that ticket_round_mono [of k h t] by (auto simp: entry_read_def)
  with assms(1) E_cas show ?thesis by auto
qed (use assms(1) in auto)

text \<open>An entry moves on: to a later round, or within its round when it was occupied.\<close>

definition entry_moves :: "nat \<Rightarrow> size_t \<Rightarrow> size_t \<Rightarrow> bool" where
  "entry_moves k e e' = (ecycle k e < ecycle k e' \<or> ecycle k e = ecycle k e' \<and> \<not> eempty k e)"

lemma entry_read_moves:
  assumes "ring_shape k q" "entry_read k q t e" "entry_moves k (entry_at k q u) e'"
  shows "entry_read k (q\<lparr>sq_entries := (sq_entries q)[ticket_slot k u := e']\<rparr>) t e"
    "ticket_slot k t = ticket_slot k u \<Longrightarrow> e' \<noteq> e"
proof -
  have "ecycle k e < ecycle k e'" if "ticket_slot k t = ticket_slot k u"
    using assms(2,3) that by (auto simp: entry_read_def entry_moves_def)
  then show "entry_read k (q\<lparr>sq_entries := (sq_entries q)[ticket_slot k u := e']\<rparr>) t e"
    "ticket_slot k t = ticket_slot k u \<Longrightarrow> e' \<noteq> e"
    using assms(2) unfolding entry_read_def entry_at_update [OF assms(1)] by auto
qed

lemma pc_ok_moves:
  assumes "ring_shape k q" "pc_ok k q M pc" "entry_moves k (entry_at k q u) e'" "set m \<subseteq> {u}"
    and consume: "\<And>h e. pc = D_consume h e \<Longrightarrow> ticket_slot k h = ticket_slot k u \<Longrightarrow>
      ecycle k (entry_at k q u) = ticket_round k h \<Longrightarrow> \<not> eempty k (entry_at k q u) \<Longrightarrow>
      ecycle k e' = ecycle k (entry_at k q u) \<and> \<not> eempty k e' \<and> eindex k e' = eindex k (entry_at k q u)"
  shows "pc_ok k (q\<lparr>sq_entries := (sq_entries q)[ticket_slot k u := e']\<rparr>) (M @ m) pc"
proof (cases pc)
  case (E_head kn i t e)
  then show ?thesis using assms(2) entry_read_moves(1) [OF assms(1) _ assms(3)] by simp
next
  case (E_cas kn i t e)
  then have "entry_read k q t e" using assms(2) by simp
  from entry_read_moves [OF assms(1) this assms(3)] assms(2,4) E_cas show ?thesis
    unfolding E_cas pc_ok.simps entry_at_update [OF assms(1)] by auto
next
  case (D_consume h e)
  with assms(2) consume [OF D_consume] show ?thesis unfolding D_consume pc_ok.simps entry_at_update [OF assms(1)] by auto
qed (use assms(2) in simp_all)


section \<open>The invariant of the system\<close>

text \<open>Every ticket below the head is held by one dequeuer, or was taken, or was given up; every ticket
  below the tail has at most one enqueuer.\<close>

definition tickets_ok :: "ring_system \<Rightarrow> bool" where
  "tickets_ok s = (
     (\<forall>t. count (gather dequeue_tickets (rs_threads s)) t + count (mset (map fst (rs_taken s))) t +
        count (mset (rs_missed s)) t = of_bool (t < sq_head (rs_q s))) \<and>
     (\<forall>t. count (gather enqueue_tickets (rs_threads s)) t + count (mset (map fst (rs_stored s))) t
        \<le> of_bool (t < sq_tail (rs_q s))))"

definition ring_inv :: "nat \<Rightarrow> nat \<Rightarrow> nat \<Rightarrow> ring_system \<Rightarrow> bool" where
  "ring_inv k n m s = (ring_shape k (rs_q s) \<and>
     store_ok k (rs_q s) (rs_stored s) (rs_taken s) (rs_missed s) \<and> tickets_ok s \<and>
     (\<forall>pc \<in> set (rs_threads s). pc_ok k (rs_q s) (rs_missed s) pc) \<and> length (rs_threads s) = n \<and>
     unat (sq_head (rs_q s)) \<le> m \<and> unat (sq_tail (rs_q s)) \<le> 2 ^ k + m)"

lemma in_gather: "i < length ts \<Longrightarrow> x \<in> set (f (ts ! i)) \<Longrightarrow> 0 < count (gather f ts) x"
  by (auto simp: gather_def in_multiset_in_set count_greater_zero_iff)

lemma held_once:
  fixes a b c :: nat
  assumes "0 < a" "a + b + c \<le> of_bool P"
  shows "P" "a = 1" "b = 0" "c = 0"
  using assms by (cases P; simp)+

lemma ring_inv_tickets:
  assumes "ring_inv k n m s" "m < 2 ^ 61" "i < n"
  shows "h \<in> set (dequeue_tickets (rs_threads s ! i)) \<Longrightarrow>
      h < sq_head (rs_q s) \<and> h \<notin> fst ` set (rs_taken s) \<and> h \<notin> set (rs_missed s) \<and> unat h < 2 ^ 62"
    "t \<in> set (enqueue_tickets (rs_threads s ! i)) \<Longrightarrow>
      t < sq_tail (rs_q s) \<and> t \<notin> fst ` set (rs_stored s) \<and> unat t < 2 ^ 62"
proof -
  from assms(1) have inv: "tickets_ok s" "length (rs_threads s) = n" "unat (sq_head (rs_q s)) \<le> m"
    "unat (sq_tail (rs_q s)) \<le> 2 ^ k + m" "k \<le> 61" by (simp_all add: ring_inv_def ring_shape_def)
  have "(2 :: nat) ^ k \<le> 2 ^ 61" using inv(5) by (intro power_increasing) simp_all
  with inv(3,4) assms(2) have b: "unat (sq_head (rs_q s)) < 2 ^ 62" "unat (sq_tail (rs_q s)) < 2 ^ 62" by simp_all
  show "h < sq_head (rs_q s) \<and> h \<notin> fst ` set (rs_taken s) \<and> h \<notin> set (rs_missed s) \<and> unat h < 2 ^ 62"
    if h: "h \<in> set (dequeue_tickets (rs_threads s ! i))"
  proof -
    have "0 < count (gather dequeue_tickets (rs_threads s)) h" using in_gather [of i "rs_threads s" h dequeue_tickets] h assms(3) inv(2) by simp
    moreover have "count (gather dequeue_tickets (rs_threads s)) h + count (mset (map fst (rs_taken s))) h +
        count (mset (rs_missed s)) h = of_bool (h < sq_head (rs_q s))" using inv(1) by (simp add: tickets_ok_def)
    ultimately have "h < sq_head (rs_q s)" "count (mset (map fst (rs_taken s))) h = 0"
      "count (mset (rs_missed s)) h = 0" using held_once by (metis order_refl)+
    then show ?thesis using b(1) by (auto simp: count_eq_zero_iff word_less_nat_alt)
  qed
  show "t < sq_tail (rs_q s) \<and> t \<notin> fst ` set (rs_stored s) \<and> unat t < 2 ^ 62"
    if t: "t \<in> set (enqueue_tickets (rs_threads s ! i))"
  proof -
    have "0 < count (gather enqueue_tickets (rs_threads s)) t" using in_gather [of i "rs_threads s" t enqueue_tickets] t assms(3) inv(2) by simp
    moreover have "count (gather enqueue_tickets (rs_threads s)) t + count (mset (map fst (rs_stored s))) t \<le>
        of_bool (t < sq_tail (rs_q s))" using inv(1) by (simp add: tickets_ok_def)
    ultimately have "t < sq_tail (rs_q s)" "count (mset (map fst (rs_stored s))) t = 0"
      using held_once [of "count (gather enqueue_tickets (rs_threads s)) t" _ 0] by simp_all
    then show ?thesis using b(2) by (auto simp: count_eq_zero_iff word_less_nat_alt)
  qed
qed

text \<open>One access, put together from what it does to each part.\<close>

lemma ring_inv_access:
  assumes inv: "ring_inv k n m s" and i: "i < n"
    and shape: "ring_shape k q"
    and store: "store_ok k q (rs_stored s @ a) (rs_taken s @ d) (rs_missed s @ u)"
    and deq: "\<And>t. count (mset (dequeue_tickets pc)) t + count (mset (map fst d)) t + count (mset u) t +
        of_bool (t < sq_head (rs_q s)) =
      count (mset (dequeue_tickets (rs_threads s ! i))) t + of_bool (t < sq_head q)"
    and enq: "\<And>t. count (mset (enqueue_tickets pc)) t + count (mset (map fst a)) t + of_bool (t < sq_tail (rs_q s)) \<le>
      count (mset (enqueue_tickets (rs_threads s ! i))) t + (of_bool (t < sq_tail q) :: nat)"
    and pc: "pc_ok k q (rs_missed s @ u) pc"
    and others: "\<And>j. j < n \<Longrightarrow> j \<noteq> i \<Longrightarrow> pc_ok k q (rs_missed s @ u) (rs_threads s ! j)"
    and bounds: "unat (sq_head q) \<le> Suc m" "unat (sq_tail q) \<le> 2 ^ k + Suc m"
  shows "ring_inv k n (Suc m) (s\<lparr>rs_q := q, rs_threads := (rs_threads s)[i := pc], rs_stored := rs_stored s @ a,
    rs_taken := rs_taken s @ d, rs_missed := rs_missed s @ u\<rparr>)"
proof -
  from inv have len: "length (rs_threads s) = n" and tk: "tickets_ok s" by (simp_all add: ring_inv_def)
  have il: "i < length (rs_threads s)" using i len by simp
  have g: "count (gather f ((rs_threads s)[i := pc])) t + count (mset (f (rs_threads s ! i))) t =
      count (gather f (rs_threads s)) t + count (mset (f pc)) t" for f and t :: size_t
    using arg_cong [OF gather_update [OF il, of f pc], of "\<lambda>X. count X t"] by simp
  have tk': "tickets_ok (s\<lparr>rs_q := q, rs_threads := (rs_threads s)[i := pc], rs_stored := rs_stored s @ a,
    rs_taken := rs_taken s @ d, rs_missed := rs_missed s @ u\<rparr>)" (is "tickets_ok ?s")
    unfolding tickets_ok_def
  proof (intro conjI allI)
    fix t
    show "count (gather dequeue_tickets (rs_threads ?s)) t + count (mset (map fst (rs_taken ?s))) t +
        count (mset (rs_missed ?s)) t = of_bool (t < sq_head (rs_q ?s))"
      using conjunct1 [OF tk [unfolded tickets_ok_def], rule_format, of t] g [of dequeue_tickets t] deq [of t] by simp
    show "count (gather enqueue_tickets (rs_threads ?s)) t + count (mset (map fst (rs_stored ?s))) t
        \<le> of_bool (t < sq_tail (rs_q ?s))"
      using conjunct2 [OF tk [unfolded tickets_ok_def], rule_format, of t] g [of enqueue_tickets t] enq [of t] by simp
  qed
  have "pc_ok k q (rs_missed s @ u) ((rs_threads s)[i := pc] ! j)" if "j < n" for j
    using pc others [OF that] il by (cases "j = i") simp_all
  then have "\<forall>x \<in> set ((rs_threads s)[i := pc]). pc_ok k q (rs_missed s @ u) x"
    using len by (simp add: all_set_conv_all_nth)
  with shape store bounds len tk' show ?thesis by (simp add: ring_inv_def)
qed


lemma before_small:
  assumes "unat a < 2 ^ 62" "unat b < 2 ^ 62"
  shows "before a b = (a < b)" "before_or_equal a b = (a \<le> b)"
proof -
  have lt: "uint a < 2 ^ 62" "uint b < 2 ^ 62" using assms by (simp_all only: uint_less_of_unat)
  have "a - b = word_of_int (uint a - uint b)" by simp
  moreover have "sint (word_of_int (uint a - uint b) :: size_t) = uint a - uint b"
    using lt uint_ge_0 [of a] uint_ge_0 [of b] power_increasing [of 62 63 "2 :: int"]
    by (intro sint_of_small) linarith+
  ultimately have "sint (a - b) = uint a - uint b" by metis
  then show "before a b = (a < b)" "before_or_equal a b = (a \<le> b)"
    by (simp_all add: before_def before_or_equal_def word_less_def word_le_def)
qed

lemma less_plus_one:
  fixes t h :: size_t
  assumes "unat h < 2 ^ 62"
  shows "of_bool (t < h + 1) = of_bool (t < h) + (of_bool (t = h) :: nat)" "unat (h + 1) = unat h + 1"
proof -
  show u: "unat (h + 1) = unat h + 1" using unat_plus_one [of h "2 ^ 62"] assms by simp
  show "of_bool (t < h + 1) = of_bool (t < h) + (of_bool (t = h) :: nat)"
    unfolding word_less_nat_alt u by (auto simp: word_unat_eq_iff)
qed

text \<open>The facts about the state before a step.\<close>

lemma ring_inv_facts:
  assumes "ring_inv k n m s" "m < 2 ^ 61" "i < n"
  shows "ring_shape k (rs_q s)" "store_ok k (rs_q s) (rs_stored s) (rs_taken s) (rs_missed s)"
    "pc_ok k (rs_q s) (rs_missed s) (rs_threads s ! i)" "unat (sq_head (rs_q s)) < 2 ^ 62"
    "unat (sq_tail (rs_q s)) < 2 ^ 62" "unat (sq_head (rs_q s)) \<le> m" "unat (sq_tail (rs_q s)) \<le> 2 ^ k + m"
    "history_valid k (rs_stored s) (rs_taken s) (rs_missed s)" "k \<le> 61"
    "\<And>h. h \<in> set (rs_missed s) \<Longrightarrow> h < sq_head (rs_q s)"
proof -
  from assms(1) have inv: "tickets_ok s" "length (rs_threads s) = n" by (simp_all add: ring_inv_def)
  show s: "ring_shape k (rs_q s)" "store_ok k (rs_q s) (rs_stored s) (rs_taken s) (rs_missed s)"
    "unat (sq_head (rs_q s)) \<le> m" "unat (sq_tail (rs_q s)) \<le> 2 ^ k + m"
    using assms(1) by (simp_all add: ring_inv_def)
  show "pc_ok k (rs_q s) (rs_missed s) (rs_threads s ! i)" using assms(1,3) inv(2) by (simp add: ring_inv_def)
  show k: "k \<le> 61" using s(1) by (simp add: ring_shape_def)
  show "history_valid k (rs_stored s) (rs_taken s) (rs_missed s)" using s(2) by (simp add: store_ok_def)
  have "(2 :: nat) ^ k \<le> 2 ^ 61" using k by (intro power_increasing) simp_all
  with s(3,4) assms(2) show "unat (sq_head (rs_q s)) < 2 ^ 62" "unat (sq_tail (rs_q s)) < 2 ^ 62" by simp_all
  fix h assume "h \<in> set (rs_missed s)"
  then have "0 < count (mset (rs_missed s)) h" by simp
  moreover have "count (gather dequeue_tickets (rs_threads s)) h + count (mset (map fst (rs_taken s))) h +
        count (mset (rs_missed s)) h = of_bool (h < sq_head (rs_q s))" using inv(1) by (simp add: tickets_ok_def)
  ultimately show "h < sq_head (rs_q s)" by (cases "h < sq_head (rs_q s)") simp_all
qed

lemma store_ok_entries: "sq_entries q' = sq_entries q \<Longrightarrow> store_ok k q' = store_ok k q"
  by (simp add: store_ok_def fun_eq_iff)

text \<open>Accesses that neither take a ticket nor change an entry.\<close>

lemma ring_quiet:
  assumes "ring_inv k n m s" "m < 2 ^ 61" "i < n"
    "sq_entries q = sq_entries (rs_q s)" "sq_head q = sq_head (rs_q s)" "sq_tail q = sq_tail (rs_q s)" "ring_shape k q"
    "dequeue_tickets pc = dequeue_tickets (rs_threads s ! i)"
    "set_mset (mset (enqueue_tickets pc)) = {} \<or> enqueue_tickets pc = enqueue_tickets (rs_threads s ! i)"
    "pc_ok k (rs_q s) (rs_missed s) pc"
  shows "ring_inv k n (Suc m) (s\<lparr>rs_q := q, rs_threads := (rs_threads s)[i := pc], rs_stored := rs_stored s @ [],
    rs_taken := rs_taken s @ [], rs_missed := rs_missed s @ []\<rparr>)"
proof (rule ring_inv_access [OF assms(1,3,7)])
  note F = ring_inv_facts [OF assms(1-3)]
  show "store_ok k q (rs_stored s @ []) (rs_taken s @ []) (rs_missed s @ [])"
    using F(2) store_ok_entries [OF assms(4)] by simp
  show "pc_ok k q (rs_missed s @ []) pc" using pc_ok_keep [OF assms(10,4)] assms(5) by simp
  show "pc_ok k q (rs_missed s @ []) (rs_threads s ! j)" if "j < n" for j
    using pc_ok_keep [OF ring_inv_facts(3) [OF assms(1,2) that] assms(4)] assms(5) by simp
qed (use assms ring_inv_facts(6,7) [OF assms(1-3)] in auto)


section \<open>The accesses keep the invariant\<close>

abbreviation after_access ::
  "ring_system \<Rightarrow> nat \<Rightarrow> ring_pc \<Rightarrow> scq \<Rightarrow> (size_t \<times> size_t) list \<Rightarrow> (size_t \<times> size_t) list \<Rightarrow> size_t list \<Rightarrow> ring_system"
  where "after_access s i pc q a d u \<equiv> s\<lparr>rs_q := q, rs_threads := (rs_threads s)[i := pc],
    rs_stored := rs_stored s @ a, rs_taken := rs_taken s @ d, rs_missed := rs_missed s @ u\<rparr>"

lemma take_tail_ticket:
  assumes "ring_inv k n m s" "m < 2 ^ 61" "i < n" "rs_threads s ! i = E_ticket kn index"
  shows "ring_inv k n (Suc m) (after_access s i (E_load kn index (sq_tail (rs_q s)))
    ((rs_q s)\<lparr>sq_tail := sq_tail (rs_q s) + 1\<rparr>) [] [] [])"
proof (rule ring_inv_access [OF assms(1,3)])
  note F = ring_inv_facts [OF assms(1-3)]
  let ?q = "(rs_q s)\<lparr>sq_tail := sq_tail (rs_q s) + 1\<rparr>"
  show "ring_shape k ?q" using F(1) by (simp add: ring_shape_def)
  show "store_ok k ?q (rs_stored s @ []) (rs_taken s @ []) (rs_missed s @ [])" using F(2) by (simp add: store_ok_def)
  show "pc_ok k ?q (rs_missed s @ []) (E_load kn index (sq_tail (rs_q s)))" using F(3) assms(4) by simp
  show "pc_ok k ?q (rs_missed s @ []) (rs_threads s ! j)" if "j < n" for j
    using pc_ok_keep [OF ring_inv_facts(3) [OF assms(1,2) that], of ?q] by simp
qed (use assms less_plus_one ring_inv_facts [OF assms(1-3)] in auto)

lemma take_head_ticket:
  assumes "ring_inv k n m s" "m < 2 ^ 61" "i < n" "rs_threads s ! i = D_ticket kn"
  shows "ring_inv k n (Suc m) (after_access s i (D_load kn (sq_head (rs_q s)) 0)
    ((rs_q s)\<lparr>sq_head := sq_head (rs_q s) + 1\<rparr>) [] [] [])"
proof (rule ring_inv_access [OF assms(1,3)])
  note F = ring_inv_facts [OF assms(1-3)]
  let ?q = "(rs_q s)\<lparr>sq_head := sq_head (rs_q s) + 1\<rparr>"
  show "ring_shape k ?q" using F(1) by (simp add: ring_shape_def)
  show "store_ok k ?q (rs_stored s @ []) (rs_taken s @ []) (rs_missed s @ [])" using F(2) by (simp add: store_ok_def)
  have "sq_head (rs_q s) \<le> sq_head (rs_q s) + 1" using less_plus_one(2) [OF F(4)] by (simp add: word_le_nat_alt)
  then show "pc_ok k ?q (rs_missed s @ []) (rs_threads s ! j)" if "j < n" for j
    using pc_ok_keep [OF ring_inv_facts(3) [OF assms(1,2) that], of ?q] by simp
qed (use assms less_plus_one ring_inv_facts [OF assms(1-3)] in auto)

lemma catch_up_tail:
  assumes "ring_inv k n m s" "m < 2 ^ 61" "i < n" "rs_threads s ! i = D_catch_up (sq_tail (rs_q s)) h"
  shows "ring_inv k n (Suc m) (after_access s i D_spend ((rs_q s)\<lparr>sq_tail := h\<rparr>) [] [] [])"
proof (rule ring_inv_access [OF assms(1,3)])
  note F = ring_inv_facts [OF assms(1-3)]
  let ?q = "(rs_q s)\<lparr>sq_tail := h\<rparr>"
  have h: "sq_tail (rs_q s) \<le> h" "h \<le> sq_head (rs_q s)" using F(3) assms(4) by simp_all
  show "ring_shape k ?q" using F(1) by (simp add: ring_shape_def)
  show "store_ok k ?q (rs_stored s @ []) (rs_taken s @ []) (rs_missed s @ [])" using F(2) by (simp add: store_ok_def)
  show "pc_ok k ?q (rs_missed s @ []) (rs_threads s ! j)" if "j < n" for j
    using pc_ok_keep [OF ring_inv_facts(3) [OF assms(1,2) that], of ?q] by simp
  show "unat (sq_tail ?q) \<le> 2 ^ k + Suc m" using h(2) F(6) by (simp add: word_le_nat_alt)
  show "count (mset (enqueue_tickets D_spend)) t + count (mset (map fst [])) t + of_bool (t < sq_tail (rs_q s)) \<le>
      count (mset (enqueue_tickets (rs_threads s ! i))) t + of_bool (t < sq_tail ?q)" for t
    using h(1) by (auto simp: of_bool_def)
qed (use assms ring_inv_facts [OF assms(1-3)] in auto)

text \<open>An enqueuer evaluates an entry it has just read.\<close>

lemma read_for_enqueue:
  assumes "ring_inv k n m s" "m < 2 ^ 61" "i < n" "enqueue_tickets (rs_threads s ! i) = [t]"
    "dequeue_tickets (rs_threads s ! i) = []" "unat index < 2 ^ k"
  shows "ring_inv k n (Suc m) (after_access s i (enqueue_entry (rs_q s) kn index t (entry_at k (rs_q s) t))
    (rs_q s) [] [] [])"
proof -
  note F = ring_inv_facts [OF assms(1-3)]
  let ?e = "entry_at k (rs_q s) t"
  have t: "unat t < 2 ^ 62" using ring_inv_tickets(2) [OF assms(1-3)] assms(4) by simp
  note slot = store_slot [OF F(2), of t]
  have "h < t" if "esafe k ?e" "ecycle k ?e < ticket_round k t" "h \<in> set (rs_missed s)" "ticket_slot k h = ticket_slot k t" for h
    using slot_ok_D(6) [of k h ?e] slot that ticket_round_mono [of k h t] by fastforce
  then have "pc_ok k (rs_q s) (rs_missed s) (enqueue_entry (rs_q s) kn index t ?e)"
    unfolding enqueue_entry_eq [OF F(1) slot_ok_D(1) [OF slot] t] using assms(6) by (auto simp: entry_read_def)
  moreover have "set_mset (mset (enqueue_tickets (enqueue_entry (rs_q s) kn index t ?e))) = {} \<or>
      enqueue_tickets (enqueue_entry (rs_q s) kn index t ?e) = enqueue_tickets (rs_threads s ! i)"
    "dequeue_tickets (enqueue_entry (rs_q s) kn index t ?e) = dequeue_tickets (rs_threads s ! i)"
    unfolding enqueue_entry_eq [OF F(1) slot_ok_D(1) [OF slot] t] assms(4,5) by auto
  ultimately show ?thesis using ring_quiet [OF assms(1-3) refl refl refl F(1)] by blast
qed


lemma round_missed_tickets: "dequeue_tickets (round_missed kn h) = []" "enqueue_tickets (round_missed kn h) = []"
  "pc_ok k q M (round_missed kn h) = (kn \<or> h < sq_head q)"
  by (simp_all add: round_missed_def)

lemma history_given_up:
  assumes "k \<le> 61" "history_valid k A D M" "slot_ok k (ticket_slot k h) e A D M" "h \<notin> fst ` set D"
    "ecycle k e \<noteq> ticket_round k h"
  shows "history_valid k A D (M @ [h])"
proof -
  have "h \<notin> fst ` set A" using slot_occupied(1) [OF assms(1-3)] assms(4,5) by force
  with assms(2) show ?thesis by (auto simp: history_valid_def)
qed

text \<open>A dequeuer gives up its ticket after reading its entry.\<close>

lemma give_up:
  assumes "ring_inv k n m s" "m < 2 ^ 61" "i < n" "dequeue_tickets (rs_threads s ! i) = [h]"
    "enqueue_tickets (rs_threads s ! i) = []" "ecycle k (entry_at k (rs_q s) h) \<noteq> ticket_round k h"
    "ticket_round k h < ecycle k (entry_at k (rs_q s) h) \<or>
      \<not> eempty k (entry_at k (rs_q s) h) \<and> \<not> esafe k (entry_at k (rs_q s) h)"
  shows "ring_inv k n (Suc m) (after_access s i (round_missed kn h) (rs_q s) [] [] [h])"
proof (rule ring_inv_access [OF assms(1,3)])
  note F = ring_inv_facts [OF assms(1-3)]
  let ?q = "rs_q s" and ?e = "entry_at k (rs_q s) h"
  have h: "h < sq_head ?q" "h \<notin> fst ` set (rs_taken s)"
    using ring_inv_tickets(1) [OF assms(1-3)] assms(4) by simp_all
  note slot = store_slot [OF F(2), of h]
  have "store_ok k (?q\<lparr>sq_entries := (sq_entries ?q)[ticket_slot k h := ?e]\<rparr>)
      (rs_stored s @ []) (rs_taken s @ []) (rs_missed s @ [h])"
  proof (rule store_update [OF F(1,2)])
    show "history_valid k (rs_stored s @ []) (rs_taken s @ []) (rs_missed s @ [h])"
      using history_given_up [OF F(9,8) slot h(2) assms(6)] by simp
    show "slot_ok k (ticket_slot k h) ?e (rs_stored s @ []) (rs_taken s @ []) (rs_missed s @ [h])"
      using slot_given_up [OF slot] assms(7) by auto
  qed simp
  then show "store_ok k ?q (rs_stored s @ []) (rs_taken s @ []) (rs_missed s @ [h])"
    by (simp add: store_ok_def)
  have "ticket_round k h < ecycle k ?e" if "eempty k ?e" using assms(7) that by blast
  then show "pc_ok k ?q (rs_missed s @ [h]) (rs_threads s ! j)" if "j < n" for j
    using pc_ok_given_up [OF ring_inv_facts(3) [OF assms(1,2) that]] by blast
  show "pc_ok k ?q (rs_missed s @ [h]) (round_missed kn h)" using h(1) by (simp add: round_missed_tickets)
qed (use assms ring_inv_facts [OF assms(1-3)] round_missed_tickets in auto)

lemma read_for_dequeue:
  assumes "ring_inv k n m s" "m < 2 ^ 61" "i < n" "dequeue_tickets (rs_threads s ! i) = [h]"
    "enqueue_tickets (rs_threads s ! i) = []"
    "pc = dequeue_entry (rs_q s) kn h attempts (entry_at k (rs_q s) h)"
  shows "ring_inv k n (Suc m) (after_access s i pc (rs_q s) [] [] (if dequeue_tickets pc = [] then [h] else []))"
proof -
  note F = ring_inv_facts [OF assms(1-3)]
  let ?e = "entry_at k (rs_q s) h"
  have h: "unat h < 2 ^ 62" "h \<notin> fst ` set (rs_taken s)" "h \<notin> set (rs_missed s)"
    using ring_inv_tickets(1) [OF assms(1-3)] assms(4) by simp_all
  note slot = store_slot [OF F(2), of h]
  note pc = assms(6) [unfolded dequeue_entry_eq [OF F(1) slot_ok_D(1) [OF slot] h(1)]]
  have occupied: "\<not> eempty k ?e" if "ecycle k ?e = ticket_round k h"
    using slot_ok_D(3) [OF slot] that h(2,3) by auto
  consider (keep) "dequeue_tickets pc = [h]" "enqueue_tickets pc = []" "pc_ok k (rs_q s) (rs_missed s) pc"
    | (miss) "pc = round_missed kn h" "ecycle k ?e \<noteq> ticket_round k h"
      "ticket_round k h < ecycle k ?e \<or> \<not> eempty k ?e \<and> \<not> esafe k ?e"
    using pc occupied by (auto split: if_splits)
  then show ?thesis
  proof cases
    case keep
    then have "set_mset (mset (enqueue_tickets pc)) = {} \<or> enqueue_tickets pc = enqueue_tickets (rs_threads s ! i)"
      "dequeue_tickets pc = dequeue_tickets (rs_threads s ! i)" using assms(4,5) by simp_all
    from ring_quiet [OF assms(1-3) refl refl refl F(1) this(2,1) keep(3)] keep(1) show ?thesis by simp
  next
    case miss
    then show ?thesis using give_up [OF assms(1-5) miss(2,3)] by (simp add: round_missed_tickets)
  qed
qed


text \<open>The three successful changes of an entry.\<close>

lemma exchange_for_enqueue:
  assumes "ring_inv k n m s" "m < 2 ^ 61" "i < n" "rs_threads s ! i = E_cas kn index t e" "entry_at k (rs_q s) t = e"
    "dequeue_tickets pc = []" "enqueue_tickets pc = []" "\<And>q M. pc_ok k q M pc"
  shows "ring_inv k n (Suc m) (after_access s i pc ((rs_q s)\<lparr>sq_entries :=
    (sq_entries (rs_q s))[ticket_slot k t := make_entry k (ticket_round k t) True index]\<rparr>) [(t, index)] [] [])"
proof (rule ring_inv_access [OF assms(1,3)])
  note F = ring_inv_facts [OF assms(1-3)]
  let ?r = "make_entry k (ticket_round k t) True index"
  let ?q = "(rs_q s)\<lparr>sq_entries := (sq_entries (rs_q s))[ticket_slot k t := ?r]\<rparr>"
  have t: "unat t < 2 ^ 62" "t \<notin> fst ` set (rs_stored s)" using ring_inv_tickets(2) [OF assms(1-3)] assms(4) by simp_all
  have pc: "unat index < 2 ^ k" "eempty k e" "ecycle k e < ticket_round k t"
    "\<forall>h \<in> set (rs_missed s). ticket_slot k h = ticket_slot k t \<longrightarrow> h < t"
    using F(3) assms(4,5) by (auto simp: entry_read_def)
  note slot = store_slot [OF F(2), of t, unfolded assms(5)]
  show "ring_shape k ?q" using F(1) by (simp add: ring_shape_def)
  show "store_ok k ?q (rs_stored s @ [(t, index)]) (rs_taken s @ []) (rs_missed s @ [])"
  proof (rule store_update [OF F(1,2)])
    show "history_valid k (rs_stored s @ [(t, index)]) (rs_taken s @ []) (rs_missed s @ [])"
      using F(8) t(2) pc(1,4) by (force simp: history_valid_def)
    show "slot_ok k (ticket_slot k t) ?r (rs_stored s @ [(t, index)]) (rs_taken s @ []) (rs_missed s @ [])"
      using slot_stored [OF F(9) slot F(8) pc(2,3) t(1) pc(1) t(2) pc(4)] by simp
  qed simp
  have "ecycle k ?r = ticket_round k t" using fields_make_entry(3) [OF F(9)] ticket_round_bounds [OF F(9) t(1)] by simp
  then have "entry_moves k (entry_at k (rs_q s) t) ?r" using pc(3) assms(5) by (simp add: entry_moves_def)
  then show "pc_ok k ?q (rs_missed s @ []) (rs_threads s ! j)" if "j < n" for j
    using pc_ok_moves [OF F(1) ring_inv_facts(3) [OF assms(1,2) that], of t ?r "[]"] pc(2) assms(5) by simp
qed (use assms ring_inv_facts [OF assms(1-3)] in auto)

lemma exchange_for_dequeue:
  assumes "ring_inv k n m s" "m < 2 ^ 61" "i < n" "rs_threads s ! i = D_cas kn h attempts e r"
    "entry_at k (rs_q s) h = e"
  shows "ring_inv k n (Suc m) (after_access s i (round_missed kn h) ((rs_q s)\<lparr>sq_entries :=
    (sq_entries (rs_q s))[ticket_slot k h := r]\<rparr>) [] [] [h])"
proof (rule ring_inv_access [OF assms(1,3)])
  note F = ring_inv_facts [OF assms(1-3)]
  let ?q = "(rs_q s)\<lparr>sq_entries := (sq_entries (rs_q s))[ticket_slot k h := r]\<rparr>"
  have h: "unat h < 2 ^ 62" "h \<notin> fst ` set (rs_taken s)" "h < sq_head (rs_q s)"
    using ring_inv_tickets(1) [OF assms(1-3)] assms(4) by simp_all
  have pc: "ecycle k e < ticket_round k h"
    "r = (if eempty k e then make_entry k (ticket_round k h) (esafe k e) (mask (k + 1))
          else make_entry k (ecycle k e) False (eindex k e))"
    using F(3) assms(4) by simp_all
  note slot = store_slot [OF F(2), of h, unfolded assms(5)]
  have r: "ecycle k r = (if eempty k e then ticket_round k h else ecycle k e)"
    "\<not> eempty k e \<Longrightarrow> eindex k r = eindex k e" "\<not> eempty k e \<Longrightarrow> \<not> eempty k r"
    using fields_make_entry [OF F(9)] ticket_round_bounds [OF F(9) h(1)] slot_ok_D(1) [OF slot]
    by (simp_all add: pc(2) entry_range_def eempty_def eindex_def ac_simps)
  show "ring_shape k ?q" using F(1) by (simp add: ring_shape_def)
  show "store_ok k ?q (rs_stored s @ []) (rs_taken s @ []) (rs_missed s @ [h])"
  proof (rule store_update [OF F(1,2)])
    show "history_valid k (rs_stored s @ []) (rs_taken s @ []) (rs_missed s @ [h])"
      using history_given_up [OF F(9,8) slot h(2)] pc(1) by simp
    show "slot_ok k (ticket_slot k h) r (rs_stored s @ []) (rs_taken s @ []) (rs_missed s @ [h])"
      using slot_skipped [OF F(9) slot F(8) _ pc(1) h(1)] slot_marked [OF F(9) slot] by (simp add: pc(2))
  qed simp
  have "entry_moves k (entry_at k (rs_q s) h) r" using pc(1) r(1) assms(5) by (simp add: entry_moves_def)
  then show "pc_ok k ?q (rs_missed s @ [h]) (rs_threads s ! j)" if "j < n" for j
    using pc_ok_moves [OF F(1) ring_inv_facts(3) [OF assms(1,2) that], of h r "[h]"] r assms(5) by simp
  show "pc_ok k ?q (rs_missed s @ [h]) (round_missed kn h)" using h(3) by (simp add: round_missed_tickets)
qed (use assms ring_inv_facts [OF assms(1-3)] round_missed_tickets in auto)

lemma held_by_one:
  assumes "ring_inv k n m s" "i < n" "j < n" "h \<in> set (dequeue_tickets (rs_threads s ! i))"
    "h \<in> set (dequeue_tickets (rs_threads s ! j))"
  shows "i = j"
proof (rule ccontr)
  assume "i \<noteq> j"
  from assms(1) have inv: "tickets_ok s" "length (rs_threads s) = n" by (simp_all add: ring_inv_def)
  from gather_twice [of i "rs_threads s" j h dequeue_tickets] assms \<open>i \<noteq> j\<close> inv(2)
  have "1 < count (gather dequeue_tickets (rs_threads s)) h" by simp
  moreover have "count (gather dequeue_tickets (rs_threads s)) h + count (mset (map fst (rs_taken s))) h +
        count (mset (rs_missed s)) h = of_bool (h < sq_head (rs_q s))" using inv(1) by (simp add: tickets_ok_def)
  ultimately show False by (cases "h < sq_head (rs_q s)") simp_all
qed

lemma consume_entry:
  assumes "ring_inv k n m s" "m < 2 ^ 61" "i < n" "rs_threads s ! i = D_consume h e"
    "dequeue_tickets pc = []" "enqueue_tickets pc = []" "\<And>q M. pc_ok k q M pc"
  shows "ring_inv k n (Suc m) (after_access s i pc ((rs_q s)\<lparr>sq_entries :=
    (sq_entries (rs_q s))[ticket_slot k h := entry_at k (rs_q s) h OR mask (k + 1)]\<rparr>) [] [(h, eindex k e)] [])"
proof (rule ring_inv_access [OF assms(1,3)])
  note F = ring_inv_facts [OF assms(1-3)]
  let ?e = "entry_at k (rs_q s) h"
  let ?q = "(rs_q s)\<lparr>sq_entries := (sq_entries (rs_q s))[ticket_slot k h := ?e OR mask (k + 1)]\<rparr>"
  have pc: "ecycle k ?e = ticket_round k h" "\<not> eempty k ?e" "eindex k e = eindex k ?e" using F(3) assms(4) by simp_all
  note slot = store_slot [OF F(2), of h]
  have A: "(h, eindex k e) \<in> set (rs_stored s)" using slot_ok_D(4) [OF slot] pc by simp
  show "ring_shape k ?q" using F(1) by (simp add: ring_shape_def)
  show "store_ok k ?q (rs_stored s @ []) (rs_taken s @ [(h, eindex k e)]) (rs_missed s @ [])"
  proof (rule store_update [OF F(1,2)])
    show "history_valid k (rs_stored s @ []) (rs_taken s @ [(h, eindex k e)]) (rs_missed s @ [])"
      using F(8) A by (auto simp: history_valid_def)
    show "slot_ok k (ticket_slot k h) (?e OR mask (k + 1)) (rs_stored s @ []) (rs_taken s @ [(h, eindex k e)]) (rs_missed s @ [])"
      using slot_consumed [OF F(9) slot pc(2,1)] pc(3) by simp
  qed simp
  have moves: "entry_moves k ?e (?e OR mask (k + 1))"
    unfolding entry_moves_def
    by (intro disjI2 conjI consumed_fields(1) [OF F(9) slot_ok_D(1) [OF slot], symmetric] pc(2))
  show "pc_ok k ?q (rs_missed s @ []) (rs_threads s ! j)" if "j < n" "j \<noteq> i" for j
  proof (rule pc_ok_moves [OF F(1) ring_inv_facts(3) [OF assms(1,2) that(1)] moves])
    fix h' e' assume j: "rs_threads s ! j = D_consume h' e'" and h': "ticket_slot k h' = ticket_slot k h"
      "ecycle k ?e = ticket_round k h'"
    have "h' = h" using ticket_eqI [OF trans [OF h'(2) [symmetric] pc(1)] h'(1)] .
    with j have "j = i" using held_by_one [OF assms(1) that(1) assms(3), of h] assms(4) by simp
    with that(2) show "ecycle k (?e OR mask (k + 1)) = ecycle k ?e \<and> \<not> eempty k (?e OR mask (k + 1)) \<and>
      eindex k (?e OR mask (k + 1)) = eindex k ?e" by blast
  qed simp
qed (use assms ring_inv_facts [OF assms(1-3)] in auto)


section \<open>Every reachable state satisfies the invariant\<close>

lemma enqueue_entry_not_done: "enqueue_entry q kn index t e \<notin> {R_enqueued, E_threshold}"
  by (simp add: enqueue_entry_def Let_def)

abbreviation after_move :: "ring_system \<Rightarrow> nat \<Rightarrow> ring_pc \<Rightarrow> scq \<Rightarrow> ring_system" where
  "after_move s i pc q \<equiv> after_access s i pc q (stored_by (rs_threads s ! i) pc)
     (taken_out_by (rs_q s) (rs_threads s ! i)) (given_up_by (rs_threads s ! i) pc)"

lemma access_E_cas:
  assumes "ring_inv k n m s" "m < 2 ^ 61" "i < n" "ring_move spurious (rs_q s) (rs_threads s ! i) = Some (pc, q)"
    and at_pc: "rs_threads s ! i = E_cas kn index t e"
  shows "ring_inv k n (Suc m) (after_move s i pc q)"
proof -
  note F = ring_inv_facts [OF assms(1-3)] and move = assms(4)
  note S = ring_shape_D [OF F(1)]
  show ?thesis
  proof (cases "entry_at k (rs_q s) t = e \<and> \<not> spurious")
    case True
    have "unat index < 2 ^ (k + 1)" using F(3) at_pc by (auto intro: less_le_trans)
    then have w: "(push_bit 1 t OR cycle_mask (rs_q s)) XOR (index XOR sq_ring_mask (rs_q s)) =
        make_entry k (ticket_round k t) True index"
      using make_entry_ops(8) [OF F(9), of index "ticket_round k t"] by (simp only: S(3,4) ticket_word [OF F(9)])
    have pc: "pc = (if kn then R_enqueued else E_threshold)" "q = (rs_q s)\<lparr>sq_entries :=
        (sq_entries (rs_q s))[ticket_slot k t := make_entry k (ticket_round k t) True index]\<rparr>"
      using move at_pc True by (simp_all only: ring_move.simps Let_def S(5) w if_True simp_thms option.inject prod.inject)
    show ?thesis using exchange_for_enqueue [OF assms(1-3) at_pc, of pc] True at_pc unfolding pc by simp
  next
    case False
    then have "pc = enqueue_entry (rs_q s) kn index t (entry_at k (rs_q s) t)" "q = rs_q s"
      using move at_pc by (auto simp: S(5) Let_def)
    with read_for_enqueue [OF assms(1-3), of t index kn] F(3) at_pc
      enqueue_entry_not_done [of "rs_q s" kn index t "entry_at k (rs_q s) t"] show ?thesis by simp
  qed
qed

lemma access_D_cas:
  assumes "ring_inv k n m s" "m < 2 ^ 61" "i < n" "ring_move spurious (rs_q s) (rs_threads s ! i) = Some (pc, q)"
    and at_pc: "rs_threads s ! i = D_cas kn h attempts e r"
  shows "ring_inv k n (Suc m) (after_move s i pc q)"
proof -
  note F = ring_inv_facts [OF assms(1-3)] and move = assms(4)
  note S = ring_shape_D [OF F(1)]
  show ?thesis
  proof (cases "entry_at k (rs_q s) h = e \<and> \<not> spurious")
    case True
    with exchange_for_dequeue [OF assms(1-3) at_pc] move at_pc show ?thesis
      by (auto simp: S(5) Let_def round_missed_tickets)
  next
    case False
    then have pc: "pc = dequeue_entry (rs_q s) kn h attempts (entry_at k (rs_q s) h)" and q: "q = rs_q s"
      using move at_pc by (auto simp: S(5) Let_def)
    from read_for_dequeue [OF assms(1-3) _ _ pc] at_pc show ?thesis unfolding q by simp
  qed
qed

lemma access_D_tail:
  assumes "ring_inv k n m s" "m < 2 ^ 61" "i < n" "ring_move spurious (rs_q s) (rs_threads s ! i) = Some (pc, q)"
    and at_pc: "rs_threads s ! i = D_tail h"
  shows "ring_inv k n (Suc m) (after_move s i pc q)"
proof -
  note F = ring_inv_facts [OF assms(1-3)] and move = assms(4)
  note quiet = ring_quiet [OF assms(1-3) _ _ _ _ _ _, where q = q and pc = pc]
  have "h < sq_head (rs_q s)" using F(3) at_pc by simp
  then have h: "unat h + 1 \<le> unat (sq_head (rs_q s))" "unat h < 2 ^ 62" using F(4) by (simp_all add: word_less_nat_alt)
  then have h1: "unat (h + 1) < 2 ^ 62" "h + 1 \<le> sq_head (rs_q s)"
    using less_plus_one(2) [OF h(2)] F(4) by (simp_all add: word_le_nat_alt)
  then show ?thesis using quiet move F(1) at_pc before_small(2) [OF F(5) h1(1)] by (auto split: if_splits)
qed

lemma access_D_catch_up:
  assumes "ring_inv k n m s" "m < 2 ^ 61" "i < n" "ring_move spurious (rs_q s) (rs_threads s ! i) = Some (pc, q)"
    and at_pc: "rs_threads s ! i = D_catch_up t h"
  shows "ring_inv k n (Suc m) (after_move s i pc q)"
proof -
  note F = ring_inv_facts [OF assms(1-3)] and move = assms(4)
  note quiet = ring_quiet [OF assms(1-3) _ _ _ _ _ _, where q = q and pc = pc]
  then show ?thesis
  proof (cases "sq_tail (rs_q s) = t \<and> \<not> spurious")
    case True
    with catch_up_tail [OF assms(1-3), of h] at_pc move show ?thesis by auto
  next
    case False
    then show ?thesis using quiet move F(1) at_pc by (auto split: if_splits)
  qed
qed

lemma ring_access:
  assumes "ring_inv k n m s" "m < 2 ^ 61" "i < n" "ring_move spurious (rs_q s) (rs_threads s ! i) = Some (pc, q)"
  shows "ring_inv k n (Suc m) (after_move s i pc q)"
proof -
  note F = ring_inv_facts [OF assms(1-3)] and move = assms(4)
  note S = ring_shape_D [OF F(1)]
  note quiet = ring_quiet [OF assms(1-3) _ _ _ _ _ _, where q = q and pc = pc]
  show ?thesis
  proof (cases "rs_threads s ! i")
    case (E_ticket kn index)
    with take_tail_ticket [OF assms(1-3) E_ticket] move show ?thesis by auto
  next
    case (E_load kn index t)
    then have "pc = enqueue_entry (rs_q s) kn index t (entry_at k (rs_q s) t)" "q = rs_q s"
      using move by (auto simp: S(5))
    with read_for_enqueue [OF assms(1-3), of t index kn] F(3) E_load show ?thesis by simp
  next
    case (E_head kn index t e)
    have t: "unat t < 2 ^ 62" using ring_inv_tickets(2) [OF assms(1-3)] E_head by simp
    have "h < t" if "sq_head (rs_q s) \<le> t" "h \<in> set (rs_missed s)" for h using F(10) [OF that(2)] that(1) by simp
    then show ?thesis
      using quiet move F(1,3) E_head before_small(2) [OF F(4) t] by (auto split: if_splits)
  next
    case (E_cas kn index t e)
    from access_E_cas [OF assms this] show ?thesis .
  next
    case (D_ticket kn)
    with take_head_ticket [OF assms(1-3) D_ticket] move show ?thesis by auto
  next
    case (D_load kn h attempts)
    then have pc: "pc = dequeue_entry (rs_q s) kn h attempts (entry_at k (rs_q s) h)" and q: "q = rs_q s"
      using move by (auto simp: S(5))
    from read_for_dequeue [OF assms(1-3) _ _ pc] D_load show ?thesis unfolding q by simp
  next
    case (D_consume h e)
    with consume_entry [OF assms(1-3) D_consume, of pc] move show ?thesis by (auto simp: S(3,5) Let_def eindex_def)
  next
    case (D_cas kn h attempts e r)
    from access_D_cas [OF assms this] show ?thesis .
  next
    case (D_tail h)
    from access_D_tail [OF assms this] show ?thesis .
  next
    case (D_catch_up t h)
    from access_D_catch_up [OF assms this] show ?thesis .
  next
    case (D_reload_tail h)
    have "h \<le> sq_head (rs_q s)" using F(3) D_reload_tail by simp
    moreover from this have "unat h < 2 ^ 62" using F(4) by (simp add: word_le_nat_alt)
    ultimately show ?thesis
      using quiet move F(1) D_reload_tail before_small(1) [OF F(5)] by (auto split: if_splits)
  qed (use quiet move F(1) in \<open>auto simp: ring_shape_def split: if_splits\<close>)
qed

lemma ring_call:
  assumes "ring_inv k n m s" "m < 2 ^ 61" "i < n" "ring_rest (rs_threads s ! i)"
    "dequeue_tickets pc = []" "enqueue_tickets pc = []" "pc_ok k (rs_q s) (rs_missed s) pc"
  shows "ring_inv k n (Suc m) (s\<lparr>rs_threads := (rs_threads s)[i := pc]\<rparr>)"
proof -
  have "dequeue_tickets pc = dequeue_tickets (rs_threads s ! i)" using assms(4,5) by (cases "rs_threads s ! i") simp_all
  from ring_quiet [OF assms(1-3) refl refl refl ring_inv_facts(1) [OF assms(1-3)] this _ assms(7)] assms(6)
  show ?thesis by simp
qed

lemma ring_step_inv:
  assumes "ring_inv k n m s" "m < 2 ^ 61" "ring_step s s'"
  shows "ring_inv k n (Suc m) s'"
  using assms(3)
proof cases
  case (call_enqueue i index kn)
  then have i: "i < n" using assms(1) by (simp add: ring_inv_def)
  have "sq_capacity (rs_q s) = 2 ^ k" "k \<le> 61" using assms(1) by (simp_all add: ring_inv_def ring_shape_def)
  with call_enqueue(4) have "unat index < 2 ^ k" using capacity_words(1) [of k] by (simp add: word_less_nat_alt)
  with call_enqueue(1,3) show ?thesis using ring_call [OF assms(1,2) i] by simp
next
  case (call_dequeue i kn)
  then have i: "i < n" using assms(1) by (simp add: ring_inv_def)
  with call_dequeue(1,3) show ?thesis using ring_call [OF assms(1,2) i] by simp
next
  case (access i spurious pc q)
  then have i: "i < n" using assms(1) by (simp add: ring_inv_def)
  with access(1,3) show ?thesis using ring_access [OF assms(1,2) i] by simp
qed

lemma small_ticket: "k \<le> 61 \<Longrightarrow> i < 2 ^ k \<Longrightarrow> unat (of_nat i :: size_t) = i"
  using power_increasing [of k 61 "2 :: nat"] by (intro unat_of_nat_small) simp

lemma new_entries:
  assumes "1 \<le> k" "k \<le> 61" "j < 2 ^ (k + 1)"
  shows "sq_entries (scq_new (2 ^ k) full) ! j =
    (if full \<and> j < 2 ^ k then make_entry k 0 True (of_nat j) else make_entry k (- 1) True (mask (k + 1)))"
proof -
  have minus: "make_entry k (- 1) True (mask (k + 1)) = - 1" unfolding make_entry_mask by simp
  show ?thesis
  proof (cases full)
    case True
    have "2 ^ (k + 1) + of_nat j = make_entry k 0 True (of_nat j)" if "j < 2 ^ k"
    proof -
      obtain b where b: "b = k + 1" by simp
      have x: "unat (of_nat j :: size_t) < 2 ^ k" using small_ticket [OF assms(2) that] that by simp
      then have "\<not> bit (of_nat j :: size_t) b" using bit_small [of "of_nat j" k b] b by auto
      then have "(2 ^ b + of_nat j :: size_t) = 2 ^ b OR of_nat j"
        by (subst disjunctive_add) (auto simp: bit_exp_iff)
      then show ?thesis unfolding make_entry_def small_index_not_mask(1) [OF assms(2) x] b by simp
    qed
    with True scq_new_full_entries(1) [OF assms] minus show ?thesis by simp
  next
    case False
    have "int j < 2 ^ (k + 1)" using assms(3) by (metis of_nat_less_iff of_nat_numeral of_nat_power)
    then show ?thesis
      using scq_inv_D(9) [OF scq_new_empty [OF assms(1,2)] assms(3)] slot_of_small [OF assms(3)] False minus
        cyc_first_rounds(1) [of "int j" k] by (simp add: expected_entry_def)
  qed
qed


lemma start_slot:
  assumes "1 \<le> k" "k \<le> 61" "j < 2 ^ (k + 1)"
  shows "slot_ok k j (sq_entries (scq_new (2 ^ k) full) ! j)
    (if full then map (\<lambda>i. (of_nat i, of_nat i)) [0..<2 ^ k] else []) [] []"
proof -
  note small = small_ticket [OF assms(2)]
  have slot: "ticket_slot k (of_nat i) = i" "ticket_round k (of_nat i) = 0" if "i < 2 ^ k" for i
    using small [OF that] that by (simp_all add: ticket_slot_def ticket_round_nat)
  have nonneg: "0 \<le> ticket_round k t" for t by (simp add: ticket_round_nat)
  have c: "- 1 < (2 :: int) ^ (61 - k)" "(0 :: int) < 2 ^ (61 - k)"
    using zero_less_power [of "2 :: int" "61 - k"] by linarith+
  note f = fields_make_entry [OF assms(2)]
  show ?thesis
  proof (cases "full \<and> j < 2 ^ k")
    case True
    define e where "e = make_entry k 0 True (of_nat j)"
    have x: "unat (of_nat j :: size_t) < 2 ^ k" using small True by simp
    have e: "ecycle k e = 0" "eindex k e = of_nat j" "\<not> eempty k e"
      unfolding e_def using f c small_index_not_mask [OF assms(2) x] by (simp_all add: eempty_def)
    have eq: "t = of_nat j" if "ticket_slot k t = j" "ticket_round k t = 0" for t
      using ticket_eqI [of k t "of_nat j"] that slot True by simp
    have "sq_entries (scq_new (2 ^ k) full) ! j = e" using new_entries [OF assms] True by (simp add: e_def)
    moreover have "(t, of_nat j) \<in> (\<lambda>i. (of_nat i, of_nat i)) ` {0..<2 ^ k}"
      if "ticket_slot k t = j" "ticket_round k t = 0" for t using eq [OF that] True by simp
    ultimately show ?thesis using True slot c by (auto simp: slot_ok_def entry_range_def e)
  next
    case False
    define e where "e = make_entry k (- 1) True (mask (k + 1))"
    have e: "ecycle k e = - 1" "eempty k e"
      unfolding e_def using f(3) [of "- 1"] c eempty_make [OF assms(2)] by simp_all
    have "sq_entries (scq_new (2 ^ k) full) ! j = e" by (simp only: e_def new_entries [OF assms] False if_False)
    moreover have "ticket_round k t \<noteq> - 1" for t using nonneg [of t] by linarith
    moreover have "entry_range k e" by (simp only: entry_range_def e(1) order_refl c(1) simp_thms)
    ultimately show ?thesis using False slot by (auto simp: slot_ok_def e)
  qed
qed

lemma ring_start_inv:
  assumes "1 \<le> k" "k \<le> 61"
  shows "ring_inv k n 0 (ring_start (2 ^ k) full n)"
proof -
  note cap = capacity_words [OF assms(2)]
  note small = small_ticket [OF assms(2)]
  let ?q = "scq_new (2 ^ k) full" 
  let ?A = "if full then map (\<lambda>i. (of_nat i :: size_t, of_nat i :: size_t)) [0..<2 ^ k] else []"
  have inv: "scq_inv k 0 (if full then map of_nat [0..<2 ^ k] else []) ?q"
    using scq_new_empty [OF assms] scq_new_full [OF assms] by simp
  note D = scq_inv_D [OF inv]
  have shape: "ring_shape k ?q" using D(3-6) assms by (simp add: ring_shape_def)
  have ht: "sq_head ?q = 0" "sq_tail ?q = (if full then 2 ^ k else 0)" using D(7,8) by simp_all
  have inj: "inj_on (of_nat :: nat \<Rightarrow> size_t) (set [0..<2 ^ k])"
    using small by (intro inj_on_inverseI [of _ unat]) simp
  have fst: "map fst ?A = (if full then map of_nat [0..<2 ^ k] else [])" by (simp add: comp_def)
  have dist: "distinct (map fst ?A)" unfolding fst using inj by (auto simp: distinct_map)
  then have "history_valid k ?A [] []" using small by (auto simp: history_valid_def)
  then have store: "store_ok k ?q ?A [] []" using start_slot [OF assms] by (simp add: store_ok_def)
  have count: "count (mset (map fst ?A)) t \<le> of_bool (t < sq_tail ?q)" for t
  proof -
    have "count (mset (map fst ?A)) t \<le> 1" using dist by (simp only: distinct_count_atmost_1) simp
    moreover have "t < sq_tail ?q" if "t \<in> set (map fst ?A)"
      using that small cap(1) unfolding fst ht by (auto simp: word_less_nat_alt split: if_splits)
    ultimately show ?thesis by (cases "t < sq_tail ?q") (auto simp: count_eq_zero_iff simp del: mset_map)
  qed
  let ?s = "ring_start (2 ^ k) full n"
  have s: "rs_q ?s = ?q" "rs_threads ?s = replicate n R_idle" "rs_stored ?s = ?A" "rs_taken ?s = []" "rs_missed ?s = []"
    by (simp_all add: ring_start_def cap(1))
  have "tickets_ok ?s"
    unfolding tickets_ok_def s ht(1)
    by (intro conjI allI) (simp add: gather_replicate, simp only: gather_replicate enqueue_tickets.simps count_empty add_0 count)
  with shape store show ?thesis using ht cap(1) unfolding ring_inv_def s by simp
qed

lemma ring_reached_inv: "ring_reached k full n m s \<Longrightarrow> m \<le> 2 ^ 61 \<Longrightarrow> ring_inv k n m s"
  by (induction rule: ring_reached.induct) (auto intro: ring_start_inv ring_step_inv)


section \<open>Schedules\<close>

text \<open>A schedule that can be run; every state it leads to is reached.\<close>

datatype ring_action = Start_enqueue nat bool size_t | Start_dequeue nat bool | Access nat bool

fun ring_act :: "ring_action \<Rightarrow> ring_system \<Rightarrow> ring_system option" where
  "ring_act (Start_enqueue i kn index) s =
     (if i < length (rs_threads s) \<and> ring_rest (rs_threads s ! i) \<and> index < sq_capacity (rs_q s)
      then Some (s\<lparr>rs_threads := (rs_threads s)[i := E_ticket kn index]\<rparr>) else None)"
| "ring_act (Start_dequeue i kn) s =
     (if i < length (rs_threads s) \<and> ring_rest (rs_threads s ! i)
      then Some (s\<lparr>rs_threads := (rs_threads s)[i := if kn then D_ticket kn else D_threshold]\<rparr>) else None)"
| "ring_act (Access i spurious) s = (if i < length (rs_threads s) then
     (case ring_move spurious (rs_q s) (rs_threads s ! i) of
        None \<Rightarrow> None
      | Some (pc, q) \<Rightarrow> Some (s\<lparr>rs_q := q, rs_threads := (rs_threads s)[i := pc],
          rs_stored := rs_stored s @ stored_by (rs_threads s ! i) pc,
          rs_taken := rs_taken s @ taken_out_by (rs_q s) (rs_threads s ! i),
          rs_missed := rs_missed s @ given_up_by (rs_threads s ! i) pc\<rparr>)) else None)"

fun ring_run :: "ring_action list \<Rightarrow> ring_system \<Rightarrow> ring_system option" where
  "ring_run [] s = Some s"
| "ring_run (a # as) s = (case ring_act a s of None \<Rightarrow> None | Some s' \<Rightarrow> ring_run as s')"

lemma ring_act_step: "ring_act a s = Some s' \<Longrightarrow> ring_step s s'"
proof (cases a)
  case (Start_dequeue i kn)
  then show "ring_act a s = Some s' \<Longrightarrow> ring_step s s'"
    using ring_step.call_dequeue [of i s kn] by (auto split: if_splits)
qed (auto intro: ring_step.intros split: if_splits option.splits)

lemma ring_run_reached:
  "ring_reached k full n m s \<Longrightarrow> ring_run as s = Some s' \<Longrightarrow> ring_reached k full n (m + length as) s'"
proof (induction as arbitrary: m s)
  case (Cons a as)
  then obtain s1 where s1: "ring_act a s = Some s1" "ring_run as s1 = Some s'" by (auto split: option.splits)
  from Cons.IH [OF ring_reached.step [OF Cons.prems(1) ring_act_step [OF s1(1)]] s1(2)] show ?case by simp
qed simp

lemma ring_schedule:
  assumes "1 \<le> k \<and> k \<le> 61 \<and> (case ring_run as (ring_start (2 ^ k) full n) of None \<Rightarrow> False | Some s \<Rightarrow> Q s)"
  shows "\<exists>s. ring_reached k full n (length as) s \<and> Q s"
  using assms ring_run_reached [OF ring_reached.start [of k full n], of as] by (auto split: option.splits)

section \<open>Safety of the ring\<close>

text \<open>What the occupied entries hold, with the tickets that slot and cycle stand for.\<close>

definition ring_contents :: "nat \<Rightarrow> scq \<Rightarrow> (size_t \<times> size_t) list" where
  "ring_contents k q =
     map (\<lambda>j. (of_int (ecycle k (sq_entries q ! j) * 2 ^ (k + 1) + int j), eindex k (sq_entries q ! j)))
       (filter (\<lambda>j. \<not> eempty k (sq_entries q ! j)) [0..<2 ^ (k + 1)])"

lemma contents_ticket:
  assumes "k \<le> 61" "0 \<le> c" "c < 2 ^ (61 - k)" "j < 2 ^ (k + 1)"
  shows "ticket_slot k (of_int (c * 2 ^ (k + 1) + int j)) = j" "ticket_round k (of_int (c * 2 ^ (k + 1) + int j)) = c"
proof -
  let ?t = "c * 2 ^ (k + 1) + int j"
  have p: "(2 :: int) ^ (61 - k) * 2 ^ (k + 1) = 2 ^ 62" using assms(1) by (simp flip: power_add)
  have j: "int j < 2 ^ (k + 1)" using assms(4) by (metis of_nat_less_iff of_nat_numeral of_nat_power)
  have "c * 2 ^ (k + 1) \<le> (2 ^ (61 - k) - 1) * 2 ^ (k + 1)" using assms(3) by (intro mult_right_mono) simp_all
  moreover have "((2 :: int) ^ (61 - k) - 1) * 2 ^ (k + 1) = 2 ^ 62 - 2 ^ (k + 1)"
    using p by (simp only: left_diff_distrib mult_1)
  ultimately have "?t < 2 ^ 62" using j by linarith
  moreover have "0 \<le> ?t" using assms(2) by simp
  ultimately have "take_bit 64 ?t = ?t" by (intro take_bit_int_eq_self) simp_all
  then have u: "uint (of_int ?t :: size_t) = ?t" by (simp only: uint_word_of_int_eq len_bit0 len_num1) simp
  show r: "ticket_round k (of_int ?t) = c" unfolding ticket_round_def u using j by simp
  have "int (ticket_slot k (of_int ?t)) = uint (of_int ?t :: size_t) mod 2 ^ (k + 1)"
    by (simp add: ticket_slot_def zmod_int)
  also have "\<dots> = ?t mod 2 ^ (k + 1)" by (simp only: u)
  also have "\<dots> = int j" using j by simp
  finally show "ticket_slot k (of_int ?t) = j" by simp
qed

lemma contents_iff:
  assumes "ring_shape k q" "store_ok k q A D M"
  shows "((t, x) \<in> set (ring_contents k q)) =
    (ticket_round k t = ecycle k (entry_at k q t) \<and> \<not> eempty k (entry_at k q t) \<and> x = eindex k (entry_at k q t))"
proof
  note k = ring_shape_D(1) [OF assms(1)]
  have slot: "slot_ok k j (sq_entries q ! j) A D M" if "j < 2 ^ (k + 1)" for j using assms(2) that by (simp add: store_ok_def)
  assume "(t, x) \<in> set (ring_contents k q)"
  then obtain j where j: "j < 2 ^ (k + 1)" "\<not> eempty k (sq_entries q ! j)" "x = eindex k (sq_entries q ! j)"
    "t = of_int (ecycle k (sq_entries q ! j) * 2 ^ (k + 1) + int j)"
    by (auto simp: ring_contents_def)
  have "0 \<le> ecycle k (sq_entries q ! j)" "ecycle k (sq_entries q ! j) < 2 ^ (61 - k)"
    using slot [OF j(1)] j(2) by (auto simp: slot_ok_def entry_range_def)
  from contents_ticket [OF k this j(1)] j show "ticket_round k t = ecycle k (entry_at k q t) \<and>
      \<not> eempty k (entry_at k q t) \<and> x = eindex k (entry_at k q t)" by metis
next
  assume t: "ticket_round k t = ecycle k (entry_at k q t) \<and> \<not> eempty k (entry_at k q t) \<and> x = eindex k (entry_at k q t)"
  have "int (ticket_slot k t) = uint t mod 2 ^ (k + 1)" by (simp add: ticket_slot_def zmod_int)
  then have "uint t = ticket_round k t * 2 ^ (k + 1) + int (ticket_slot k t)"
    by (simp only: ticket_round_def div_mult_mod_eq)
  then have "t = of_int (ecycle k (entry_at k q t) * 2 ^ (k + 1) + int (ticket_slot k t))"
    using t word_of_int_uint [of t] by metis
  with t ticket_slot_less [of k t] show "(t, x) \<in> set (ring_contents k q)"
    by (auto simp: ring_contents_def intro!: image_eqI [of _ _ "ticket_slot k t"])
qed


lemma contents_distinct:
  assumes "ring_shape k q" "store_ok k q A D M"
  shows "distinct (ring_contents k q)"
proof -
  note k = ring_shape_D(1) [OF assms(1)]
  have slot: "slot_ok k j (sq_entries q ! j) A D M" if "j < 2 ^ (k + 1)" for j using assms(2) that by (simp add: store_ok_def)
  have "ticket_slot k (of_int (ecycle k (sq_entries q ! j) * 2 ^ (k + 1) + int j)) = j"
    if "j < 2 ^ (k + 1)" "\<not> eempty k (sq_entries q ! j)" for j
    using slot [OF that(1)] that by (intro contents_ticket(1) [OF k]) (auto simp: slot_ok_def entry_range_def)
  then show ?thesis unfolding ring_contents_def
    by (auto simp: distinct_map intro!: inj_on_inverseI [of _ "\<lambda>p. ticket_slot k (fst p)"])
qed

lemma distinct_of_count:
  assumes "\<And>a. count (mset xs) a \<le> 1"
  shows "distinct xs"
proof -
  have "count (mset xs) a = (if a \<in> set xs then 1 else 0)" for a
    using assms [of a] count_greater_zero_iff [of "mset xs" a] by (auto simp: count_eq_zero_iff simp del: count_greater_zero_iff)
  then show ?thesis by (simp add: distinct_count_atmost_1)
qed

lemma count_fst: "(t, x) \<in> set ps \<Longrightarrow> 0 < count (mset (map fst ps)) t"
  by (force simp: count_greater_zero_iff)

lemma tickets_ok_D:
  "tickets_ok s \<Longrightarrow> count (gather dequeue_tickets (rs_threads s)) t + count (mset (map fst (rs_taken s))) t +
     count (mset (rs_missed s)) t = of_bool (t < sq_head (rs_q s))"
  "tickets_ok s \<Longrightarrow> (t, x) \<in> set (rs_stored s) \<Longrightarrow> t < sq_tail (rs_q s)"
proof -
  show "tickets_ok s \<Longrightarrow> count (gather dequeue_tickets (rs_threads s)) t + count (mset (map fst (rs_taken s))) t +
     count (mset (rs_missed s)) t = of_bool (t < sq_head (rs_q s))" by (simp add: tickets_ok_def)
  assume "tickets_ok s" "(t, x) \<in> set (rs_stored s)"
  then have "count (gather enqueue_tickets (rs_threads s)) t + count (mset (map fst (rs_stored s))) t
      \<le> of_bool (t < sq_tail (rs_q s))" "0 < count (mset (map fst (rs_stored s))) t"
    by (simp_all only: tickets_ok_def count_fst)
  then show "t < sq_tail (rs_q s)" by (cases "t < sq_tail (rs_q s)") simp_all
qed

lemma stored_key: "history_valid k A D M \<Longrightarrow> (t, x) \<in> set A \<Longrightarrow> (t, x) \<notin> set D \<Longrightarrow> t \<notin> fst ` set D"
  unfolding history_valid_def by (auto dest: eq_key_imp_eq_value)

lemma contents_stored:
  assumes "ring_shape k q" "store_ok k q A D M"
  shows "((t, x) \<in> set (ring_contents k q)) = ((t, x) \<in> set A \<and> (t, x) \<notin> set D)"
proof -
  have hist: "history_valid k A D M" using assms(2) by (simp add: store_ok_def)
  note slot = store_slot [OF assms(2), of t]
  show ?thesis
  proof
    assume "(t, x) \<in> set (ring_contents k q)"
    then show "(t, x) \<in> set A \<and> (t, x) \<notin> set D"
      using slot_ok_D(4) [OF slot] contents_iff [OF assms] by force
  next
    assume *: "(t, x) \<in> set A \<and> (t, x) \<notin> set D"
    then have "t \<notin> fst ` set D" using stored_key [OF hist] by blast
    with * show "(t, x) \<in> set (ring_contents k q)"
      using slot_occupied [OF ring_shape_D(1) [OF assms(1)] hist slot] contents_iff [OF assms] by blast
  qed
qed

text \<open>
  Property C7. The concurrent ring loses and duplicates nothing: after any interleaving of the atomic
  accesses of any number of \<open>enqueue\<close> and \<open>try_dequeue\<close> calls, with spurious failures of the weak
  compare-exchanges, what was stored is what was taken out together with what the occupied entries
  hold, each index at the ticket it was stored at; no two enqueuers store at the same ticket; and a
  ticket that a dequeuer gave up is never stored at. It holds for the first 2^61 steps, that is, as
  long as no ticket can wrap.
\<close>

theorem ring_threads_conserve:
  assumes "ring_reached k full n m s" "m \<le> 2 ^ 61"
  shows "mset (rs_stored s) = mset (rs_taken s) + mset (ring_contents k (rs_q s)) \<and>
    distinct (map fst (rs_stored s)) \<and> set (rs_missed s) \<inter> fst ` set (rs_stored s) = {}"
proof -
  from ring_reached_inv [OF assms] have inv: "ring_shape k (rs_q s)"
    "store_ok k (rs_q s) (rs_stored s) (rs_taken s) (rs_missed s)" "tickets_ok s" by (simp_all add: ring_inv_def)
  have hist: "history_valid k (rs_stored s) (rs_taken s) (rs_missed s)" using inv(2) by (simp add: store_ok_def)
  let ?A = "rs_stored s" and ?D = "rs_taken s" and ?C = "ring_contents k (rs_q s)"
  have "count (mset (map fst ?D)) t \<le> 1" for t
    using tickets_ok_D(1) [OF inv(3), of t] by (cases "t < sq_head (rs_q s)") simp_all
  then have "distinct (map fst ?D)" by (rule distinct_of_count)
  then have dist: "distinct ?A" "distinct ?D" "distinct ?C"
    using hist contents_distinct [OF inv(1,2)] by (simp_all add: history_valid_def distinct_map)
  have "set ?D \<subseteq> set ?A" using hist by (simp add: history_valid_def)
  then have "set ?A = set ?D \<union> set ?C" "set ?D \<inter> set ?C = {}" using contents_stored [OF inv(1,2)] by auto
  then have "mset ?A = mset ?D + mset ?C" using dist by (simp add: mset_set_Union flip: mset_set_set)
  with hist show ?thesis by (simp add: history_valid_def)
qed

text \<open>A full ring of two indices: thread 0 has drawn ticket 0 and thread 1 has taken out the index at ticket 1.\<close>

lemma overtaking_dequeuer:
  "\<exists>s. ring_reached 1 True 2 8 s \<and> rs_stored s = [(0, 0), (1, 1)] \<and> rs_taken s = [(1, 1)] \<and>
     rs_threads s = [D_load False 0 0, R_dequeued (Some 1)]"
proof -
  have "\<exists>s. ring_reached 1 True 2 (length [Start_dequeue 0 False, Access 0 False, Access 0 False, Start_dequeue 1 False,
      Access 1 False, Access 1 False, Access 1 False, Access 1 False]) s \<and> rs_stored s = [(0, 0), (1, 1)] \<and>
      rs_taken s = [(1, 1)] \<and> rs_threads s = [D_load False 0 0, R_dequeued (Some 1)]"
    by (rule ring_schedule) code_simp
  then show ?thesis by (simp add: eval_nat_numeral)
qed

theorem ring_threads_conserve_witness:
  "\<exists>s. ring_reached 1 True 2 8 s \<and> rs_taken s = [(1, 1)] \<and> mset (ring_contents 1 (rs_q s)) = {#(0, 0)#}"
proof -
  from overtaking_dequeuer obtain s where s: "ring_reached 1 True 2 8 s" "rs_stored s = [(0, 0), (1, 1)]"
    "rs_taken s = [(1, 1)]" by blast
  from ring_threads_conserve [OF s(1)] s show ?thesis by auto
qed

lemma count_fst_distinct:
  assumes "distinct (map fst ps)" "(t, x) \<in> set ps"
  shows "count (mset (map fst ps)) t = 1" "count (mset ps) (t, x) = 1"
proof -
  have "t \<in> set (map fst ps)" using assms(2) by force
  with assms(1) show "count (mset (map fst ps)) t = 1" by (simp only: distinct_count_atmost_1) simp
  have "distinct ps" using assms(1) by (simp add: distinct_map)
  with assms(2) show "count (mset ps) (t, x) = 1" by (simp add: distinct_count_atmost_1)
qed

lemma taken_distinct: "tickets_ok s \<Longrightarrow> distinct (map fst (rs_taken s))"
proof (rule distinct_of_count)
  fix t assume "tickets_ok s"
  from tickets_ok_D(1) [OF this, of t] show "count (mset (map fst (rs_taken s))) t \<le> 1"
    by (cases "t < sq_head (rs_q s)") simp_all
qed

text \<open>The ticket of a stored index was drawn by one dequeuer if it is below the head, which took the index or
  still holds the ticket, and by none otherwise.\<close>

lemma stored_drawn:
  assumes "ring_reached k full n m s" "m \<le> 2 ^ 61" "(t, x) \<in> set (rs_stored s)"
  shows "count (gather dequeue_tickets (rs_threads s)) t + count (mset (rs_taken s)) (t, x) =
    of_bool (t < sq_head (rs_q s))"
proof -
  from ring_reached_inv [OF assms(1,2)] have inv: "store_ok k (rs_q s) (rs_stored s) (rs_taken s) (rs_missed s)" "tickets_ok s"
    by (simp_all add: ring_inv_def)
  have hist: "history_valid k (rs_stored s) (rs_taken s) (rs_missed s)" using inv(1) by (simp add: store_ok_def)
  have "count (mset (map fst (rs_taken s))) t = count (mset (rs_taken s)) (t, x)"
  proof (cases "(t, x) \<in> set (rs_taken s)")
    case True
    from count_fst_distinct [OF taken_distinct [OF inv(2)] this] show ?thesis by simp
  next
    case False
    with stored_key [OF hist assms(3)] have "t \<notin># mset (map fst (rs_taken s))" "(t, x) \<notin># mset (rs_taken s)" by simp_all
    then show ?thesis by (simp only: not_in_iff)
  qed
  moreover have "t \<notin># mset (rs_missed s)" using hist assms(3) by (force simp: history_valid_def)
  then have "count (mset (rs_missed s)) t = 0" by (simp only: not_in_iff)
  ultimately show ?thesis using tickets_ok_D(1) [OF inv(2), of t] by (simp only: add_0_right)
qed

text \<open>
  Property C8. The concurrent ring is first-in first-out by tickets, for the first 2^61 steps. Every index that
  was taken out had been stored at its ticket, and no ticket is taken out twice. Of the stored indices, each one whose ticket
  is below the head was either taken out once or has its ticket held by exactly one dequeuer that is under way, and none at or
  above the head was taken out or is claimed; so dequeuers may overtake each other between drawing a ticket and
  finishing, but while none is under way the indices taken out are exactly the stored ones with the smallest tickets. And a
  dequeuer that reports an empty ring because the tail is not past its ticket is right: every stored index was taken out or
  is claimed.
\<close>

theorem ring_threads_order:
  assumes "ring_reached k full n m s" "m < 2 ^ 61"
  shows "set (rs_taken s) \<subseteq> set (rs_stored s) \<and> distinct (map fst (rs_taken s)) \<and>
    (\<forall>(t, x) \<in> set (rs_stored s). count (gather dequeue_tickets (rs_threads s)) t + count (mset (rs_taken s)) (t, x) =
      of_bool (t < sq_head (rs_q s))) \<and>
    (gather dequeue_tickets (rs_threads s) = {#} \<longrightarrow>
      set (rs_taken s) = {(t, x) \<in> set (rs_stored s). t < sq_head (rs_q s)}) \<and>
    ((\<exists>h a b q. D_tail h \<in> set (rs_threads s) \<and> ring_move False (rs_q s) (D_tail h) = Some (D_catch_up a b, q)) \<longrightarrow>
      (\<forall>(t, x) \<in> set (rs_stored s). t < sq_head (rs_q s)))"
proof -
  have m: "m \<le> 2 ^ 61" using assms(2) by simp
  note I = ring_reached_inv [OF assms(1) m]
  from I have inv: "store_ok k (rs_q s) (rs_stored s) (rs_taken s) (rs_missed s)" "tickets_ok s" by (simp_all add: ring_inv_def)
  have hist: "history_valid k (rs_stored s) (rs_taken s) (rs_missed s)" using inv(1) by (simp add: store_ok_def)
  then have sub: "set (rs_taken s) \<subseteq> set (rs_stored s)" by (simp add: history_valid_def)
  note dist = taken_distinct [OF inv(2)]
  note drawn = stored_drawn [OF assms(1) m]
  have quiet: "set (rs_taken s) = {(t, x) \<in> set (rs_stored s). t < sq_head (rs_q s)}"
    if none: "gather dequeue_tickets (rs_threads s) = {#}"
  proof -
    have "(p \<in> set (rs_taken s)) = (fst p < sq_head (rs_q s))" if p: "p \<in> set (rs_stored s)" for p
    proof -
      have "count (mset (rs_taken s)) p = of_bool (fst p < sq_head (rs_q s))" using drawn [of "fst p" "snd p"] p none by simp
      then show ?thesis using count_greater_zero_iff [of "mset (rs_taken s)" p] by (cases "fst p < sq_head (rs_q s)") simp_all
    qed
    with sub show ?thesis by auto
  qed
  have "t < sq_head (rs_q s)" if h: "D_tail h \<in> set (rs_threads s)" "ring_move False (rs_q s) (D_tail h) = Some (D_catch_up a b, q)"
    and st: "(t, x) \<in> set (rs_stored s)" for h a b q t x
  proof -
    from h(1) obtain i where i: "i < n" "rs_threads s ! i = D_tail h"
      using I by (auto simp: ring_inv_def in_set_conv_nth)
    note F = ring_inv_facts [OF I assms(2) i(1)]
    have hd: "h < sq_head (rs_q s)" using F(3) i(2) by simp
    then have "unat h < 2 ^ 61" using F(6) assms(2) by (simp add: word_less_nat_alt)
    then have h1: "unat (h + 1) = unat h + 1" "unat (h + 1) < 2 ^ 62" using less_plus_one(2) [of h] by simp_all
    have "before_or_equal (sq_tail (rs_q s)) (h + 1)" using h(2) by (auto split: if_splits)
    then have "sq_tail (rs_q s) \<le> h + 1" using before_small(2) [OF F(5) h1(2)] by simp
    then have "sq_tail (rs_q s) \<le> sq_head (rs_q s)" using hd h1(1) by (simp add: word_le_nat_alt word_less_nat_alt)
    with tickets_ok_D(2) [OF inv(2) st] show ?thesis by simp
  qed
  then have empty: "\<forall>(t, x) \<in> set (rs_stored s). t < sq_head (rs_q s)"
    if "\<exists>h a b q. D_tail h \<in> set (rs_threads s) \<and> ring_move False (rs_q s) (D_tail h) = Some (D_catch_up a b, q)"
    using that by blast
  show ?thesis using sub dist drawn quiet empty by blast
qed

theorem ring_threads_order_witness:
  "\<exists>s. ring_reached 1 True 2 8 s \<and> rs_taken s = [(1, 1)] \<and> count (gather dequeue_tickets (rs_threads s)) 0 = 1"
proof -
  from overtaking_dequeuer obtain s where s: "ring_reached 1 True 2 8 s" "rs_stored s = [(0, 0), (1, 1)]"
    "rs_taken s = [(1, 1)]" "rs_threads s = [D_load False 0 0, R_dequeued (Some 1)]" by blast
  from ring_threads_order [OF s(1)] s(2,3) have
    "count (gather dequeue_tickets (rs_threads s)) 1 + 1 = of_bool (1 < sq_head (rs_q s))" by simp
  then have "1 < sq_head (rs_q s)" by (cases "1 < sq_head (rs_q s)") simp_all
  then have "0 < sq_head (rs_q s)" by (rule order.strict_trans [rotated]) simp
  with ring_threads_order [OF s(1)] s(2,3) have "count (gather dequeue_tickets (rs_threads s)) 0 = 1" by simp
  with s(1,3) show ?thesis by blast
qed

end
