(* ===== verification/Ring_Solo.thy ===== *)
theory Ring_Solo
  imports Ring_Threads
begin

text \<open>
  The two models of the SCQ ring agree: when no other thread moves, the accesses of \<open>Ring_Threads\<close> are
  the calls of \<open>Circular_Index_Queue\<close>, on every state of the ring, also where a call needs
  several tickets.
\<close>

section \<open>A call that is not interrupted\<close>

definition ring_alone :: "scq \<times> ring_pc \<Rightarrow> scq \<times> ring_pc \<Rightarrow> bool" where
  "ring_alone a b = (ring_move False (fst a) (snd a) = Some (snd b, fst b))"

lemma aloneI: "ring_move False q pc = Some (pc', q') \<Longrightarrow> ring_alone\<^sup>*\<^sup>* (q', pc') z \<Longrightarrow> ring_alone\<^sup>*\<^sup>* (q, pc) z"
  by (rule converse_rtranclp_into_rtranclp) (simp_all add: ring_alone_def)

lemma alone_stored:
  "ring_alone\<^sup>*\<^sup>* (q, if kn then R_enqueued else E_threshold)
     (if \<not> kn \<and> sq_threshold q \<noteq> initial_threshold q then q\<lparr>sq_threshold := initial_threshold q\<rparr> else q, R_enqueued)"
  by (auto intro!: aloneI [of q E_threshold] aloneI [of q E_rearm])

lemma alone_enqueue:
  assumes "scq_enqueue q index kn = Some q'"
  shows "ring_alone\<^sup>*\<^sup>* (q, E_ticket kn index) (q', R_enqueued)"
  using _ assms
proof (rule scq_enqueue.raw_induct [where P = "\<lambda>q index kn q'. ring_alone\<^sup>*\<^sup>* (q, E_ticket kn index) (q', R_enqueued)"],
    goal_cases)
  case (1 enq q index kn q')
  define t q1 where d: "t = sq_tail q" "q1 = q\<lparr>sq_tail := t + 1\<rparr>"
  define e where e: "e = sq_entries q1 ! unat (scq_map q1 t)"
  define w where w: "w = (push_bit 1 t OR cycle_mask q1) XOR (index XOR sq_ring_mask q1)"
  have same: "scq_map q1 = scq_map q" "cycle_mask q1 = cycle_mask q" "sq_ring_size q1 = sq_ring_size q"
    "sq_ring_mask q1 = sq_ring_mask q" by (simp_all add: d scq_map_def fun_eq_iff)
  let ?q2 = "q1\<lparr>sq_entries := (sq_entries q1)[unat (scq_map q1 t) := w]\<rparr>"
  define free where f: "free = (before (e OR cycle_mask q1) (push_bit 1 t OR cycle_mask q1) \<and> (e = e OR cycle_mask q1 \<or>
    (e = (e OR cycle_mask q1) XOR sq_ring_size q1 \<and> before_or_equal (sq_head q1) t)))"
  define stored where s: "stored = (if \<not> kn \<and> sq_threshold ?q2 \<noteq> initial_threshold ?q2
      then ?q2\<lparr>sq_threshold := initial_threshold ?q2\<rparr> else ?q2)"
  have body: "(if \<not> free then enq q1 index kn else Some stored) = Some q'"
    using 1(2) unfolding Let_def d(1) [symmetric] d(2) [symmetric] same [symmetric] e [symmetric] w [symmetric] f [symmetric]
      s [symmetric] .
  have move: "ring_move False q1 (E_cas kn index t e) = Some (if kn then R_enqueued else E_threshold, ?q2)"
    by (simp add: e w)
  have store: "ring_alone\<^sup>*\<^sup>* (q1, E_cas kn index t e) (q', R_enqueued)" if "free"
  proof -
    have "q' = stored" using body that by simp
    then show ?thesis unfolding s by (simp only:) (rule aloneI [OF move alone_stored])
  qed
  have again: "ring_alone\<^sup>*\<^sup>* (q1, E_ticket kn index) (q', R_enqueued)" if "\<not> free"
    using body that by (simp add: 1(1))
  have "ring_alone\<^sup>*\<^sup>* (q1, enqueue_entry q1 kn index t e) (q', R_enqueued)"
  proof (cases "before (e OR cycle_mask q1) (push_bit 1 t OR cycle_mask q1)")
    case True
    show ?thesis
    proof (cases "e = e OR cycle_mask q1")
      case False
      with True store again show ?thesis
        by (auto simp: enqueue_entry_def Let_def f simp del: push_bit_Suc intro!: aloneI [of q1 "E_head kn index t e"])
    qed (use True store in \<open>simp add: enqueue_entry_def Let_def f\<close>)
  qed (use again in \<open>simp add: enqueue_entry_def Let_def f\<close>)
  then show ?case
    by (intro aloneI [of q _ "E_load kn index t" q1] aloneI [of q1 "E_load kn index t"])
     (simp_all add: d(1) d(2) e)
qed

text \<open>The inner loop of \<open>try_dequeue\<close>, up to the exit of the loop or the return.\<close>

abbreviation entry_done :: "bool \<Rightarrow> size_t \<Rightarrow> size_t option \<Rightarrow> ring_pc" where
  "entry_done kn head r \<equiv> (case r of None \<Rightarrow> round_missed kn head | Some x \<Rightarrow> R_dequeued (Some x))"

lemma alone_dequeue_entry:
  assumes "scq_dequeue_entry q (unat (scq_map q h)) (push_bit 1 h OR cycle_mask q) attempts = (r, q')"
  shows "ring_alone\<^sup>*\<^sup>* (q, D_load kn h attempts) (q', entry_done kn h r)"
  using assms
proof (induction "catchup_attempts + 1 - attempts" arbitrary: attempts rule: less_induct)
  case less
  define e where e: "e = sq_entries q ! unat (scq_map q h)"
  define c where c: "c = e OR cycle_mask q"
  define hc where hc: "hc = push_bit 1 h OR cycle_mask q"
  define sm where sm: "sm = (e OR sq_ring_size q = c)"
  define keep where k: "keep = (e = e AND NOT (sq_ring_size q))"
  note body = trans [OF scq_dequeue_entry.simps [of q "unat (scq_map q h)" "push_bit 1 h OR cycle_mask q" attempts,
      unfolded Let_def, symmetric] less.prems, folded e, folded c hc, folded sm k]
  have move: "ring_move False q (D_load kn h attempts) = Some (dequeue_entry q kn h attempts e, q)" by (simp add: e)
  have cas: "ring_alone\<^sup>*\<^sup>* (q, D_cas kn h a e w) (q\<lparr>sq_entries := (sq_entries q)[unat (scq_map q h) := w]\<rparr>, round_missed kn h)"
    for a w by (rule aloneI [OF _ rtranclp.rtrancl_refl]) (simp add: e Let_def)
  have consume: "ring_alone\<^sup>*\<^sup>* (q, D_consume h e) (q\<lparr>sq_entries := (sq_entries q)[unat (scq_map q h) := e OR sq_ring_mask q]\<rparr>,
      R_dequeued (Some (e AND sq_ring_mask q)))"
    by (rule aloneI [OF _ rtranclp.rtrancl_refl]) (simp add: e Let_def)
  have again: "ring_alone\<^sup>*\<^sup>* (q, D_load kn h (attempts + 1)) (q', entry_done kn h r)"
    if "attempts + 1 \<le> catchup_attempts" "c \<noteq> hc" "sm" using that body by (intro less.hyps) (auto simp: hc)
  have "ring_alone\<^sup>*\<^sup>* (q, dequeue_entry q kn h attempts e) (q', entry_done kn h r)"
    unfolding dequeue_entry_def Let_def c [symmetric] hc [symmetric] sm [symmetric] k [symmetric]
    using again body cas consume by (auto split: if_splits)
  then show ?case by (rule aloneI [OF move])
qed

text \<open>What follows a round that found nothing when the ring may be empty.\<close>

lemma alone_missed:
  assumes "(if before_or_equal (sq_tail q) (h + 1)
      then (let q3 = catch_up q (sq_tail q) (h + 1) in Some (None, q3\<lparr>sq_threshold := sq_threshold q3 - 1\<rparr>))
      else if sint (sq_threshold q) \<le> 0 then Some (None, q\<lparr>sq_threshold := sq_threshold q - 1\<rparr>)
      else loop (q\<lparr>sq_threshold := sq_threshold q - 1\<rparr>) False) = Some (r, q')"
    and "\<And>q r q'. loop q False = Some (r, q') \<Longrightarrow> ring_alone\<^sup>*\<^sup>* (q, D_ticket False) (q', R_dequeued r)"
  shows "ring_alone\<^sup>*\<^sup>* (q, D_tail h) (q', R_dequeued r)"
proof (cases "before_or_equal (sq_tail q) (h + 1)")
  case True
  let ?q = "q\<lparr>sq_tail := h + 1\<rparr>"
  have "q' = ?q\<lparr>sq_threshold := sq_threshold q - 1\<rparr>" "r = None" using assms(1) True by (simp_all add: catch_up_def)
  then have "ring_alone\<^sup>*\<^sup>* (?q, D_spend) (q', R_dequeued r)" by (intro aloneI [OF _ rtranclp.rtrancl_refl]) simp
  then have "ring_alone\<^sup>*\<^sup>* (q, D_catch_up (sq_tail q) (h + 1)) (q', R_dequeued r)" by (rule aloneI [rotated]) simp
  then show ?thesis by (rule aloneI [rotated]) (simp add: True)
next
  case False
  let ?q = "q\<lparr>sq_threshold := sq_threshold q - 1\<rparr>"
  have "ring_alone\<^sup>*\<^sup>* (?q, if sint (sq_threshold q) \<le> 0 then R_dequeued None else D_ticket False) (q', R_dequeued r)"
    using assms False by (auto split: if_splits)
  then have "ring_alone\<^sup>*\<^sup>* (q, D_spend_or_retry) (q', R_dequeued r)" by (rule aloneI [rotated]) simp
  then show ?thesis by (rule aloneI [rotated]) (simp add: False)
qed

lemma alone_dequeue_loop:
  assumes "scq_dequeue_loop q kn = Some y"
  shows "ring_alone\<^sup>*\<^sup>* (q, D_ticket kn) (snd y, R_dequeued (fst y))"
  using _ assms
proof (rule scq_dequeue_loop.raw_induct [where P = "\<lambda>q kn y. ring_alone\<^sup>*\<^sup>* (q, D_ticket kn) (snd y, R_dequeued (fst y))"],
    goal_cases)
  case (1 loop q kn y)
  define h q1 where d: "h = sq_head q" "q1 = q\<lparr>sq_head := h + 1\<rparr>"
  have same: "scq_map q1 = scq_map q" "cycle_mask q1 = cycle_mask q" by (simp_all add: d scq_map_def fun_eq_iff)
  obtain x q2 where x: "scq_dequeue_entry q1 (unat (scq_map q1 h)) (push_bit 1 h OR cycle_mask q1) 0 = (x, q2)"
    by (meson surj_pair)
  note body = 1(2) [unfolded Let_def, folded d(1), folded d(2) same, unfolded x prod.case]
  note IH = 1(1)
  have "ring_alone\<^sup>*\<^sup>* (q2, entry_done kn h x) (snd y, R_dequeued (fst y))"
  proof (cases x)
    case None
    show ?thesis
    proof (cases kn)
      case False
      have "ring_alone\<^sup>*\<^sup>* (q2, D_tail h) (snd y, R_dequeued (fst y))"
        by (rule alone_missed [where loop = loop]) (use body IH None False in \<open>force simp: Let_def\<close>)+
      then show ?thesis using None False by (simp add: round_missed_def)
    qed (use body IH None in \<open>auto simp: round_missed_def\<close>)
  qed (use body in auto)
  with alone_dequeue_entry [OF x, of kn] have "ring_alone\<^sup>*\<^sup>* (q1, D_load kn h 0) (snd y, R_dequeued (fst y))" by simp
  then show ?case by (rule aloneI [rotated]) (simp add: d)
qed

section \<open>Calls on a ring that holds a list\<close>

text \<open>
  Property C17. A ring call that no other thread disturbs ends, and its accesses are the sequential call: on a ring
  that holds \<open>xs\<close>, the accesses of \<open>enqueue\<close> lead to its return with the state of \<open>scq_enqueue\<close>, which holds
  the index at the end, and the accesses of \<open>try_dequeue\<close> lead to its return with the first index, or with nothing
  when \<open>xs\<close> is empty, and with the state of \<open>scq_try_dequeue\<close>.
\<close>

theorem ring_calls_alone:
  assumes "scq_holds k xs q"
  shows "(length xs < 2 ^ k \<and> unat index < 2 ^ k \<longrightarrow>
      (\<exists>q'. ring_alone\<^sup>*\<^sup>* (q, E_ticket False index) (q', R_enqueued) \<and> scq_enqueue q index False = Some q' \<and>
        scq_holds k (xs @ [index]) q')) \<and>
    (\<exists>q'. ring_alone\<^sup>*\<^sup>* (q, D_threshold) (q', R_dequeued (case xs of [] \<Rightarrow> None | x # _ \<Rightarrow> Some x)) \<and>
      scq_try_dequeue q False = Some (case xs of [] \<Rightarrow> None | x # _ \<Rightarrow> Some x, q') \<and> scq_holds k (tl xs) q')"
proof (intro conjI impI)
  assume "length xs < 2 ^ k \<and> unat index < 2 ^ k"
  with ring.enqueue_law [OF assms] alone_enqueue
  show "\<exists>q'. ring_alone\<^sup>*\<^sup>* (q, E_ticket False index) (q', R_enqueued) \<and> scq_enqueue q index False = Some q' \<and>
      scq_holds k (xs @ [index]) q'" by blast
next
  obtain q' where q': "scq_try_dequeue q False = Some (case xs of [] \<Rightarrow> None | x # _ \<Rightarrow> Some x, q')"
    "scq_holds k (tl xs) q'" using ring.dequeue_law [OF assms] .
  have "ring_alone\<^sup>*\<^sup>* (q, if sint (sq_threshold q) < 0 then R_dequeued None else D_ticket False)
      (q', R_dequeued (case xs of [] \<Rightarrow> None | x # _ \<Rightarrow> Some x))"
    using q'(1) alone_dequeue_loop [of q False] by (force simp: scq_try_dequeue_def split: if_splits)
  then have "ring_alone\<^sup>*\<^sup>* (q, D_threshold) (q', R_dequeued (case xs of [] \<Rightarrow> None | x # _ \<Rightarrow> Some x))"
    by (rule aloneI [rotated]) simp
  with q' show "\<exists>q'. ring_alone\<^sup>*\<^sup>* (q, D_threshold) (q', R_dequeued (case xs of [] \<Rightarrow> None | x # _ \<Rightarrow> Some x)) \<and>
      scq_try_dequeue q False = Some (case xs of [] \<Rightarrow> None | x # _ \<Rightarrow> Some x, q') \<and> scq_holds k (tl xs) q'" by blast
qed

theorem ring_calls_alone_witness:
  "\<exists>q'. ring_alone\<^sup>*\<^sup>* (scq_new (2 ^ 1) True, D_threshold) (q', R_dequeued (Some 0)) \<and>
     scq_try_dequeue (scq_new (2 ^ 1) True) False = Some (Some 0, q') \<and> scq_holds 1 [1] q'"
  using ring_calls_alone [OF ring.new_full [of 1]] by (simp add: upt_rec)

end
