(* ===== verification/Subscriber.thy ===== *)
theory Subscriber
  imports Prelude
begin

text \<open>
  \<open>subscriber_state\<close> (\<open>subscription/subscriber_state.hpp\<close>) and the option and metric structures of
  \<open>delivery.hpp\<close>: one operation per critical section of the class, with the six 64-bit counters.

  The operations are composed into a system of threads (workers that offer events, the executor
  of an isolated subscriber, threads that unsubscribe or shut delivery down) in the theory
  \<open>Subscriber_Threads\<close>. What the application supplies is a parameter: the callback, which may throw
  and takes some time, and whether \<open>Event\<close> can be copied.
\<close>

section \<open>Options and metrics\<close>

datatype delivery_policy = concurrent | serialized | isolated

datatype delivery_guarantee = best_effort | lossless

text \<open>\<open>std::chrono::nanoseconds\<close> is a signed count; it is only compared.\<close>

record subscription_options =
  so_delivery :: delivery_policy
  so_guarantee :: delivery_guarantee
  so_mailbox_capacity :: size_t
  so_slow_callback_threshold :: int

definition default_subscription_options :: subscription_options where
  "default_subscription_options = \<lparr>so_delivery = concurrent, so_guarantee = best_effort,
     so_mailbox_capacity = 64, so_slow_callback_threshold = 0\<rparr>"

record subscription_metrics =
  sm_offered :: uint64_t
  sm_delivered :: uint64_t
  sm_dropped :: uint64_t
  sm_rejected :: uint64_t
  sm_callback_errors :: uint64_t
  sm_slow_callbacks :: uint64_t

definition zero_metrics :: subscription_metrics where
  "zero_metrics = \<lparr>sm_offered = 0, sm_delivered = 0, sm_dropped = 0, sm_rejected = 0,
     sm_callback_errors = 0, sm_slow_callbacks = 0\<rparr>"

section \<open>Subscriber state\<close>

text \<open>\<open>ss_this\<close> is the address of the object, which the thread-local chain of invocation contexts
  refers to; \<open>ss_retire\<close> says that the retirement callback has not been moved out yet.\<close>

record 'e subscriber_state =
  ss_this :: nat
  ss_id :: uint64_t
  ss_options :: subscription_options
  ss_owner_tag :: nat
  ss_retire :: bool
  ss_in_flight :: size_t
  ss_active :: bool
  ss_retirement_started :: bool
  ss_mailbox :: "'e list"
  ss_mailbox_accepting :: bool
  ss_executor_stopping :: bool
  ss_drain_mailbox :: bool
  ss_executor_joinable :: bool
  ss_metrics :: subscription_metrics

definition ss_new ::
  "bool \<Rightarrow> nat \<Rightarrow> uint64_t \<Rightarrow> subscription_options \<Rightarrow> nat \<Rightarrow> exn + 'e subscriber_state" where
  "ss_new copyable this ident options tag =
     (if so_slow_callback_threshold options < 0
      then Inl (Invalid_argument ''slow callback threshold must not be negative'')
      else if so_delivery options = isolated \<and> so_mailbox_capacity options = 0
      then Inl (Invalid_argument ''isolated subscriber mailbox capacity must be non-zero'')
      else if so_delivery options = isolated \<and> \<not> copyable
      then Inl (Invalid_argument ''isolated delivery requires a copy-constructible Event'')
      else Inr \<lparr>ss_this = this, ss_id = ident, ss_options = options, ss_owner_tag = tag,
        ss_retire = True, ss_in_flight = 0, ss_active = True, ss_retirement_started = False,
        ss_mailbox = [], ss_mailbox_accepting = True, ss_executor_stopping = False,
        ss_drain_mailbox = True, ss_executor_joinable = False, ss_metrics = zero_metrics\<rparr>)"

abbreviation is_isolated :: "'e subscriber_state \<Rightarrow> bool" where
  "is_isolated s \<equiv> so_delivery (ss_options s) = isolated"

definition start_executor :: "'e subscriber_state \<Rightarrow> 'e subscriber_state" where
  "start_executor s = (if \<not> is_isolated s then s else s\<lparr>ss_executor_joinable := True\<rparr>)"

section \<open>Counters\<close>

definition count_offered :: "'e subscriber_state \<Rightarrow> 'e subscriber_state" where
  "count_offered s = s\<lparr>ss_metrics := (ss_metrics s)\<lparr>sm_offered := sm_offered (ss_metrics s) + 1\<rparr>\<rparr>"

definition count_delivered :: "'e subscriber_state \<Rightarrow> 'e subscriber_state" where
  "count_delivered s = s\<lparr>ss_metrics := (ss_metrics s)\<lparr>sm_delivered := sm_delivered (ss_metrics s) + 1\<rparr>\<rparr>"

definition count_dropped :: "uint64_t \<Rightarrow> 'e subscriber_state \<Rightarrow> 'e subscriber_state" where
  "count_dropped n s = s\<lparr>ss_metrics := (ss_metrics s)\<lparr>sm_dropped := sm_dropped (ss_metrics s) + n\<rparr>\<rparr>"

definition count_rejected :: "'e subscriber_state \<Rightarrow> 'e subscriber_state" where
  "count_rejected s = s\<lparr>ss_metrics := (ss_metrics s)\<lparr>sm_rejected := sm_rejected (ss_metrics s) + 1\<rparr>\<rparr>"

definition count_callback_error :: "'e subscriber_state \<Rightarrow> 'e subscriber_state" where
  "count_callback_error s =
     s\<lparr>ss_metrics := (ss_metrics s)\<lparr>sm_callback_errors := sm_callback_errors (ss_metrics s) + 1\<rparr>\<rparr>"

definition count_slow_callback :: "'e subscriber_state \<Rightarrow> 'e subscriber_state" where
  "count_slow_callback s =
     s\<lparr>ss_metrics := (ss_metrics s)\<lparr>sm_slow_callbacks := sm_slow_callbacks (ss_metrics s) + 1\<rparr>\<rparr>"

lemmas count_defs = count_offered_def count_delivered_def count_dropped_def count_rejected_def
  count_callback_error_def count_slow_callback_def

section \<open>Invocation\<close>

definition begin_invocation :: "'e subscriber_state \<Rightarrow> bool \<times> 'e subscriber_state" where
  "begin_invocation s =
     (if \<not> ss_active s then (False, s) else (True, s\<lparr>ss_in_flight := ss_in_flight s + 1\<rparr>))"

text \<open>\<open>finish_invocation\<close> in its two parts: the counters, then the section of the state mutex, which
  tells whether the subscriber became idle.\<close>

definition finish_counters :: "int \<Rightarrow> 'e subscriber_state \<Rightarrow> 'e subscriber_state" where
  "finish_counters elapsed s =
     (let s1 = count_delivered s;
          threshold = so_slow_callback_threshold (ss_options s)
      in if threshold \<noteq> 0 \<and> threshold \<le> elapsed then count_slow_callback s1 else s1)"

definition finish_section :: "'e subscriber_state \<Rightarrow> bool \<times> 'e subscriber_state" where
  "finish_section s =
     (let s1 = s\<lparr>ss_in_flight := ss_in_flight s - 1\<rparr> in (ss_in_flight s1 = 0, s1))"

text \<open>The thread-local chain of active callbacks, innermost first.\<close>

record invocation_context =
  ic_state :: nat
  ic_owner_tag :: nat

definition enter_scope ::
  "'e subscriber_state \<Rightarrow> invocation_context list \<Rightarrow> invocation_context list" where
  "enter_scope s chain = \<lparr>ic_state = ss_this s, ic_owner_tag = ss_owner_tag s\<rparr> # chain"

primrec invoking_on_this_thread :: "'e subscriber_state \<Rightarrow> invocation_context list \<Rightarrow> bool" where
  "invoking_on_this_thread s [] = False"
| "invoking_on_this_thread s (context # previous) =
     (if ic_state context = ss_this s then True else invoking_on_this_thread s previous)"

primrec callback_active_for :: "nat \<Rightarrow> invocation_context list \<Rightarrow> bool" where
  "callback_active_for tag [] = False"
| "callback_active_for tag (context # previous) =
     (if ic_owner_tag context = tag then True else callback_active_for tag previous)"

text \<open>The callback gets the chain of contexts it runs in and the event; \<open>Some x\<close> is an exception.
  Leaving by an exception runs the same completion guard.\<close>

definition invoke_callback ::
  "(invocation_context list \<Rightarrow> 'e \<Rightarrow> exn option) \<Rightarrow> invocation_context list \<Rightarrow> 'e \<Rightarrow>
   'e subscriber_state \<Rightarrow> exn option \<times> 'e subscriber_state" where
  "invoke_callback callback chain event s = (case callback chain event of
       None \<Rightarrow> (None, s)
     | Some x \<Rightarrow> (Some x, count_callback_error s))"

definition execute_callback ::
  "(invocation_context list \<Rightarrow> 'e \<Rightarrow> exn option) \<Rightarrow> int \<Rightarrow> invocation_context list \<Rightarrow> 'e \<Rightarrow>
   'e subscriber_state \<Rightarrow> exn option \<times> 'e subscriber_state" where
  "execute_callback callback elapsed chain event s =
     (case invoke_callback callback (enter_scope s chain) event s of
        (outcome, s1) \<Rightarrow> (outcome, snd (finish_section (finish_counters elapsed s1))))"

section \<open>The mailbox of an isolated subscriber\<close>

text \<open>\<open>c\<close> is the outcome of copying the event into the mailbox; \<open>None\<close> parks a lossless producer.\<close>

definition enqueue_isolated ::
  "bool \<Rightarrow> exn + 'e \<Rightarrow> 'e subscriber_state \<Rightarrow> ((exn + bool) \<times> 'e subscriber_state) option" where
  "enqueue_isolated copyable c s =
     (let size = of_nat (length (ss_mailbox s)) :: size_t;
          capacity = so_mailbox_capacity (ss_options s);
          tail = (if \<not> ss_mailbox_accepting s then (Inr False, count_rejected s)
                  else case c of
                    Inl x \<Rightarrow> (Inl x, count_rejected s)
                  | Inr event \<Rightarrow> (Inr True, s\<lparr>ss_mailbox := ss_mailbox s @ [event]\<rparr>))
      in if \<not> copyable then Some (Inr False, count_rejected s)
         else if so_guarantee (ss_options s) = lossless
         then (case cv_wait False (\<not> ss_mailbox_accepting s \<or> size < capacity) of
                 None \<Rightarrow> None | Some _ \<Rightarrow> Some tail)
         else if size = capacity then Some (Inr True, count_dropped 1 s)
         else Some tail)"

text \<open>\<open>try_invoke\<close> with no other thread inside the subscriber, so that the serial mutex is free. The
  boolean result says whether the event was taken; an exception of the callback or of the copy
  propagates.\<close>

definition try_invoke ::
  "bool \<Rightarrow> (invocation_context list \<Rightarrow> 'e \<Rightarrow> exn option) \<Rightarrow> int \<Rightarrow> invocation_context list \<Rightarrow> 'e \<Rightarrow>
   exn + 'e \<Rightarrow> 'e subscriber_state \<Rightarrow> ((exn + bool) \<times> 'e subscriber_state) option" where
  "try_invoke copyable callback elapsed chain event c s =
     (let s1 = count_offered s in
      if is_isolated s1 then enqueue_isolated copyable c s1
      else (case begin_invocation s1 of
          (False, s2) \<Rightarrow> Some (Inr False, count_rejected s2)
        | (True, s2) \<Rightarrow> (case execute_callback callback elapsed chain event s2 of
              (None, s3) \<Rightarrow> Some (Inr True, s3)
            | (Some x, s3) \<Rightarrow> Some (Inl x, s3))))"

text \<open>The section of \<open>executor_loop\<close> under the mailbox mutex: \<open>None\<close> parks, \<open>Some None\<close> leaves the loop,
  \<open>Some (Some e)\<close> takes the first event.\<close>

definition executor_next :: "'e subscriber_state \<Rightarrow> ('e option \<times> 'e subscriber_state) option" where
  "executor_next s =
     (case cv_wait False (ss_executor_stopping s \<or> ss_mailbox s \<noteq> []) of
        None \<Rightarrow> None
      | Some _ \<Rightarrow> Some (
          if ss_executor_stopping s \<and> (\<not> ss_drain_mailbox s \<or> ss_mailbox s = []) then (None, s)
          else (Some (hd (ss_mailbox s)), s\<lparr>ss_mailbox := tl (ss_mailbox s)\<rparr>)))"

section \<open>Stopping and unsubscribing\<close>

text \<open>The section of \<open>stop_delivery\<close> under the mailbox mutex.\<close>

definition stop_section :: "bool \<Rightarrow> 'e subscriber_state \<Rightarrow> 'e subscriber_state" where
  "stop_section drain s =
     (let s1 = s\<lparr>ss_mailbox_accepting := False, ss_executor_stopping := True,
                 ss_drain_mailbox := ss_drain_mailbox s \<and> drain\<rparr>
      in if \<not> drain then (count_dropped (of_nat (length (ss_mailbox s1))) s1)\<lparr>ss_mailbox := []\<rparr> else s1)"

text \<open>The first section of \<open>unsubscribe\<close>: whether this call runs the retirement callback, whether it
  was made from inside this subscriber's own callback, and the deactivated state.\<close>

definition unsubscribe_section ::
  "invocation_context list \<Rightarrow> 'e subscriber_state \<Rightarrow> bool \<times> bool \<times> 'e subscriber_state" where
  "unsubscribe_section chain s =
     (let s1 = s\<lparr>ss_active := False\<rparr>; inside = invoking_on_this_thread s1 chain in
      if \<not> ss_retirement_started s1
      then (ss_retire s1, inside, s1\<lparr>ss_retirement_started := True, ss_retire := False\<rparr>)
      else (False, inside, s1))"

text \<open>The section of the destructor under the mailbox mutex.\<close>

definition destructor_section :: "'e subscriber_state \<Rightarrow> 'e subscriber_state" where
  "destructor_section s =
     (if \<not> is_isolated s then s
      else s\<lparr>ss_mailbox_accepting := False, ss_executor_stopping := True, ss_drain_mailbox := False,
             ss_mailbox := []\<rparr>)"

section \<open>What the operations do to the fields\<close>

lemma count_fields [simp]:
  "ss_mailbox (count_offered s) = ss_mailbox s" "ss_mailbox (count_delivered s) = ss_mailbox s"
  "ss_mailbox (count_dropped n s) = ss_mailbox s" "ss_mailbox (count_rejected s) = ss_mailbox s"
  "ss_mailbox (count_callback_error s) = ss_mailbox s" "ss_mailbox (count_slow_callback s) = ss_mailbox s"
  "ss_options (count_offered s) = ss_options s" "ss_options (count_delivered s) = ss_options s"
  "ss_options (count_dropped n s) = ss_options s" "ss_options (count_rejected s) = ss_options s"
  "ss_options (count_callback_error s) = ss_options s" "ss_options (count_slow_callback s) = ss_options s"
  "ss_in_flight (count_offered s) = ss_in_flight s" "ss_in_flight (count_delivered s) = ss_in_flight s"
  "ss_in_flight (count_dropped n s) = ss_in_flight s" "ss_in_flight (count_rejected s) = ss_in_flight s"
  "ss_in_flight (count_callback_error s) = ss_in_flight s"
  "ss_in_flight (count_slow_callback s) = ss_in_flight s"
  "ss_active (count_offered s) = ss_active s" "ss_active (count_delivered s) = ss_active s"
  "ss_active (count_dropped n s) = ss_active s" "ss_active (count_rejected s) = ss_active s"
  "ss_active (count_callback_error s) = ss_active s" "ss_active (count_slow_callback s) = ss_active s"
  "ss_mailbox_accepting (count_offered s) = ss_mailbox_accepting s"
  "ss_mailbox_accepting (count_delivered s) = ss_mailbox_accepting s"
  "ss_mailbox_accepting (count_dropped n s) = ss_mailbox_accepting s"
  "ss_mailbox_accepting (count_rejected s) = ss_mailbox_accepting s"
  "ss_mailbox_accepting (count_callback_error s) = ss_mailbox_accepting s"
  "ss_mailbox_accepting (count_slow_callback s) = ss_mailbox_accepting s"
  "ss_executor_stopping (count_offered s) = ss_executor_stopping s"
  "ss_executor_stopping (count_delivered s) = ss_executor_stopping s"
  "ss_executor_stopping (count_dropped n s) = ss_executor_stopping s"
  "ss_executor_stopping (count_rejected s) = ss_executor_stopping s"
  "ss_executor_stopping (count_callback_error s) = ss_executor_stopping s"
  "ss_executor_stopping (count_slow_callback s) = ss_executor_stopping s"
  "ss_drain_mailbox (count_offered s) = ss_drain_mailbox s"
  "ss_drain_mailbox (count_delivered s) = ss_drain_mailbox s"
  "ss_drain_mailbox (count_dropped n s) = ss_drain_mailbox s"
  "ss_drain_mailbox (count_rejected s) = ss_drain_mailbox s"
  "ss_drain_mailbox (count_callback_error s) = ss_drain_mailbox s"
  "ss_drain_mailbox (count_slow_callback s) = ss_drain_mailbox s"
  by (simp_all add: count_defs)

section \<open>The executor loop and the join\<close>

text \<open>What the executor does with an event it took out of the mailbox: an inactive subscriber drops
  it; otherwise the callback runs, and an exception goes to the error handler.\<close>

definition executor_deliver ::
  "(invocation_context list \<Rightarrow> 'e \<Rightarrow> exn option) \<Rightarrow> int \<Rightarrow> 'e \<Rightarrow> 'e subscriber_state \<Rightarrow> 'e subscriber_state" where
  "executor_deliver callback elapsed event s = (case begin_invocation s of
       (False, s1) \<Rightarrow> count_dropped 1 s1
     | (True, s1) \<Rightarrow> snd (execute_callback callback elapsed [] event s1))"

lemma finish_fields [simp]:
  "ss_mailbox (finish_counters elapsed s) = ss_mailbox s"
  "ss_mailbox (snd (finish_section s)) = ss_mailbox s"
  by (simp_all add: finish_counters_def finish_section_def Let_def)

lemma executor_deliver_mailbox [simp]: "ss_mailbox (executor_deliver callback elapsed e s) = ss_mailbox s"
  by (auto simp: executor_deliver_def begin_invocation_def execute_callback_def invoke_callback_def
      split: option.splits prod.splits)

text \<open>The loop with no other thread in between; \<open>None\<close> parks on an empty mailbox.\<close>

function executor_loop ::
  "(invocation_context list \<Rightarrow> 'e \<Rightarrow> exn option) \<Rightarrow> int \<Rightarrow> 'e subscriber_state \<Rightarrow> 'e subscriber_state option" where
  "executor_loop callback elapsed s = (case executor_next s of
       None \<Rightarrow> None
     | Some (None, s') \<Rightarrow> Some s'
     | Some (Some e, s') \<Rightarrow> executor_loop callback elapsed (executor_deliver callback elapsed e s'))"
  by pat_completeness auto
termination
  by (relation "measure (\<lambda>(callback, elapsed, s). length (ss_mailbox s))")
    (auto simp: executor_next_def cv_wait_def neq_Nil_conv split: if_splits)

declare executor_loop.simps [simp del]

text \<open>\<open>stop_delivery\<close> as a whole, called by the executor's own thread or by another one, which then
  waits for the executor to run to the end of its loop.\<close>

definition stop_delivery ::
  "(invocation_context list \<Rightarrow> 'e \<Rightarrow> exn option) \<Rightarrow> int \<Rightarrow> bool \<Rightarrow> bool \<Rightarrow> 'e subscriber_state \<Rightarrow>
   'e subscriber_state option" where
  "stop_delivery callback elapsed on_executor drain s =
     (if \<not> is_isolated s then Some s
      else (let s1 = stop_section drain s in
        if ss_executor_joinable s1 \<and> on_executor then Some s1
        else if ss_executor_joinable s1
        then map_option (\<lambda>s2. s2\<lparr>ss_executor_joinable := False\<rparr>) (executor_loop callback elapsed s1)
        else Some s1))"

text \<open>The destructor, on the executor's own thread (which detaches) or on another one (which joins).\<close>

definition ss_destroy ::
  "(invocation_context list \<Rightarrow> 'e \<Rightarrow> exn option) \<Rightarrow> int \<Rightarrow> bool \<Rightarrow> 'e subscriber_state \<Rightarrow>
   'e subscriber_state option" where
  "ss_destroy callback elapsed on_executor s =
     (if \<not> is_isolated s then Some s
      else (let s1 = destructor_section s in
        if \<not> ss_executor_joinable s1 then Some s1
        else if on_executor then Some (s1\<lparr>ss_executor_joinable := False\<rparr>)
        else map_option (\<lambda>s2. s2\<lparr>ss_executor_joinable := False\<rparr>) (executor_loop callback elapsed s1)))"

text \<open>An executor that is told to stop without draining leaves at once, so that neither a discarding
  stop nor the destructor waits for a callback that has not been entered.\<close>

lemma executor_loop_leaves:
  "ss_executor_stopping s \<Longrightarrow> \<not> ss_drain_mailbox s \<Longrightarrow> executor_loop callback elapsed s = Some s"
  by (simp add: executor_loop.simps [of _ _ s] executor_next_def cv_wait_def)

definition discarded :: "'e subscriber_state \<Rightarrow> 'e subscriber_state" where
  "discarded s = (if is_isolated s then (stop_section False s)\<lparr>ss_executor_joinable := False\<rparr> else s)"

lemma stop_delivery_discards: "stop_delivery callback elapsed False False s = Some (discarded s)"
  by (auto simp: stop_delivery_def executor_loop_leaves stop_section_def count_dropped_def discarded_def Let_def)

lemma discarded_fields:
  "discarded (discarded s) = discarded s" "is_isolated (discarded s) = is_isolated s"
  "is_isolated s \<Longrightarrow> ss_mailbox (discarded s) = []" "is_isolated s \<Longrightarrow> \<not> ss_executor_joinable (discarded s)"
  by (simp_all add: discarded_def stop_section_def count_dropped_def Let_def)

lemma ss_destroy_returns:
  "\<exists>s'. ss_destroy callback elapsed on_executor s = Some s' \<and> ss_metrics s' = ss_metrics s \<and>
     (is_isolated s \<longrightarrow> ss_mailbox s' = [] \<and> \<not> ss_executor_joinable s' \<and> \<not> ss_mailbox_accepting s')"
  by (simp add: ss_destroy_def destructor_section_def executor_loop_leaves Let_def)

text \<open>The last wait of \<open>unsubscribe\<close>; \<open>None\<close> parks while callbacks are in flight.\<close>

definition await_idle :: "bool \<Rightarrow> 'e subscriber_state \<Rightarrow> 'e subscriber_state option" where
  "await_idle inside s = (if inside then Some s else if ss_in_flight s = 0 then Some s else None)"

lemma execute_callback_fields:
  assumes "execute_callback callback elapsed chain e s = (x, s')"
  shows "ss_active s' = ss_active s" "ss_options s' = ss_options s"
    "ss_executor_stopping s' = ss_executor_stopping s" "ss_drain_mailbox s' = ss_drain_mailbox s"
    "ss_mailbox s' = ss_mailbox s" "ss_in_flight s' = ss_in_flight s - 1"
    "sm_delivered (ss_metrics s') = sm_delivered (ss_metrics s) + 1"
    "sm_dropped (ss_metrics s') = sm_dropped (ss_metrics s)"
    "sm_rejected (ss_metrics s') = sm_rejected (ss_metrics s)"
    "sm_offered (ss_metrics s') = sm_offered (ss_metrics s)"
    "sm_callback_errors (ss_metrics s') = sm_callback_errors (ss_metrics s) + of_bool (x \<noteq> None)"
    "x = callback (enter_scope s chain) e" "ss_id s' = ss_id s" "ss_this s' = ss_this s"
    "ss_retirement_started s' = ss_retirement_started s" "ss_owner_tag s' = ss_owner_tag s"
  using assms
  by (auto simp: execute_callback_def invoke_callback_def finish_section_def finish_counters_def
      count_defs Let_def split: option.splits if_splits)

lemma executor_loop_drains:
  assumes "ss_executor_stopping s" "ss_drain_mailbox s" "ss_active s"
  shows "\<exists>s'. executor_loop callback elapsed s = Some s' \<and> ss_mailbox s' = [] \<and>
    sm_delivered (ss_metrics s') = sm_delivered (ss_metrics s) + of_nat (length (ss_mailbox s)) \<and>
    sm_dropped (ss_metrics s') = sm_dropped (ss_metrics s) \<and> ss_in_flight s' = ss_in_flight s"
  using assms
proof (induction "ss_mailbox s" arbitrary: s)
  case Nil
  then show ?case
    by (intro exI [of _ s]) (simp add: executor_loop.simps [of _ _ s] executor_next_def cv_wait_def)
next
  case (Cons e es)
  let ?s1 = "s\<lparr>ss_mailbox := es, ss_in_flight := ss_in_flight s + 1\<rparr>"
  obtain x s2 where x: "execute_callback callback elapsed [] e ?s1 = (x, s2)" by (metis surj_pair)
  note f = execute_callback_fields [OF x]
  have step: "executor_loop callback elapsed s = executor_loop callback elapsed s2"
    using Cons.hyps(2) [symmetric] Cons.prems x
    by (simp add: executor_loop.simps [of _ _ s] executor_next_def cv_wait_def executor_deliver_def
        begin_invocation_def)
  from Cons.hyps(1) [of s2] f Cons.prems obtain s' where
    "executor_loop callback elapsed s2 = Some s'" "ss_mailbox s' = []"
    "sm_delivered (ss_metrics s') = sm_delivered (ss_metrics s2) + of_nat (length es)"
    "sm_dropped (ss_metrics s') = sm_dropped (ss_metrics s2)" "ss_in_flight s' = ss_in_flight s2"
    by auto
  with step f Cons.hyps(2) [symmetric] show ?case by simp
qed

text \<open>
  Property C29. A draining \<open>stop_delivery\<close> of an active isolated subscriber, called from outside its
  executor, returns, and by then the callback has run once for every event that was in the mailbox,
  whether it threw or not: the mailbox is empty, the delivered counter has grown by its length, and
  nothing was dropped.
\<close>

theorem stop_delivery_drains:
  assumes "is_isolated s" "ss_executor_joinable s" "ss_active s" "ss_drain_mailbox s"
  shows "\<exists>s'. stop_delivery callback elapsed False True s = Some s' \<and> ss_mailbox s' = [] \<and>
    \<not> ss_mailbox_accepting (stop_section True s) \<and> \<not> ss_executor_joinable s' \<and>
    sm_delivered (ss_metrics s') = sm_delivered (ss_metrics s) + of_nat (length (ss_mailbox s)) \<and>
    sm_dropped (ss_metrics s') = sm_dropped (ss_metrics s)"
proof -
  let ?s1 = "stop_section True s"
  have f: "ss_executor_stopping ?s1" "ss_drain_mailbox ?s1" "ss_active ?s1" "ss_mailbox ?s1 = ss_mailbox s"
    "ss_metrics ?s1 = ss_metrics s" "ss_executor_joinable ?s1" "\<not> ss_mailbox_accepting ?s1"
    using assms by (simp_all add: stop_section_def Let_def)
  from executor_loop_drains [OF f(1-3), of callback elapsed] obtain s' where
    "executor_loop callback elapsed ?s1 = Some s'" "ss_mailbox s' = []"
    "sm_delivered (ss_metrics s') = sm_delivered (ss_metrics s) + of_nat (length (ss_mailbox s))"
    "sm_dropped (ss_metrics s') = sm_dropped (ss_metrics s)"
    using f by auto
  with f assms show ?thesis by (simp add: stop_delivery_def Let_def)
qed

definition drain_example :: "nat subscriber_state" where
  "drain_example = \<lparr>ss_this = 0, ss_id = 1, ss_options = \<lparr>so_delivery = isolated,
       so_guarantee = lossless, so_mailbox_capacity = 4, so_slow_callback_threshold = 0\<rparr>,
     ss_owner_tag = 0, ss_retire = True, ss_in_flight = 0, ss_active = True,
     ss_retirement_started = False, ss_mailbox = [5, 6, 7], ss_mailbox_accepting = True,
     ss_executor_stopping = False, ss_drain_mailbox = True, ss_executor_joinable = True,
     ss_metrics = zero_metrics\<rparr>"

theorem stop_delivery_drains_witness:
  "\<exists>s'. stop_delivery (\<lambda>_ e. if e = 6 then Some (User_exception 1) else None) 0 False True drain_example
      = Some s' \<and> ss_mailbox s' = [] \<and> sm_delivered (ss_metrics s') = 3"
  using stop_delivery_drains [of drain_example "\<lambda>_ e. if e = 6 then Some (User_exception 1) else None" 0]
  by (auto simp: drain_example_def zero_metrics_def)

text \<open>
  The constructor accepts exactly the valid options: a non-negative slow-callback
  threshold and, for isolated delivery, a mailbox of at least one entry and a copyable event type.
  Everything else throws \<open>std::invalid_argument\<close>. A new subscriber is active, has no callback in
  flight, an empty mailbox and zero counters.
\<close>

lemma ss_new_validates:
  "(case (ss_new copyable this ident options tag :: exn + 'e subscriber_state) of
      Inl x \<Rightarrow> (\<exists>msg. x = Invalid_argument msg) \<and>
        (so_slow_callback_threshold options < 0 \<or>
         (so_delivery options = isolated \<and> (so_mailbox_capacity options = 0 \<or> \<not> copyable)))
    | Inr s \<Rightarrow> 0 \<le> so_slow_callback_threshold options \<and>
        (so_delivery options \<noteq> isolated \<or> (0 < so_mailbox_capacity options \<and> copyable)) \<and>
        ss_options s = options \<and> ss_id s = ident \<and> ss_active s \<and> ss_in_flight s = 0 \<and>
        ss_mailbox s = [] \<and> ss_metrics s = zero_metrics)"
  by (auto simp: ss_new_def word_neq_0_conv [symmetric] simp del: word_neq_0_conv split: if_splits)

lemma try_invoke_direct_result:
  assumes "\<not> is_isolated s"
  shows "\<exists>s'. try_invoke copyable callback elapsed chain e c s =
      Some (if \<not> ss_active s then Inr False
            else case callback (enter_scope s chain) e of None \<Rightarrow> Inr True | Some x \<Rightarrow> Inl x, s') \<and>
    ss_in_flight s' = ss_in_flight s \<and> ss_active s' = ss_active s \<and> ss_options s' = ss_options s \<and>
    ss_this s' = ss_this s \<and> ss_owner_tag s' = ss_owner_tag s \<and>
    sm_offered (ss_metrics s') = sm_offered (ss_metrics s) + 1 \<and>
    sm_delivered (ss_metrics s') = sm_delivered (ss_metrics s) + of_bool (ss_active s) \<and>
    sm_rejected (ss_metrics s') = sm_rejected (ss_metrics s) + of_bool (\<not> ss_active s) \<and>
    sm_callback_errors (ss_metrics s') = sm_callback_errors (ss_metrics s) +
      of_bool (ss_active s \<and> callback (enter_scope s chain) e \<noteq> None)"
proof (cases "ss_active s")
  case False
  with assms show ?thesis
    by (simp add: try_invoke_def begin_invocation_def Let_def count_defs)
next
  case True
  let ?s1 = "(count_offered s)\<lparr>ss_in_flight := ss_in_flight s + 1\<rparr>"
  obtain x s2 where x: "execute_callback callback elapsed chain e ?s1 = (x, s2)" by (metis surj_pair)
  note f = execute_callback_fields [OF x]
  have "enter_scope ?s1 chain = enter_scope s chain" by (simp add: enter_scope_def count_defs)
  moreover have "try_invoke copyable callback elapsed chain e c s =
      Some (case x of None \<Rightarrow> Inr True | Some y \<Rightarrow> Inl y, s2)"
    using True assms x by (simp add: try_invoke_def begin_invocation_def Let_def split: option.split)
  ultimately show ?thesis using f True by (simp add: count_defs)
qed

text \<open>
  One direct delivery, outcome by outcome. An inactive subscriber counts a rejection and
  its callback does not run; an active one runs the callback exactly once, counts a delivery in any
  case and a callback error exactly when it throws, propagates that exception, and leaves no
  invocation in flight behind.
\<close>

lemma try_invoke_direct:
  assumes "\<not> is_isolated s"
  shows "\<exists>r s'. try_invoke copyable callback elapsed chain e c s = Some (r, s') \<and>
    ss_in_flight s' = ss_in_flight s \<and>
    sm_offered (ss_metrics s') = sm_offered (ss_metrics s) + 1 \<and>
    r = (if \<not> ss_active s then Inr False
         else case callback (enter_scope s chain) e of None \<Rightarrow> Inr True | Some x \<Rightarrow> Inl x) \<and>
    sm_delivered (ss_metrics s') = sm_delivered (ss_metrics s) + of_bool (ss_active s) \<and>
    sm_rejected (ss_metrics s') = sm_rejected (ss_metrics s) + of_bool (\<not> ss_active s) \<and>
    sm_callback_errors (ss_metrics s') = sm_callback_errors (ss_metrics s) +
      of_bool (ss_active s \<and> callback (enter_scope s chain) e \<noteq> None)"
  using try_invoke_direct_result [OF assms] by blast

end
