(* ===== verification/Subscriber_Threads.thy ===== *)
theory Subscriber_Threads
  imports Subscriber
begin

text \<open>
  Threads on one \<open>subscriber_state\<close>: worker threads that offer events through \<open>try_invoke\<close>, the
  dedicated executor of an isolated subscriber, threads that call \<open>unsubscribe\<close>, from outside or
  from inside the callback, and the shutdown thread that calls \<open>stop_delivery\<close>.

  Each step is one critical section of the class (an operation of the theory \<open>Subscriber\<close>) or the
  start or the end of a callback. A wait on a condition variable is a step that is possible once
  the predicate holds; the mutex that serializes callbacks and the mutex around the join of the
  executor are owned by a thread. Three ghost fields log what the mailbox accepted, what the
  executor took out of it and whether pending entries were discarded.

  The theorems give the contract of synchronous unsubscription, mutual exclusion of serialized
  and isolated callbacks, the balance of the counters, the mailbox bound, FIFO order and draining
  of the mailbox; the last section exhibits a reachable deadlock between two concurrent
  deactivations of an isolated subscriber.
\<close>

section \<open>Threads and steps\<close>

text \<open>The program counter of a thread that uses the subscriber. \<open>Stopping\<close> and \<open>Joining\<close> carry whether
  the call is an \<open>unsubscribe\<close>, which goes on to wait for the callbacks in flight.\<close>

datatype 'e sub_pc =
    Sub_idle
  | Offering 'e
  | Entered_serial 'e
  | In_callback 'e
  | Finishing
  | Releasing
  | Unsubscribing
  | Stopping bool
  | Joining bool
  | Awaiting_idle
  | Unsubscribed

datatype 'e exec_pc =
    Ex_none
  | Ex_wait
  | Ex_taken 'e
  | Ex_callback 'e
  | Ex_self_stop 'e
  | Ex_finishing
  | Ex_exited

record 'e sub_system =
  sys_sub :: "'e subscriber_state"
  sys_pcs :: "'e sub_pc list"
  sys_exec :: "'e exec_pc"
  sys_serial_owner :: "nat option"
  sys_join_owner :: "nat option"
  sys_accepted :: "'e list"
  sys_taken :: "'e list"
  sys_discarded :: bool

definition callback_returned :: "bool \<Rightarrow> int \<Rightarrow> 'e subscriber_state \<Rightarrow> 'e subscriber_state" where
  "callback_returned threw elapsed s =
     finish_counters elapsed (if threw then count_callback_error s else s)"

text \<open>A thread inside a callback of the subscriber has its context in its chain; a thread that
  calls \<open>unsubscribe\<close> from outside has not.\<close>

abbreviation outside_section :: "'e subscriber_state \<Rightarrow> 'e subscriber_state" where
  "outside_section s \<equiv> snd (snd (unsubscribe_section [] s))"

abbreviation inside_section :: "'e subscriber_state \<Rightarrow> 'e subscriber_state" where
  "inside_section s \<equiv> snd (snd (unsubscribe_section (enter_scope s []) s))"

inductive sub_step :: "'e sub_system \<Rightarrow> 'e sub_system \<Rightarrow> bool" where
  offer: "t < length (sys_pcs s) \<Longrightarrow> sys_pcs s ! t = Sub_idle \<Longrightarrow>
    sub_step s (s\<lparr>sys_sub := count_offered (sys_sub s), sys_pcs := (sys_pcs s)[t := Offering e]\<rparr>)"
| reject: "t < length (sys_pcs s) \<Longrightarrow> sys_pcs s ! t = Offering e \<Longrightarrow> \<not> is_isolated (sys_sub s) \<Longrightarrow>
    begin_invocation (sys_sub s) = (False, sub') \<Longrightarrow>
    sub_step s (s\<lparr>sys_sub := count_rejected sub', sys_pcs := (sys_pcs s)[t := Sub_idle]\<rparr>)"
| enter: "t < length (sys_pcs s) \<Longrightarrow> sys_pcs s ! t = Offering e \<Longrightarrow>
    so_delivery (ss_options (sys_sub s)) = concurrent \<Longrightarrow>
    begin_invocation (sys_sub s) = (True, sub') \<Longrightarrow>
    sub_step s (s\<lparr>sys_sub := sub', sys_pcs := (sys_pcs s)[t := In_callback e]\<rparr>)"
| enter_serial: "t < length (sys_pcs s) \<Longrightarrow> sys_pcs s ! t = Offering e \<Longrightarrow>
    so_delivery (ss_options (sys_sub s)) = serialized \<Longrightarrow>
    begin_invocation (sys_sub s) = (True, sub') \<Longrightarrow>
    sub_step s (s\<lparr>sys_sub := sub', sys_pcs := (sys_pcs s)[t := Entered_serial e]\<rparr>)"
| acquire_serial: "t < length (sys_pcs s) \<Longrightarrow> sys_pcs s ! t = Entered_serial e \<Longrightarrow>
    sys_serial_owner s = None \<Longrightarrow>
    sub_step s (s\<lparr>sys_pcs := (sys_pcs s)[t := In_callback e], sys_serial_owner := Some t\<rparr>)"
| callback_end: "t < length (sys_pcs s) \<Longrightarrow> sys_pcs s ! t = In_callback e \<Longrightarrow>
    sub_step s (s\<lparr>sys_sub := callback_returned threw elapsed (sys_sub s),
                  sys_pcs := (sys_pcs s)[t := Finishing]\<rparr>)"
| finish: "t < length (sys_pcs s) \<Longrightarrow> sys_pcs s ! t = Finishing \<Longrightarrow>
    sub_step s (s\<lparr>sys_sub := snd (finish_section (sys_sub s)),
                  sys_pcs := (sys_pcs s)[t := if sys_serial_owner s = Some t then Releasing else Sub_idle]\<rparr>)"
| release_serial: "t < length (sys_pcs s) \<Longrightarrow> sys_pcs s ! t = Releasing \<Longrightarrow>
    sub_step s (s\<lparr>sys_pcs := (sys_pcs s)[t := Sub_idle], sys_serial_owner := None\<rparr>)"
| self_unsubscribe: "t < length (sys_pcs s) \<Longrightarrow> sys_pcs s ! t = In_callback e \<Longrightarrow>
    sub_step s (s\<lparr>sys_sub := inside_section (sys_sub s)\<rparr>)"
| enqueue: "t < length (sys_pcs s) \<Longrightarrow> sys_pcs s ! t = Offering e \<Longrightarrow> is_isolated (sys_sub s) \<Longrightarrow>
    c = Inr e \<or> c = Inl x \<Longrightarrow> enqueue_isolated True c (sys_sub s) = Some (r, sub') \<Longrightarrow>
    sub_step s (s\<lparr>sys_sub := sub', sys_pcs := (sys_pcs s)[t := Sub_idle],
                  sys_accepted := sys_accepted s @
                    (if ss_mailbox sub' = ss_mailbox (sys_sub s) then [] else [e])\<rparr>)"
| executor_exit: "sys_exec s = Ex_wait \<Longrightarrow> executor_next (sys_sub s) = Some (None, sub') \<Longrightarrow>
    sub_step s (s\<lparr>sys_sub := sub', sys_exec := Ex_exited\<rparr>)"
| executor_take: "sys_exec s = Ex_wait \<Longrightarrow> executor_next (sys_sub s) = Some (Some e, sub') \<Longrightarrow>
    sub_step s (s\<lparr>sys_sub := sub', sys_exec := Ex_taken e, sys_taken := sys_taken s @ [e]\<rparr>)"
| executor_drop: "sys_exec s = Ex_taken e \<Longrightarrow> begin_invocation (sys_sub s) = (False, sub') \<Longrightarrow>
    sub_step s (s\<lparr>sys_sub := count_dropped 1 sub', sys_exec := Ex_wait\<rparr>)"
| executor_enter: "sys_exec s = Ex_taken e \<Longrightarrow> begin_invocation (sys_sub s) = (True, sub') \<Longrightarrow>
    sub_step s (s\<lparr>sys_sub := sub', sys_exec := Ex_callback e\<rparr>)"
| executor_callback_end: "sys_exec s = Ex_callback e \<Longrightarrow>
    sub_step s (s\<lparr>sys_sub := callback_returned threw elapsed (sys_sub s), sys_exec := Ex_finishing\<rparr>)"
| executor_finish: "sys_exec s = Ex_finishing \<Longrightarrow>
    sub_step s (s\<lparr>sys_sub := snd (finish_section (sys_sub s)), sys_exec := Ex_wait\<rparr>)"
| executor_self_unsubscribe: "sys_exec s = Ex_callback e \<Longrightarrow>
    sub_step s (s\<lparr>sys_sub := stop_section False (inside_section (sys_sub s)),
                  sys_exec := Ex_self_stop e, sys_discarded := True\<rparr>)"
| executor_self_return: "sys_exec s = Ex_self_stop e \<Longrightarrow> sys_join_owner s = None \<Longrightarrow>
    sub_step s (s\<lparr>sys_exec := Ex_callback e\<rparr>)"
| unsubscribe: "t < length (sys_pcs s) \<Longrightarrow> sys_pcs s ! t = Sub_idle \<Longrightarrow>
    sub_step s (s\<lparr>sys_sub := outside_section (sys_sub s), sys_pcs := (sys_pcs s)[t := Unsubscribing]\<rparr>)"
| unsubscribe_direct: "t < length (sys_pcs s) \<Longrightarrow> sys_pcs s ! t = Unsubscribing \<Longrightarrow>
    \<not> is_isolated (sys_sub s) \<Longrightarrow>
    sub_step s (s\<lparr>sys_pcs := (sys_pcs s)[t := Awaiting_idle]\<rparr>)"
| unsubscribe_stop: "t < length (sys_pcs s) \<Longrightarrow> sys_pcs s ! t = Unsubscribing \<Longrightarrow>
    is_isolated (sys_sub s) \<Longrightarrow>
    sub_step s (s\<lparr>sys_sub := stop_section False (sys_sub s), sys_pcs := (sys_pcs s)[t := Stopping True],
                  sys_discarded := True\<rparr>)"
| shutdown_stop: "t < length (sys_pcs s) \<Longrightarrow> sys_pcs s ! t = Sub_idle \<Longrightarrow> is_isolated (sys_sub s) \<Longrightarrow>
    sub_step s (s\<lparr>sys_sub := stop_section drain (sys_sub s), sys_pcs := (sys_pcs s)[t := Stopping False],
                  sys_discarded := (sys_discarded s \<or> \<not> drain)\<rparr>)"
| join_lock: "t < length (sys_pcs s) \<Longrightarrow> sys_pcs s ! t = Stopping w \<Longrightarrow> sys_join_owner s = None \<Longrightarrow>
    sub_step s (s\<lparr>sys_pcs := (sys_pcs s)[t := Joining w], sys_join_owner := Some t\<rparr>)"
| join_done: "t < length (sys_pcs s) \<Longrightarrow> sys_pcs s ! t = Joining w \<Longrightarrow> sys_exec s = Ex_exited \<Longrightarrow>
    sub_step s (s\<lparr>sys_sub := (sys_sub s)\<lparr>ss_executor_joinable := False\<rparr>,
                  sys_pcs := (sys_pcs s)[t := if w then Awaiting_idle else Sub_idle],
                  sys_join_owner := None\<rparr>)"
| idle_reached: "t < length (sys_pcs s) \<Longrightarrow> sys_pcs s ! t = Awaiting_idle \<Longrightarrow>
    ss_in_flight (sys_sub s) = 0 \<Longrightarrow>
    sub_step s (s\<lparr>sys_pcs := (sys_pcs s)[t := Unsubscribed]\<rparr>)"

text \<open>A subscriber as \<open>subscribe\<close> leaves it, with \<open>n\<close> threads that may use it.\<close>

definition sub_start :: "nat \<Rightarrow> 'e subscriber_state \<Rightarrow> 'e sub_system" where
  "sub_start n s = \<lparr>sys_sub = start_executor s, sys_pcs = replicate n Sub_idle,
     sys_exec = (if is_isolated s then Ex_wait else Ex_none), sys_serial_owner = None,
     sys_join_owner = None, sys_accepted = [], sys_taken = [], sys_discarded = False\<rparr>"

inductive sub_reachable :: "'e sub_system \<Rightarrow> bool" where
  start: "ss_new True this ident options tag = Inr s \<Longrightarrow> n < 18446744073709551615 \<Longrightarrow>
    sub_reachable (sub_start n s)"
| step: "sub_reachable s \<Longrightarrow> sub_step s s' \<Longrightarrow> sub_reachable s'"

section \<open>What the sections keep\<close>

lemma section_options [simp]:
  "ss_options (snd (snd (unsubscribe_section chain s))) = ss_options s"
  "ss_options (stop_section drain s) = ss_options s"
  "ss_options (snd (finish_section s)) = ss_options s"
  "ss_options (callback_returned threw elapsed s) = ss_options s"
  by (simp_all add: unsubscribe_section_def stop_section_def finish_section_def callback_returned_def
      finish_counters_def Let_def)

lemma section_active [simp]:
  "ss_active (snd (snd (unsubscribe_section chain s))) = False"
  "ss_active (stop_section drain s) = ss_active s"
  "ss_active (snd (finish_section s)) = ss_active s"
  "ss_active (callback_returned threw elapsed s) = ss_active s"
  by (simp_all add: unsubscribe_section_def stop_section_def finish_section_def callback_returned_def
      finish_counters_def Let_def)

lemma section_in_flight [simp]:
  "ss_in_flight (snd (snd (unsubscribe_section chain s))) = ss_in_flight s"
  "ss_in_flight (stop_section drain s) = ss_in_flight s"
  "ss_in_flight (snd (finish_section s)) = ss_in_flight s - 1"
  "ss_in_flight (callback_returned threw elapsed s) = ss_in_flight s"
  by (simp_all add: unsubscribe_section_def stop_section_def finish_section_def callback_returned_def
      finish_counters_def Let_def)

lemma section_mailbox [simp]:
  "ss_mailbox (snd (snd (unsubscribe_section chain s))) = ss_mailbox s"
  "ss_mailbox (stop_section drain s) = (if drain then ss_mailbox s else [])"
  "ss_mailbox (snd (finish_section s)) = ss_mailbox s"
  "ss_mailbox (callback_returned threw elapsed s) = ss_mailbox s"
  by (simp_all add: unsubscribe_section_def stop_section_def finish_section_def callback_returned_def
      finish_counters_def Let_def)

lemma section_flags [simp]:
  "ss_mailbox_accepting (snd (snd (unsubscribe_section chain s))) = ss_mailbox_accepting s"
  "ss_mailbox_accepting (stop_section drain s) = False"
  "ss_mailbox_accepting (snd (finish_section s)) = ss_mailbox_accepting s"
  "ss_mailbox_accepting (callback_returned threw elapsed s) = ss_mailbox_accepting s"
  "ss_executor_stopping (snd (snd (unsubscribe_section chain s))) = ss_executor_stopping s"
  "ss_executor_stopping (stop_section drain s) = True"
  "ss_executor_stopping (snd (finish_section s)) = ss_executor_stopping s"
  "ss_executor_stopping (callback_returned threw elapsed s) = ss_executor_stopping s"
  "ss_drain_mailbox (snd (snd (unsubscribe_section chain s))) = ss_drain_mailbox s"
  "ss_drain_mailbox (stop_section drain s) = (ss_drain_mailbox s \<and> drain)"
  "ss_drain_mailbox (snd (finish_section s)) = ss_drain_mailbox s"
  "ss_drain_mailbox (callback_returned threw elapsed s) = ss_drain_mailbox s"
  by (simp_all add: unsubscribe_section_def stop_section_def finish_section_def callback_returned_def
      finish_counters_def Let_def)

text \<open>The events that the counters have accounted for.\<close>

definition accounted :: "'e subscriber_state \<Rightarrow> uint64_t" where
  "accounted s = (let m = ss_metrics s in sm_delivered m + sm_dropped m + sm_rejected m)"

lemma section_metrics [simp]:
  "ss_metrics (snd (snd (unsubscribe_section chain s))) = ss_metrics s"
  "ss_metrics (snd (finish_section s)) = ss_metrics s"
  "sm_offered (ss_metrics (stop_section drain s)) = sm_offered (ss_metrics s)"
  "sm_offered (ss_metrics (callback_returned threw elapsed s)) = sm_offered (ss_metrics s)"
  "sm_offered (ss_metrics (count_rejected s)) = sm_offered (ss_metrics s)"
  "sm_offered (ss_metrics (count_dropped n s)) = sm_offered (ss_metrics s)"
  "sm_offered (ss_metrics (count_offered s)) = sm_offered (ss_metrics s) + 1"
  "accounted (stop_section drain s) = accounted s + (if drain then 0 else of_nat (length (ss_mailbox s)))"
  "accounted (callback_returned threw elapsed s) = accounted s + 1"
  "accounted (count_rejected s) = accounted s + 1"
  "accounted (count_dropped n s) = accounted s + n"
  "accounted (count_offered s) = accounted s"
  by (simp_all add: unsubscribe_section_def stop_section_def finish_section_def callback_returned_def
      finish_counters_def count_defs accounted_def Let_def)

lemma begin_invocation_cases:
  "begin_invocation s = (False, s') \<longleftrightarrow> \<not> ss_active s \<and> s' = s"
  "begin_invocation s = (True, s') \<longleftrightarrow> ss_active s \<and> s' = s\<lparr>ss_in_flight := ss_in_flight s + 1\<rparr>"
  by (auto simp: begin_invocation_def)

lemma executor_next_cases:
  "executor_next s = Some (None, s') \<longleftrightarrow>
     s' = s \<and> ss_executor_stopping s \<and> (\<not> ss_drain_mailbox s \<or> ss_mailbox s = [])"
  "executor_next s = Some (Some e, s') \<longleftrightarrow>
     (\<exists>es. ss_mailbox s = e # es \<and> s' = s\<lparr>ss_mailbox := es\<rparr>) \<and> (ss_executor_stopping s \<longrightarrow> ss_drain_mailbox s)"
  by (cases "ss_mailbox s"; auto simp: executor_next_def cv_wait_def split: if_splits)+

text \<open>The outcomes of \<open>enqueue_isolated\<close>: exactly one of the event going to the end of the mailbox,
  a drop, and a rejection.\<close>

lemma enqueue_isolated_cases:
  assumes "enqueue_isolated True c s = Some (r, s')"
  obtains (queued) e where "c = Inr e" "s' = s\<lparr>ss_mailbox := ss_mailbox s @ [e]\<rparr>" "r = Inr True"
      "ss_mailbox_accepting s"
      "of_nat (length (ss_mailbox s)) \<noteq> so_mailbox_capacity (ss_options s)"
  | (dropped) "s' = count_dropped 1 s" "r = Inr True" "so_guarantee (ss_options s) = best_effort"
      "of_nat (length (ss_mailbox s)) = so_mailbox_capacity (ss_options s)"
  | (rejected) "s' = count_rejected s" "r \<noteq> Inr True"
  using assms
  by (cases "so_guarantee (ss_options s)")
    (auto simp: enqueue_isolated_def Let_def cv_wait_def split: if_splits sum.splits)

lemma metrics_update [simp]:
  "accounted (s\<lparr>ss_mailbox := m\<rparr>) = accounted s" "accounted (s\<lparr>ss_in_flight := n\<rparr>) = accounted s"
  "accounted (s\<lparr>ss_executor_joinable := b\<rparr>) = accounted s"
  "accounted (snd (finish_section s)) = accounted s"
  "accounted (snd (snd (unsubscribe_section chain s))) = accounted s"
  by (simp_all add: accounted_def)

section \<open>Invariants\<close>

text \<open>Threads that hold a count of \<open>in_flight_\<close>, and events that were offered and are not yet in a
  counter.\<close>

fun pc_in_flight :: "'e sub_pc \<Rightarrow> nat" where
  "pc_in_flight (Entered_serial e) = 1"
| "pc_in_flight (In_callback e) = 1"
| "pc_in_flight Finishing = 1"
| "pc_in_flight _ = 0"

fun exec_in_flight :: "'e exec_pc \<Rightarrow> nat" where
  "exec_in_flight (Ex_callback e) = 1"
| "exec_in_flight (Ex_self_stop e) = 1"
| "exec_in_flight Ex_finishing = 1"
| "exec_in_flight _ = 0"

fun pc_pending :: "'e sub_pc \<Rightarrow> nat" where
  "pc_pending (Offering e) = 1"
| "pc_pending (Entered_serial e) = 1"
| "pc_pending (In_callback e) = 1"
| "pc_pending _ = 0"

fun exec_pending :: "'e exec_pc \<Rightarrow> nat" where
  "exec_pending (Ex_taken e) = 1"
| "exec_pending (Ex_callback e) = 1"
| "exec_pending (Ex_self_stop e) = 1"
| "exec_pending _ = 0"

definition in_flight_ok :: "'e sub_system \<Rightarrow> bool" where
  "in_flight_ok s = (ss_in_flight (sys_sub s) =
     of_nat (tally pc_in_flight (sys_pcs s)) + of_nat (exec_in_flight (sys_exec s)))"

definition metrics_ok :: "'e sub_system \<Rightarrow> bool" where
  "metrics_ok s = (sm_offered (ss_metrics (sys_sub s)) = accounted (sys_sub s) +
     of_nat (length (ss_mailbox (sys_sub s))) + of_nat (tally pc_pending (sys_pcs s)) +
     of_nat (exec_pending (sys_exec s)))"

text \<open>Which threads exist under which policy, and who owns the two mutexes.\<close>

fun pc_deactivated :: "'e sub_pc \<Rightarrow> bool" where
  "pc_deactivated Unsubscribing = True"
| "pc_deactivated (Stopping w) = w"
| "pc_deactivated (Joining w) = w"
| "pc_deactivated Awaiting_idle = True"
| "pc_deactivated Unsubscribed = True"
| "pc_deactivated _ = False"

fun pc_serial :: "'e sub_pc \<Rightarrow> bool" where
  "pc_serial (In_callback e) = True"
| "pc_serial Finishing = True"
| "pc_serial Releasing = True"
| "pc_serial _ = False"

definition policy_ok :: "'e sub_system \<Rightarrow> bool" where
  "policy_ok s = (case so_delivery (ss_options (sys_sub s)) of
       isolated \<Rightarrow> (\<forall>t < length (sys_pcs s). pc_in_flight (sys_pcs s ! t) = 0 \<and> \<not> pc_serial (sys_pcs s ! t)) \<and>
         sys_exec s \<noteq> Ex_none
     | serialized \<Rightarrow> sys_exec s = Ex_none \<and>
         (\<forall>t < length (sys_pcs s). pc_serial (sys_pcs s ! t) \<longrightarrow> sys_serial_owner s = Some t)
     | concurrent \<Rightarrow> sys_exec s = Ex_none)"

definition deactivated_ok :: "'e sub_system \<Rightarrow> bool" where
  "deactivated_ok s = (\<forall>t < length (sys_pcs s). pc_deactivated (sys_pcs s ! t) \<longrightarrow> \<not> ss_active (sys_sub s))"

definition mailbox_ok :: "'e sub_system \<Rightarrow> bool" where
  "mailbox_ok s = (let u = sys_sub s in
     length (ss_mailbox u) \<le> unat (so_mailbox_capacity (ss_options u)) \<and>
     (\<not> sys_discarded s \<longrightarrow> sys_accepted s = sys_taken s @ ss_mailbox u) \<and>
     (\<not> ss_drain_mailbox u \<longrightarrow> sys_discarded s \<and> ss_mailbox u = [] \<and> \<not> ss_mailbox_accepting u) \<and>
     (sys_exec s = Ex_exited \<longrightarrow> ss_mailbox u = [] \<and> ss_executor_stopping u) \<and>
     (ss_executor_stopping u \<longrightarrow> \<not> ss_mailbox_accepting u))"

definition sub_inv :: "'e sub_system \<Rightarrow> bool" where
  "sub_inv s = (length (sys_pcs s) < 18446744073709551615 \<and> in_flight_ok s \<and> metrics_ok s \<and>
     policy_ok s \<and> deactivated_ok s \<and> mailbox_ok s)"

lemmas step_cases = begin_invocation_cases executor_next_cases

lemma in_flight_step:
  assumes "sub_step s s'" "in_flight_ok s"
  shows "in_flight_ok s'"
  using assms
proof (induction rule: sub_step.induct)
  case (enqueue t s e c x r sub')
  from enqueue(5) show ?case
    by (cases rule: enqueue_isolated_cases)
      (use enqueue in \<open>simp_all add: in_flight_ok_def of_nat_tally_update\<close>)
qed (auto simp: in_flight_ok_def of_nat_tally_update step_cases)

lemma metrics_step:
  assumes "sub_step s s'" "metrics_ok s"
  shows "metrics_ok s'"
  using assms
proof (induction rule: sub_step.induct)
  case (enqueue t s e c x r sub')
  from enqueue(5) show ?case
    by (cases rule: enqueue_isolated_cases)
      (use enqueue in \<open>simp_all add: metrics_ok_def of_nat_tally_update algebra_simps\<close>)
qed (auto simp: metrics_ok_def of_nat_tally_update step_cases algebra_simps)

lemma deactivated_step:
  assumes "sub_step s s'" "deactivated_ok s"
  shows "deactivated_ok s'"
  using assms
proof (induction rule: sub_step.induct)
  case (enqueue t s e c x r sub')
  from enqueue(5) show ?case
    by (cases rule: enqueue_isolated_cases)
      (use enqueue in \<open>auto simp: deactivated_ok_def nth_list_update\<close>)
qed (auto simp: deactivated_ok_def nth_list_update step_cases split: if_splits)

lemma policy_step:
  assumes "sub_step s s'" "policy_ok s"
  shows "policy_ok s'"
  using assms
proof (induction rule: sub_step.induct)
  case (enqueue t s e c x r sub')
  from enqueue(5) show ?case
    by (cases rule: enqueue_isolated_cases)
      (use enqueue in \<open>auto simp: policy_ok_def nth_list_update\<close>)
qed (auto simp: policy_ok_def nth_list_update step_cases split: delivery_policy.splits if_splits,
    (metis option.inject pc_serial.simps(2,3))+)

lemma mailbox_step:
  assumes "sub_step s s'" "mailbox_ok s"
  shows "mailbox_ok s'"
  using assms
proof (induction rule: sub_step.induct)
  case (enqueue t s e c x r sub')
  from enqueue(5) show ?case
  proof (cases rule: enqueue_isolated_cases)
    case (queued e')
    have "length (ss_mailbox (sys_sub s)) \<noteq> unat (so_mailbox_capacity (ss_options (sys_sub s)))"
      using queued(5) by auto
    with enqueue queued show ?thesis by (auto simp: mailbox_ok_def Let_def)
  qed (use enqueue in \<open>auto simp: mailbox_ok_def Let_def\<close>)
qed (auto simp: mailbox_ok_def Let_def step_cases)

lemma sub_start_inv:
  assumes "ss_new True this ident options tag = Inr s" "n < 18446744073709551615"
  shows "sub_inv (sub_start n s)"
  using assms
  by (auto simp: sub_inv_def sub_start_def in_flight_ok_def metrics_ok_def policy_ok_def
      deactivated_ok_def mailbox_ok_def start_executor_def ss_new_def accounted_def zero_metrics_def
      tally_replicate Let_def split: if_splits delivery_policy.splits)

lemma sub_reachable_inv: "sub_reachable s \<Longrightarrow> sub_inv s"
proof (induction rule: sub_reachable.induct)
  case (start this ident options tag s n)
  then show ?case by (rule sub_start_inv)
next
  case (step s s')
  from step(2) have "length (sys_pcs s') = length (sys_pcs s)"
    by (induction rule: sub_step.induct) simp_all
  with step in_flight_step metrics_step policy_step deactivated_step mailbox_step
  show ?case unfolding sub_inv_def by metis
qed

section \<open>Example runs\<close>

definition example_subscriber :: "delivery_policy \<Rightarrow> delivery_guarantee \<Rightarrow> nat subscriber_state" where
  "example_subscriber d g = \<lparr>ss_this = 0, ss_id = 1, ss_options = \<lparr>so_delivery = d, so_guarantee = g,
       so_mailbox_capacity = 2, so_slow_callback_threshold = 0\<rparr>, ss_owner_tag = 0,
     ss_retire = True, ss_in_flight = 0, ss_active = True, ss_retirement_started = False,
     ss_mailbox = [], ss_mailbox_accepting = True, ss_executor_stopping = False,
     ss_drain_mailbox = True, ss_executor_joinable = False, ss_metrics = zero_metrics\<rparr>"

definition example_system :: "delivery_policy \<Rightarrow> delivery_guarantee \<Rightarrow> nat sub_system" where
  "example_system d g = sub_start 1 (example_subscriber d g)"

lemma example_start: "sub_reachable (example_system d g)"
  unfolding example_system_def
  by (rule sub_reachable.start [of 0 1 "\<lparr>so_delivery = d, so_guarantee = g, so_mailbox_capacity = 2,
        so_slow_callback_threshold = 0\<rparr>" 0]) (simp_all add: ss_new_def example_subscriber_def)

lemma example_start_fields:
  "sys_pcs (example_system d g) = [Sub_idle]"
  "sys_exec (example_system d g) = (if d = isolated then Ex_wait else Ex_none)"
  "sys_join_owner (example_system d g) = None"
  "sys_serial_owner (example_system d g) = None"
  "sys_discarded (example_system d g) = False"
  "ss_options (sys_sub (example_system d g)) = ss_options (example_subscriber d g)"
  "ss_active (sys_sub (example_system d g))"
  "ss_mailbox (sys_sub (example_system d g)) = []"
  "ss_mailbox_accepting (sys_sub (example_system d g))"
  "ss_executor_stopping (sys_sub (example_system d g)) = False"
  "ss_in_flight (sys_sub (example_system d g)) = 0"
  "sys_accepted (example_system d g) = []"
  by (simp_all add: example_system_def sub_start_def start_executor_def example_subscriber_def)

lemma example_options [simp]:
  "so_delivery (ss_options (example_subscriber d g)) = d"
  "so_guarantee (ss_options (example_subscriber d g)) = g"
  "so_mailbox_capacity (ss_options (example_subscriber d g)) = 2"
  by (simp_all add: example_subscriber_def)

text \<open>A single thread that unsubscribes a concurrent subscriber.\<close>

lemma example_unsubscribed: "\<exists>s :: nat sub_system. sub_reachable s \<and> Unsubscribed \<in> set (sys_pcs s)"
proof -
  let ?s0 = "example_system concurrent best_effort"
  note f = example_start_fields [of concurrent best_effort]
  define s1 where "s1 = ?s0\<lparr>sys_sub := outside_section (sys_sub ?s0), sys_pcs := [Unsubscribing]\<rparr>"
  have "sub_reachable s1"
    using sub_reachable.step [OF example_start sub_step.unsubscribe [of 0 ?s0]] by (simp add: s1_def f)
  then have "sub_reachable (s1\<lparr>sys_pcs := [Awaiting_idle]\<rparr>)"
    using sub_reachable.step [OF _ sub_step.unsubscribe_direct [of 0 s1]] by (simp add: s1_def f)
  then have "sub_reachable (s1\<lparr>sys_pcs := [Unsubscribed]\<rparr>)"
    using sub_reachable.step [OF _ sub_step.idle_reached [of 0 "s1\<lparr>sys_pcs := [Awaiting_idle]\<rparr>"]]
    by (simp add: s1_def f)
  then show ?thesis by (intro exI [of _ "s1\<lparr>sys_pcs := [Unsubscribed]\<rparr>"]) simp
qed

text \<open>A single thread inside the callback of a serialized subscriber.\<close>

lemma example_serialized:
  "\<exists>s :: nat sub_system. sub_reachable s \<and> so_delivery (ss_options (sys_sub s)) = serialized \<and>
     sys_pcs s = [In_callback 7]"
proof -
  let ?s0 = "example_system serialized best_effort"
  note f = example_start_fields [of serialized best_effort]
  define s1 where "s1 = ?s0\<lparr>sys_sub := count_offered (sys_sub ?s0), sys_pcs := [Offering 7]\<rparr>"
  have 1: "sub_reachable s1"
    using sub_reachable.step [OF example_start sub_step.offer [of 0 ?s0]] by (simp add: s1_def f)
  define s2 where "s2 = s1\<lparr>sys_sub := (sys_sub s1)\<lparr>ss_in_flight := ss_in_flight (sys_sub s1) + 1\<rparr>,
    sys_pcs := [Entered_serial 7]\<rparr>"
  have "sub_reachable s2"
    using sub_reachable.step [OF 1 sub_step.enter_serial [of 0 s1 7]]
    by (simp add: s1_def s2_def f step_cases)
  then have "sub_reachable (s2\<lparr>sys_pcs := [In_callback 7], sys_serial_owner := Some 0\<rparr>)"
    using sub_reachable.step [OF _ sub_step.acquire_serial [of 0 s2 7]] by (simp add: s1_def s2_def f)
  then show ?thesis
    by (intro exI [of _ "s2\<lparr>sys_pcs := [In_callback 7], sys_serial_owner := Some 0\<rparr>"])
      (simp add: s1_def s2_def f)
qed

text \<open>An isolated subscriber that has accepted one event, which its executor delivers.\<close>

lemma example_executor:
  "\<exists>s :: nat sub_system. sub_reachable s \<and> is_isolated (sys_sub s) \<and> sys_pcs s = [Sub_idle] \<and>
     sys_exec s = Ex_callback 7 \<and> sys_join_owner s = None \<and> sys_accepted s = [7]"
proof -
  let ?s0 = "example_system isolated best_effort"
  note f = example_start_fields [of isolated best_effort]
  define s1 where "s1 = ?s0\<lparr>sys_sub := count_offered (sys_sub ?s0), sys_pcs := [Offering 7]\<rparr>"
  have 1: "sub_reachable s1"
    using sub_reachable.step [OF example_start sub_step.offer [of 0 ?s0]] by (simp add: s1_def f)
  define s2 where "s2 = s1\<lparr>sys_sub := (sys_sub s1)\<lparr>ss_mailbox := [7]\<rparr>, sys_pcs := [Sub_idle],
    sys_accepted := [7]\<rparr>"
  have "enqueue_isolated True (Inr 7) (sys_sub s1) = Some (Inr True, sys_sub s2)"
    by (simp add: enqueue_isolated_def Let_def s1_def s2_def f)
  from sub_reachable.step [OF 1 sub_step.enqueue [of 0 s1 7, OF _ _ _ _ this]]
  have 2: "sub_reachable s2" by (simp add: s1_def s2_def f)
  define s3 where "s3 = s2\<lparr>sys_sub := (sys_sub s2)\<lparr>ss_mailbox := []\<rparr>, sys_exec := Ex_taken 7,
    sys_taken := sys_taken s2 @ [7]\<rparr>"
  have 3: "sub_reachable s3"
    using sub_reachable.step [OF 2 sub_step.executor_take [of s2 7]]
    by (simp add: s1_def s2_def s3_def f step_cases)
  define s4 where "s4 = s3\<lparr>sys_sub := (sys_sub s3)\<lparr>ss_in_flight := ss_in_flight (sys_sub s3) + 1\<rparr>,
    sys_exec := Ex_callback 7\<rparr>"
  have "sub_reachable s4"
    using sub_reachable.step [OF 3 sub_step.executor_enter [of s3 7]]
    by (simp add: s1_def s2_def s3_def s4_def f step_cases)
  then show ?thesis by (intro exI [of _ s4]) (simp add: s1_def s2_def s3_def s4_def f)
qed

section \<open>Synchronous unsubscription\<close>

definition callbacks_in_flight :: "'e sub_system \<Rightarrow> nat" where
  "callbacks_in_flight s = tally pc_in_flight (sys_pcs s) + exec_in_flight (sys_exec s)"

lemma exec_in_flight_le: "exec_in_flight x \<le> 1"
  by (cases x) simp_all

lemma pc_in_flight_le: "pc_in_flight x \<le> 1"
  by (cases x) simp_all

lemma in_flight_zero:
  assumes "sub_inv s" "ss_in_flight (sys_sub s) = 0"
  shows "callbacks_in_flight s = 0"
proof -
  have "callbacks_in_flight s < 18446744073709551616"
    using assms(1) tally_le [of pc_in_flight "sys_pcs s", OF pc_in_flight_le]
      exec_in_flight_le [of "sys_exec s"]
    by (simp add: sub_inv_def callbacks_in_flight_def)
  moreover have "(of_nat (callbacks_in_flight s) :: size_t) = 0"
    using assms by (simp add: sub_inv_def in_flight_ok_def callbacks_in_flight_def)
  ultimately show ?thesis using unat_of_nat_small by (metis unat_0)
qed

definition quiet_ok :: "'e sub_system \<Rightarrow> bool" where
  "quiet_ok s = (Unsubscribed \<in> set (sys_pcs s) \<longrightarrow> callbacks_in_flight s = 0)"

lemma unsubscribed_inactive:
  "deactivated_ok s \<Longrightarrow> Unsubscribed \<in> set (sys_pcs s) \<Longrightarrow> \<not> ss_active (sys_sub s)"
  by (auto simp: deactivated_ok_def in_set_conv_nth)

text \<open>A thread leaves the in-flight count or enters it; no other step changes it, and entering
  needs an active subscriber.\<close>

lemma callbacks_in_flight_step:
  assumes "sub_step s s'"
  shows "callbacks_in_flight s' \<le> callbacks_in_flight s \<or> ss_active (sys_sub s)"
  using assms
  by (induction rule: sub_step.induct)
    (auto simp: callbacks_in_flight_def step_cases
      intro!: tally_update_le order_trans [OF add_right_mono [OF tally_update_le]])

lemma quiet_step:
  assumes "sub_step s s'" "sub_inv s" "quiet_ok s"
  shows "quiet_ok s'"
proof (cases "Unsubscribed \<in> set (sys_pcs s)")
  case True
  then have "callbacks_in_flight s = 0" "\<not> ss_active (sys_sub s)"
    using assms(2,3) unsubscribed_inactive by (auto simp: quiet_ok_def sub_inv_def)
  with callbacks_in_flight_step [OF assms(1)] show ?thesis by (simp add: quiet_ok_def)
next
  case False
  from assms(1) show ?thesis
  proof (cases rule: sub_step.cases)
    case (idle_reached t)
    then have "callbacks_in_flight s = 0" using in_flight_zero assms(2) by blast
    with callbacks_in_flight_step [OF assms(1)] idle_reached assms(2) show ?thesis
      by (auto simp: quiet_ok_def sub_inv_def deactivated_ok_def)
  qed (use False in \<open>auto simp: quiet_ok_def dest!: set_update_subset_insert [THEN subsetD] split: if_splits\<close>)
qed

lemma sub_reachable_quiet: "sub_reachable s \<Longrightarrow> quiet_ok s"
proof (induction rule: sub_reachable.induct)
  case (start this ident options tag s n)
  then show ?case by (simp add: quiet_ok_def sub_start_def)
next
  case (step s s')
  then show ?case using quiet_step sub_reachable_inv by blast
qed

text \<open>
  Property C3. Unsubscription is synchronous: in every state that can be reached, under every
  delivery policy and any interleaving of workers, executor, shutdown and unsubscribing threads,
  once a call of \<open>unsubscribe\<close> from outside the callback has returned, the subscriber is inactive
  and neither a worker nor the executor is inside its callback, or on the way into it.
\<close>

theorem sub_unsubscribe_synchronous:
  assumes "sub_reachable s" "Unsubscribed \<in> set (sys_pcs s)"
  shows "\<not> ss_active (sys_sub s) \<and> callbacks_in_flight s = 0 \<and> In_callback e \<notin> set (sys_pcs s) \<and>
    Entered_serial e \<notin> set (sys_pcs s) \<and> sys_exec s \<noteq> Ex_callback e"
proof -
  have zero: "callbacks_in_flight s = 0"
    using sub_reachable_quiet [OF assms(1)] assms(2) by (simp add: quiet_ok_def)
  then have "pc_in_flight p = 0" if "p \<in> set (sys_pcs s)" for p
    using that tally_zero [of pc_in_flight "sys_pcs s"] by (simp add: callbacks_in_flight_def)
  then have "In_callback e \<notin> set (sys_pcs s)" "Entered_serial e \<notin> set (sys_pcs s)" by fastforce+
  with zero unsubscribed_inactive assms sub_reachable_inv [OF assms(1)] show ?thesis
    by (auto simp: sub_inv_def callbacks_in_flight_def)
qed

theorem sub_unsubscribe_synchronous_witness:
  "\<exists>s :: nat sub_system. sub_reachable s \<and> Unsubscribed \<in> set (sys_pcs s) \<and> callbacks_in_flight s = 0"
proof -
  from example_unsubscribed obtain s :: "nat sub_system" where s: "sub_reachable s" "Unsubscribed \<in> set (sys_pcs s)" by blast
  with sub_unsubscribe_synchronous [OF s] show ?thesis by blast
qed

section \<open>Mutual exclusion\<close>

text \<open>
  Property C27. Callbacks of a serialized subscriber never overlap: two threads inside its callback
  are the same thread.
\<close>

theorem sub_serialized_exclusion:
  assumes "sub_reachable s" "so_delivery (ss_options (sys_sub s)) = serialized"
    and "t < length (sys_pcs s)" "u < length (sys_pcs s)"
    and "sys_pcs s ! t = In_callback e" "sys_pcs s ! u = In_callback e'"
  shows "t = u"
proof -
  have owner: "pc_serial (sys_pcs s ! v) \<Longrightarrow> v < length (sys_pcs s) \<Longrightarrow> sys_serial_owner s = Some v" for v
    using sub_reachable_inv [OF assms(1)] assms(2) by (simp add: sub_inv_def policy_ok_def)
  from owner [of t] owner [of u] assms(3-) show ?thesis by simp
qed

theorem sub_serialized_exclusion_witness:
  "\<exists>s :: nat sub_system. sub_reachable s \<and> so_delivery (ss_options (sys_sub s)) = serialized \<and>
     sys_pcs s = [In_callback 7] \<and> (0 :: nat) = 0"
proof -
  obtain s :: "nat sub_system" where s: "sub_reachable s" "so_delivery (ss_options (sys_sub s)) = serialized"
    "sys_pcs s = [In_callback 7]"
    using example_serialized by blast
  have "(0 :: nat) = 0" by (rule sub_serialized_exclusion [OF s(1,2)]) (simp_all add: s(3))
  with s show ?thesis by blast
qed

text \<open>
  The callback of an isolated subscriber runs on its executor only: no thread that
  offers an event is ever inside it.
\<close>

lemma sub_isolated_on_executor:
  assumes "sub_reachable s" "is_isolated (sys_sub s)"
  shows "In_callback e \<notin> set (sys_pcs s)"
  using sub_reachable_inv [OF assms(1)] assms(2)
  by (fastforce simp: sub_inv_def policy_ok_def in_set_conv_nth)

section \<open>Counters and mailbox\<close>

text \<open>
  Property C25. The counters balance, modulo the wrap-around of 64-bit counters, in every state that
  can be reached: the offered events are the delivered, dropped and rejected ones, the ones in the
  mailbox and the ones some thread is just handling. When nothing is pending, offered is exactly
  the sum of delivered, dropped and rejected.
\<close>

theorem sub_metrics_balance:
  assumes "sub_reachable s"
  shows "sm_offered (ss_metrics (sys_sub s)) =
      sm_delivered (ss_metrics (sys_sub s)) + sm_dropped (ss_metrics (sys_sub s)) +
      sm_rejected (ss_metrics (sys_sub s)) +
      of_nat (length (ss_mailbox (sys_sub s)) + tally pc_pending (sys_pcs s) + exec_pending (sys_exec s))"
  using sub_reachable_inv [OF assms] by (simp add: sub_inv_def metrics_ok_def accounted_def Let_def)

theorem sub_metrics_balance_witness:
  "\<exists>s :: nat sub_system. sub_reachable s \<and> sys_exec s = Ex_callback 7 \<and>
     sm_offered (ss_metrics (sys_sub s)) =
      sm_delivered (ss_metrics (sys_sub s)) + sm_dropped (ss_metrics (sys_sub s)) +
      sm_rejected (ss_metrics (sys_sub s)) +
      of_nat (length (ss_mailbox (sys_sub s)) + tally pc_pending (sys_pcs s) + exec_pending (sys_exec s))"
proof -
  from example_executor obtain s :: "nat sub_system" where s: "sub_reachable s" "is_isolated (sys_sub s)"
    "sys_exec s = Ex_callback 7" "sys_accepted s = [7]" by blast
  with sub_metrics_balance [OF s(1)] show ?thesis by blast
qed

text \<open>
  Property C26. The mailbox of an isolated subscriber never exceeds its capacity, and as long as no
  stop discarded entries it is FIFO and loses nothing: the accepted events are those the executor
  took, in the same order, followed by those in the mailbox. Once the executor has left its loop,
  which is what a draining \<open>stop_delivery\<close> waits for, it has taken every accepted event.
\<close>

theorem sub_mailbox_fifo_drained:
  assumes "sub_reachable s"
  shows "length (ss_mailbox (sys_sub s)) \<le> unat (so_mailbox_capacity (ss_options (sys_sub s))) \<and>
    (\<not> sys_discarded s \<longrightarrow> sys_accepted s = sys_taken s @ ss_mailbox (sys_sub s)) \<and>
    (sys_exec s = Ex_exited \<and> \<not> sys_discarded s \<longrightarrow> sys_taken s = sys_accepted s)"
  using sub_reachable_inv [OF assms] by (auto simp: sub_inv_def mailbox_ok_def Let_def)

theorem sub_mailbox_fifo_drained_witness:
  "\<exists>s :: nat sub_system. sub_reachable s \<and> sys_accepted s = [7] \<and>
     length (ss_mailbox (sys_sub s)) \<le> unat (so_mailbox_capacity (ss_options (sys_sub s)))"
proof -
  from example_executor obtain s :: "nat sub_system" where s: "sub_reachable s" "is_isolated (sys_sub s)"
    "sys_exec s = Ex_callback 7" "sys_accepted s = [7]" by blast
  with sub_mailbox_fifo_drained [OF s(1)] show ?thesis by blast
qed

definition lossless_ok :: "'e sub_system \<Rightarrow> bool" where
  "lossless_ok s = (so_guarantee (ss_options (sys_sub s)) = lossless \<and> ss_active (sys_sub s) \<and>
     \<not> sys_discarded s \<longrightarrow> sm_dropped (ss_metrics (sys_sub s)) = 0)"

lemma dropped_fields [simp]:
  "sm_dropped (ss_metrics (count_offered s)) = sm_dropped (ss_metrics s)"
  "sm_dropped (ss_metrics (count_rejected s)) = sm_dropped (ss_metrics s)"
  "sm_dropped (ss_metrics (callback_returned threw elapsed s)) = sm_dropped (ss_metrics s)"
  "sm_dropped (ss_metrics (stop_section True s)) = sm_dropped (ss_metrics s)"
  by (simp_all add: count_defs callback_returned_def finish_counters_def stop_section_def Let_def)

lemma lossless_step:
  assumes "sub_step s s'" "lossless_ok s"
  shows "lossless_ok s'"
  using assms
proof (induction rule: sub_step.induct)
  case (enqueue t s e c x r sub')
  from enqueue(5) show ?case
    by (cases rule: enqueue_isolated_cases) (use enqueue in \<open>auto simp: lossless_ok_def\<close>)
qed (auto simp: lossless_ok_def step_cases)

text \<open>
  Property C28. A lossless subscriber drops nothing while it is active and no shutdown has
  discarded its mailbox: its dropped counter is zero in every such reachable state.
\<close>

theorem sub_lossless_drops_nothing:
  assumes "sub_reachable s" "so_guarantee (ss_options (sys_sub s)) = lossless"
    and "ss_active (sys_sub s)" "\<not> sys_discarded s"
  shows "sm_dropped (ss_metrics (sys_sub s)) = 0"
proof -
  from assms(1) have "lossless_ok s"
  proof (induction rule: sub_reachable.induct)
    case (start this ident options tag s n)
    then show ?case
      by (auto simp: lossless_ok_def sub_start_def start_executor_def ss_new_def zero_metrics_def
          split: if_splits)
  next
    case (step s s')
    then show ?case using lossless_step by blast
  qed
  with assms(2-) show ?thesis by (simp add: lossless_ok_def)
qed

theorem sub_lossless_drops_nothing_witness:
  "sm_dropped (ss_metrics (sys_sub (example_system isolated lossless))) = 0"
  by (rule sub_lossless_drops_nothing [OF example_start]) (simp_all only: example_start_fields example_options simp_thms)

section \<open>Two concurrent deactivations of an isolated subscriber\<close>

text \<open>A thread holds the join mutex while it joins the executor; the executor is inside its callback,
  in a nested \<open>unsubscribe\<close> that wants the same mutex before it can find out that it is the
  executor.\<close>

definition join_deadlock :: "'e sub_system \<Rightarrow> bool" where
  "join_deadlock s = (\<exists>t e w. t < length (sys_pcs s) \<and> sys_pcs s ! t = Joining w \<and>
     sys_join_owner s = Some t \<and> sys_exec s = Ex_self_stop e)"

definition sub_always :: "('e sub_system \<Rightarrow> bool) \<Rightarrow> 'e sub_system \<Rightarrow> bool" where
  "sub_always P s = (\<forall>s'. sub_step\<^sup>*\<^sup>* s s' \<longrightarrow> P s')"

lemma join_deadlock_step:
  assumes "sub_step s s'" "join_deadlock s"
  shows "join_deadlock s'"
proof -
  from assms(2) obtain t e w where d: "t < length (sys_pcs s)" "sys_pcs s ! t = Joining w"
    "sys_join_owner s = Some t" "sys_exec s = Ex_self_stop e" by (auto simp: join_deadlock_def)
  have "t < length (sys_pcs s') \<and> sys_pcs s' ! t = Joining w \<and> sys_join_owner s' = Some t \<and>
      sys_exec s' = Ex_self_stop e"
    using assms(1) d
    by (induction rule: sub_step.induct) (auto simp: nth_list_update)
  then show ?thesis by (auto simp: join_deadlock_def)
qed

lemma join_deadlock_always: "join_deadlock s \<Longrightarrow> sub_always join_deadlock s"
  unfolding sub_always_def
proof (intro allI impI)
  fix s' assume "join_deadlock s" "sub_step\<^sup>*\<^sup>* s s'"
  from this(2,1) show "join_deadlock s'"
    by (induction rule: rtranclp_induct) (auto intro: join_deadlock_step)
qed

text \<open>
  Property C38. \<open>stop_delivery\<close> can deadlock: there is a reachable state in which a thread waits in
  \<open>executor_.join()\<close> while it holds the join mutex, and the executor, inside its callback, waits for
  that mutex in its own \<open>unsubscribe\<close>; whatever the other threads do, this never ends.
\<close>

theorem sub_join_deadlock_reachable:
  "\<exists>s :: nat sub_system. sub_reachable s \<and> sub_always join_deadlock s"
proof -
  obtain s0 :: "nat sub_system" where s0: "sub_reachable s0" "is_isolated (sys_sub s0)"
    "sys_pcs s0 = [Sub_idle]" "sys_exec s0 = Ex_callback 7" "sys_join_owner s0 = None"
    using example_executor by blast
  define s1 where "s1 = s0\<lparr>sys_sub := outside_section (sys_sub s0), sys_pcs := [Unsubscribing]\<rparr>"
  have 1: "sub_reachable s1"
    using sub_reachable.step [OF s0(1) sub_step.unsubscribe [of 0 s0]] by (simp add: s1_def s0)
  define s2 where "s2 = s1\<lparr>sys_sub := stop_section False (sys_sub s1), sys_pcs := [Stopping True],
    sys_discarded := True\<rparr>"
  have 2: "sub_reachable s2"
    using sub_reachable.step [OF 1 sub_step.unsubscribe_stop [of 0 s1]] by (simp add: s1_def s2_def s0)
  define s3 where "s3 = s2\<lparr>sys_pcs := [Joining True], sys_join_owner := Some 0\<rparr>"
  have 3: "sub_reachable s3"
    using sub_reachable.step [OF 2 sub_step.join_lock [of 0 s2 True]]
    by (simp add: s1_def s2_def s3_def s0)
  define s4 where "s4 = s3\<lparr>sys_sub := stop_section False (inside_section (sys_sub s3)),
    sys_exec := Ex_self_stop 7, sys_discarded := True\<rparr>"
  have 4: "sub_reachable s4"
    using sub_reachable.step [OF 3 sub_step.executor_self_unsubscribe [of s3 7]]
    by (simp add: s1_def s2_def s3_def s4_def s0)
  have "join_deadlock s4" by (auto simp: join_deadlock_def s4_def s3_def)
  with 4 join_deadlock_always show ?thesis by blast
qed

end
