(* ===== verification/Registry.thy ===== *)
theory Registry
  imports Subscriber
begin

text \<open>
  \<open>snapshot_registry\<close> (\<open>registry/snapshot_registry.hpp\<close>): the copy-on-write list of subscribers. A
  shared pointer is an address into a heap of subscriber states; a snapshot is a list of addresses,
  which no operation changes in place. The retirement callback that a subscriber got at registration is the call of
  \<open>retire\<close> with its identifier.

  Each operation is one function: calls run one after another, and no allocation fails. So an
  unsubscription leaves no inactive entry in the list here, and the tests of \<open>subscribed()\<close> in \<open>subscribe\<close>, \<open>retire\<close> and
  \<open>active_count\<close> find nothing to skip. \<open>Registry_Threads\<close> has the calls in their separate critical sections, interleaved,
  with failing allocations.

  What the application supplies is a parameter: the callbacks, by address of the subscriber, and
  the time they take. The run is that of one thread at a time, so a joined executor runs to the end
  of its loop; concurrent use of one subscriber is the subject of \<open>Subscriber_Threads\<close>.
\<close>

section \<open>State and operations\<close>

type_synonym 'e callbacks = "nat \<Rightarrow> invocation_context list \<Rightarrow> 'e \<Rightarrow> exn option"

record 'e registry_core =
  rg_current :: "nat list"
  rg_next_id :: uint64_t
  rg_heap :: "nat \<rightharpoonup> 'e subscriber_state"
  rg_this :: nat

definition rg_new :: "nat \<Rightarrow> 'e registry_core" where
  "rg_new this = \<lparr>rg_current = [], rg_next_id = 1, rg_heap = Map.empty, rg_this = this\<rparr>"

definition subscribed_at :: "'e registry_core \<Rightarrow> nat \<Rightarrow> bool" where
  "subscribed_at r p = (case rg_heap r p of None \<Rightarrow> False | Some s \<Rightarrow> ss_active s)"

definition acquire_snapshot :: "'e registry_core \<Rightarrow> nat list" where
  "acquire_snapshot r = rg_current r"

definition active_count :: "'e registry_core \<Rightarrow> size_t" where
  "active_count r = of_nat (length (filter (subscribed_at r) (acquire_snapshot r)))"

definition allocate_id :: "'e registry_core \<Rightarrow> exn + (uint64_t \<times> 'e registry_core)" where
  "allocate_id r =
     (if rg_next_id r = - 1 then Inl (Overflow_error ''snapshot_registry subscriber id exhausted'')
      else Inr (rg_next_id r, r\<lparr>rg_next_id := rg_next_id r + 1\<rparr>))"

text \<open>\<open>addr\<close> is the address the new state is allocated at. An exception of the state's constructor
  leaves the list as it was, but the identifier is used up.\<close>

definition core_subscribe ::
  "bool \<Rightarrow> subscription_options \<Rightarrow> nat \<Rightarrow> 'e registry_core \<Rightarrow> (exn + nat) \<times> 'e registry_core" where
  "core_subscribe copyable options addr r = (case allocate_id r of
       Inl x \<Rightarrow> (Inl x, r)
     | Inr (ident, r1) \<Rightarrow> (case ss_new copyable addr ident options (rg_this r1) of
           Inl x \<Rightarrow> (Inl x, r1)
         | Inr s \<Rightarrow>
             (let next = filter (subscribed_at r1) (rg_current r1) @ [addr];
                  s1 = start_executor s
              in (Inr addr, r1\<lparr>rg_heap := (rg_heap r1)(addr \<mapsto> s1), rg_current := next\<rparr>))))"

definition rg_subscribe ::
  "bool \<Rightarrow> bool \<Rightarrow> subscription_options \<Rightarrow> nat \<Rightarrow> 'e registry_core \<Rightarrow> (exn + nat) \<times> 'e registry_core" where
  "rg_subscribe copyable callback_set options addr r =
     (if \<not> callback_set then (Inl (Invalid_argument ''snapshot_registry callback must not be empty''), r)
      else core_subscribe copyable options addr r)"

definition id_at :: "'e registry_core \<Rightarrow> nat \<Rightarrow> uint64_t" where
  "id_at r p = (case rg_heap r p of None \<Rightarrow> 0 | Some s \<Rightarrow> ss_id s)"

definition retire :: "uint64_t \<Rightarrow> 'e registry_core \<Rightarrow> 'e registry_core" where
  "retire ident r =
     (if \<not> list_ex (\<lambda>p. id_at r p = ident) (rg_current r) then r
      else r\<lparr>rg_current := filter (\<lambda>p. id_at r p \<noteq> ident \<and> subscribed_at r p) (rg_current r)\<rparr>)"

text \<open>\<open>unsubscribe\<close> of the subscriber at an address, with its retirement callback, by a thread whose
  chain of active callbacks is \<open>chain\<close>; inside its own callback an isolated subscriber is on its
  executor.\<close>

definition rg_unsubscribe ::
  "'e callbacks \<Rightarrow> int \<Rightarrow> invocation_context list \<Rightarrow> nat \<Rightarrow> 'e registry_core \<Rightarrow> 'e registry_core option" where
  "rg_unsubscribe callbacks elapsed chain p r = (case rg_heap r p of
       None \<Rightarrow> None
     | Some s \<Rightarrow> (case unsubscribe_section chain s of (run_retire, inside, s1) \<Rightarrow>
         (let r1 = r\<lparr>rg_heap := (rg_heap r)(p \<mapsto> s1)\<rparr>;
              r2 = (if run_retire then retire (ss_id s) r1 else r1)
          in case stop_delivery (callbacks p) elapsed inside False s1 of
               None \<Rightarrow> None
             | Some s2 \<Rightarrow> (case await_idle inside s2 of
                   None \<Rightarrow> None
                 | Some s3 \<Rightarrow> Some (r2\<lparr>rg_heap := (rg_heap r2)(p \<mapsto> s3)\<rparr>)))))"

text \<open>\<open>stop_delivery\<close> of every subscriber in the current snapshot, and one delivery.\<close>

fun stop_snapshot ::
  "'e callbacks \<Rightarrow> int \<Rightarrow> bool \<Rightarrow> nat list \<Rightarrow> 'e registry_core \<Rightarrow> 'e registry_core option" where
  "stop_snapshot callbacks elapsed drain [] r = Some r"
| "stop_snapshot callbacks elapsed drain (p # ps) r = (case rg_heap r p of
     None \<Rightarrow> None
   | Some s \<Rightarrow> (case stop_delivery (callbacks p) elapsed False drain s of
       None \<Rightarrow> None
     | Some s' \<Rightarrow> stop_snapshot callbacks elapsed drain ps (r\<lparr>rg_heap := (rg_heap r)(p \<mapsto> s')\<rparr>)))"

definition rg_stop_delivery ::
  "'e callbacks \<Rightarrow> int \<Rightarrow> bool \<Rightarrow> 'e registry_core \<Rightarrow> 'e registry_core option" where
  "rg_stop_delivery callbacks elapsed drain r =
     stop_snapshot callbacks elapsed drain (acquire_snapshot r) r"

text \<open>The destructor of the registry discards what is pending.\<close>

definition rg_destroy :: "'e callbacks \<Rightarrow> int \<Rightarrow> 'e registry_core \<Rightarrow> 'e registry_core option" where
  "rg_destroy callbacks elapsed r = rg_stop_delivery callbacks elapsed False r"

definition deliver_to ::
  "bool \<Rightarrow> 'e callbacks \<Rightarrow> int \<Rightarrow> invocation_context list \<Rightarrow> 'e \<Rightarrow> exn + 'e \<Rightarrow> nat \<Rightarrow> 'e registry_core \<Rightarrow>
   ((exn + bool) \<times> 'e registry_core) option" where
  "deliver_to copyable callbacks elapsed chain event c p r = (case rg_heap r p of
       None \<Rightarrow> None
     | Some s \<Rightarrow> (case try_invoke copyable (callbacks p) elapsed chain event c s of
           None \<Rightarrow> None
         | Some (res, s') \<Rightarrow> Some (res, r\<lparr>rg_heap := (rg_heap r)(p \<mapsto> s')\<rparr>)))"

definition callback_active_on_this_thread :: "'e registry_core \<Rightarrow> invocation_context list \<Rightarrow> bool" where
  "callback_active_on_this_thread r chain = callback_active_for (rg_this r) chain"

section \<open>The invariant\<close>

text \<open>
  A subscriber in the heap knows its address, has an identifier below the next one that no other
  has, is active exactly until its retirement started, and has no callback in flight between
  calls. The list holds exactly the active subscribers.
\<close>

definition subscriber_ok :: "'e registry_core \<Rightarrow> nat \<Rightarrow> 'e subscriber_state \<Rightarrow> bool" where
  "subscriber_ok r p s = (ss_this s = p \<and> ss_id s \<noteq> 0 \<and> ss_id s < rg_next_id r \<and> ss_in_flight s = 0 \<and>
     ss_active s = (\<not> ss_retirement_started s) \<and> (ss_active s \<longrightarrow> ss_retire s))"

definition rg_inv :: "'e registry_core \<Rightarrow> bool" where
  "rg_inv r = (distinct (rg_current r) \<and> set (rg_current r) = {p. subscribed_at r p} \<and>
     rg_next_id r \<noteq> 0 \<and> (\<forall>p s. rg_heap r p = Some s \<longrightarrow> subscriber_ok r p s) \<and>
     (\<forall>p q s s'. rg_heap r p = Some s \<longrightarrow> rg_heap r q = Some s' \<longrightarrow> ss_id s = ss_id s' \<longrightarrow> p = q))"

text \<open>The fields of a subscriber that membership depends on.\<close>

definition same_identity :: "'e subscriber_state \<Rightarrow> 'e subscriber_state \<Rightarrow> bool" where
  "same_identity s s' = (ss_this s' = ss_this s \<and> ss_id s' = ss_id s \<and> ss_in_flight s' = ss_in_flight s \<and>
     ss_active s' = ss_active s \<and> ss_retirement_started s' = ss_retirement_started s \<and>
     ss_retire s' = ss_retire s)"

lemma same_identity_trans: "same_identity s s' \<Longrightarrow> same_identity s' s'' \<Longrightarrow> same_identity s s''"
  by (simp add: same_identity_def)

lemma same_identity_count [simp]:
  "same_identity s (count_offered s)" "same_identity s (count_rejected s)"
  "same_identity s (count_dropped n s)" "same_identity s (s\<lparr>ss_mailbox := m\<rparr>)"
  "same_identity s (s\<lparr>ss_executor_joinable := b\<rparr>)" "same_identity s s"
  "same_identity s (stop_section drain s)"
  by (simp_all add: same_identity_def count_defs stop_section_def Let_def)

lemma same_identity_execute:
  assumes "execute_callback callback elapsed chain e (s\<lparr>ss_in_flight := ss_in_flight s + 1\<rparr>) = (x, s')"
  shows "same_identity s s'"
  using assms
  by (auto simp: same_identity_def execute_callback_def invoke_callback_def finish_section_def
      finish_counters_def count_defs Let_def split: option.splits if_splits)

lemma same_identity_deliver: "same_identity s (executor_deliver callback elapsed e s)"
  by (cases "execute_callback callback elapsed [] e (s\<lparr>ss_in_flight := ss_in_flight s + 1\<rparr>)")
    (auto simp: executor_deliver_def begin_invocation_def dest: same_identity_execute)

lemma same_identity_executor_next:
  "executor_next s = Some (x, s') \<Longrightarrow> same_identity s s'"
  by (auto simp: executor_next_def cv_wait_def same_identity_def split: if_splits)

lemma same_identity_executor_loop:
  "executor_loop callback elapsed s = Some s' \<Longrightarrow> same_identity s s'"
proof (induction callback elapsed s rule: executor_loop.induct)
  case (1 callback elapsed s)
  have "executor_next s \<noteq> None"
  proof
    assume "executor_next s = None"
    then have "executor_loop callback elapsed s = None" by (subst executor_loop.simps) simp
    with "1.prems" show False by simp
  qed
  then obtain x s1 where nx: "executor_next s = Some (x, s1)" by (metis not_None_eq surj_pair)
  note id1 = same_identity_executor_next [OF nx]
  show ?case
  proof (cases x)
    case None
    with nx have "executor_loop callback elapsed s = Some s1" by (subst executor_loop.simps) simp
    with "1.prems" id1 show ?thesis by simp
  next
    case (Some e)
    with nx have "executor_loop callback elapsed s =
        executor_loop callback elapsed (executor_deliver callback elapsed e s1)"
      by (subst executor_loop.simps) simp
    with "1.prems" have "executor_loop callback elapsed (executor_deliver callback elapsed e s1) = Some s'"
      by simp
    from "1.IH" [OF nx refl Some this] show ?thesis
      by (rule same_identity_trans [OF same_identity_trans [OF id1 same_identity_deliver]])
  qed
qed

lemma same_identity_stop:
  "stop_delivery callback elapsed on_executor drain s = Some s' \<Longrightarrow> same_identity s s'"
  by (auto simp: stop_delivery_def Let_def split: if_splits dest!: same_identity_executor_loop)
    (auto simp: same_identity_def stop_section_def count_defs Let_def split: if_splits)

lemma same_identity_invoke:
  assumes "try_invoke copyable callback elapsed chain e c s = Some (res, s')"
  shows "same_identity s s'"
proof (cases "is_isolated s")
  case True
  with assms show ?thesis
    by (auto simp: try_invoke_def enqueue_isolated_def Let_def cv_wait_def same_identity_def count_defs
        split: if_splits sum.splits)
next
  case False
  then show ?thesis
  proof (cases "ss_active s")
    case True
    let ?s1 = "(count_offered s)\<lparr>ss_in_flight := ss_in_flight (count_offered s) + 1\<rparr>"
    obtain x s2 where x: "execute_callback callback elapsed chain e ?s1 = (x, s2)" by (metis surj_pair)
    then have "s' = s2"
      using assms True False by (auto simp: try_invoke_def begin_invocation_def Let_def split: option.splits)
    with same_identity_execute [OF x] show ?thesis
      using same_identity_trans same_identity_count(1) by blast
  next
    case inactive: False
    with assms False show ?thesis
      by (auto simp: try_invoke_def begin_invocation_def Let_def same_identity_def count_defs)
  qed
qed

lemma rg_inv_update:
  assumes "rg_inv r" "rg_heap r p = Some s" "same_identity s s'"
  shows "rg_inv (r\<lparr>rg_heap := (rg_heap r)(p \<mapsto> s')\<rparr>)"
    "subscribed_at (r\<lparr>rg_heap := (rg_heap r)(p \<mapsto> s')\<rparr>) = subscribed_at r"
proof -
  show sub: "subscribed_at (r\<lparr>rg_heap := (rg_heap r)(p \<mapsto> s')\<rparr>) = subscribed_at r"
    using assms(2,3) by (auto simp: fun_eq_iff subscribed_at_def same_identity_def)
  have "subscriber_ok r p s" using assms(1,2) by (simp add: rg_inv_def)
  then have "subscriber_ok r p s'" using assms(3) by (auto simp: subscriber_ok_def same_identity_def)
  then show "rg_inv (r\<lparr>rg_heap := (rg_heap r)(p \<mapsto> s')\<rparr>)"
    using assms unfolding rg_inv_def sub by (auto simp: subscriber_ok_def same_identity_def split: if_splits)
qed

section \<open>Registration\<close>

lemma rg_inv_D:
  assumes "rg_inv r"
  shows "distinct (rg_current r)" "set (rg_current r) = {p. subscribed_at r p}" "rg_next_id r \<noteq> 0"
    "\<And>p s. rg_heap r p = Some s \<Longrightarrow> subscriber_ok r p s"
    "\<And>p q s s'. rg_heap r p = Some s \<Longrightarrow> rg_heap r q = Some s' \<Longrightarrow> ss_id s = ss_id s' \<Longrightarrow> p = q"
  using assms unfolding rg_inv_def by blast+

lemma current_active: "rg_inv r \<Longrightarrow> filter (subscribed_at r) (rg_current r) = rg_current r"
  using rg_inv_D(2) [of r] by (simp add: filter_id_conv)

lemma next_id_less:
  assumes "n \<noteq> (- 1 :: uint64_t)"
  shows "n < n + 1" "n + 1 \<noteq> 0"
proof -
  have "unat n \<noteq> unat (- 1 :: uint64_t)" using assms by (simp only: word_unat_eq_iff [symmetric] simp_thms)
  then have "unat n \<noteq> 18446744073709551615" by (simp add: unsigned_minus_1_eq_mask mask_eq_exp_minus_1)
  then have "unat n < 18446744073709551615" using unat_lt_2_64 [of n] by linarith
  then have "unat (n + 1) = unat n + 1" by (rule unat_plus_one) simp
  then show "n < n + 1" "n + 1 \<noteq> 0" by (simp_all add: word_less_nat_alt word_unat_eq_iff)
qed

lemma rg_next_id_update:
  assumes "rg_inv r" "rg_next_id r \<noteq> - 1"
  shows "rg_inv (r\<lparr>rg_next_id := rg_next_id r + 1\<rparr>)"
proof -
  note D = rg_inv_D [OF assms(1)]
  have "subscribed_at (r\<lparr>rg_next_id := rg_next_id r + 1\<rparr>) = subscribed_at r"
    by (simp add: fun_eq_iff subscribed_at_def)
  moreover have "subscriber_ok (r\<lparr>rg_next_id := rg_next_id r + 1\<rparr>) p s" if "rg_heap r p = Some s" for p s
    using D(4) [OF that] next_id_less [OF assms(2)] by (auto simp: subscriber_ok_def)
  ultimately show ?thesis
    using D(1,2,5) next_id_less(2) [OF assms(2)] unfolding rg_inv_def by simp
qed

lemma ss_new_fields:
  assumes "ss_new copyable this ident options tag = Inr s"
  shows "ss_this s = this" "ss_id s = ident" "ss_active s" "\<not> ss_retirement_started s" "ss_retire s"
    "ss_in_flight s = 0" "ss_options s = options" "ss_owner_tag s = tag"
  using assms by (auto simp: ss_new_def split: if_splits)

lemma start_executor_fields [simp]:
  "ss_this (start_executor s) = ss_this s" "ss_id (start_executor s) = ss_id s"
  "ss_active (start_executor s) = ss_active s"
  "ss_retirement_started (start_executor s) = ss_retirement_started s"
  "ss_retire (start_executor s) = ss_retire s" "ss_in_flight (start_executor s) = ss_in_flight s"
  by (simp_all add: start_executor_def)

text \<open>A successful registration.\<close>

lemma core_subscribe_ok:
  fixes r :: "'e registry_core"
  assumes inv: "rg_inv r" and fresh: "rg_heap r addr = None"
    and res: "core_subscribe copyable options addr r = (Inr p, r')"
  shows "p = addr" "rg_current r' = rg_current r @ [addr]" "rg_inv r'" "subscribed_at r' addr"
    "id_at r' addr = rg_next_id r" "\<And>q. q \<noteq> addr \<Longrightarrow> rg_heap r' q = rg_heap r q"
proof -
  let ?r1 = "r\<lparr>rg_next_id := rg_next_id r + 1\<rparr>"
  have n: "rg_next_id r \<noteq> - 1"
    using res by (auto simp: core_subscribe_def allocate_id_def)
  then obtain s :: "'e subscriber_state" where s: "ss_new copyable addr (rg_next_id r) options (rg_this r) = Inr s"
    using res by (auto simp: core_subscribe_def allocate_id_def split: sum.splits)
  have inv1: "rg_inv ?r1" using rg_next_id_update [OF inv n] .
  note f = ss_new_fields [OF s] and D = rg_inv_D [OF inv1]
  have "core_subscribe copyable options addr r = (Inr addr, ?r1\<lparr>rg_heap := (rg_heap r)(addr \<mapsto> start_executor s),
      rg_current := rg_current r @ [addr]\<rparr>)"
    using n s current_active [OF inv1] by (simp add: core_subscribe_def allocate_id_def)
  with res have r': "p = addr" "r' = ?r1\<lparr>rg_heap := (rg_heap r)(addr \<mapsto> start_executor s),
      rg_current := rg_current r @ [addr]\<rparr>" by (metis Pair_inject sum.inject(2))+
  then show "p = addr" "rg_current r' = rg_current r @ [addr]" "subscribed_at r' addr"
    "id_at r' addr = rg_next_id r" "\<And>q. q \<noteq> addr \<Longrightarrow> rg_heap r' q = rg_heap r q"
    using f by (simp_all add: subscribed_at_def id_at_def)
  have sub: "subscribed_at r' q = (q = addr \<or> subscribed_at r q)" for q
    using f fresh by (auto simp: r' subscribed_at_def)
  have cur: "addr \<notin> set (rg_current r)"
    using rg_inv_D(2) [OF inv] fresh by (simp add: subscribed_at_def)
  have ok: "subscriber_ok r' q s'" if "rg_heap r' q = Some s'" for q s'
  proof (cases "q = addr")
    case True
    with that show ?thesis using f next_id_less(1) [OF n] rg_inv_D(3) [OF inv] by (auto simp: r' subscriber_ok_def)
  next
    case False
    with that D(4) [of q s'] show ?thesis by (simp add: r' subscriber_ok_def)
  qed
  have old: "ss_id s' < rg_next_id r" if "rg_heap r q = Some s'" for q s'
    using rg_inv_D(4) [OF inv that] by (simp add: subscriber_ok_def)
  have "q = q'" if "rg_heap r' q = Some s1" "rg_heap r' q' = Some s2" "ss_id s1 = ss_id s2" for q q' s1 s2
  proof -
    have new: "ss_id s' = rg_next_id r" if "rg_heap r' addr = Some s'" for s'
      using that f(2) by (auto simp: r'(2))
    have keep: "rg_heap r p' = Some s'" if "p' \<noteq> addr" "rg_heap r' p' = Some s'" for p' s'
      using that by (simp add: r'(2))
    show ?thesis
    proof (rule ccontr)
      assume ne: "q \<noteq> q'"
      consider "q = addr" | "q' = addr" | "q \<noteq> addr" "q' \<noteq> addr" by blast
      then show False
      proof cases
        case 1
        with ne new [of s1] old [OF keep [of q' s2]] that show False by simp
      next
        case 2
        with ne new [of s2] old [OF keep [of q s1]] that show False by simp
      next
        case 3
        with rg_inv_D(5) [OF inv keep keep] that ne show False by blast
      qed
    qed
  qed
  moreover have "distinct (rg_current r')" "set (rg_current r') = {p. subscribed_at r' p}" "rg_next_id r' \<noteq> 0"
    using sub cur rg_inv_D(1,2) [OF inv] next_id_less(2) [OF n]
    by (simp add: r', simp add: r' set_eq_iff, simp add: r')
  ultimately show "rg_inv r'" using ok unfolding rg_inv_def by simp
qed

lemma core_subscribe_failed:
  assumes inv: "rg_inv r" and res: "core_subscribe copyable options addr r = (Inl x, r')"
  shows "rg_inv r'" "rg_current r' = rg_current r" "rg_heap r' = rg_heap r"
proof -
  have "r' = r \<or> (rg_next_id r \<noteq> - 1 \<and> r' = r\<lparr>rg_next_id := rg_next_id r + 1\<rparr>)"
    using res by (auto simp: core_subscribe_def allocate_id_def Let_def split: if_splits sum.splits)
  then show "rg_inv r'" "rg_current r' = rg_current r" "rg_heap r' = rg_heap r"
    using inv rg_next_id_update [OF inv] by auto
qed

section \<open>Unsubscription\<close>

lemma stop_delivery_discard:
  "\<exists>s'. stop_delivery callback elapsed on_executor False s = Some s' \<and> same_identity s s'"
proof -
  have "executor_loop callback elapsed (stop_section False s) = Some (stop_section False s)"
    by (subst executor_loop.simps) (simp add: executor_next_def cv_wait_def stop_section_def Let_def)
  then show ?thesis
    by (auto simp: stop_delivery_def Let_def) (auto simp: same_identity_def stop_section_def count_defs Let_def)
qed

lemma unsubscribe_section_fields:
  assumes "unsubscribe_section chain s = (run_retire, inside, s1)"
  shows "\<not> ss_active s1" "ss_retirement_started s1" "ss_this s1 = ss_this s" "ss_id s1 = ss_id s"
    "ss_in_flight s1 = ss_in_flight s" "run_retire = (\<not> ss_retirement_started s \<and> ss_retire s)"
    "inside = invoking_on_this_thread (s\<lparr>ss_active := False\<rparr>) chain"
  using assms by (auto simp: unsubscribe_section_def Let_def split: if_splits)

text \<open>Unsubscribing returns, takes exactly the one subscriber out of the list and changes no other.\<close>

lemma rg_unsubscribe_ok:
  assumes inv: "rg_inv r" and p: "rg_heap r p = Some s"
  shows "\<exists>r'. rg_unsubscribe callbacks elapsed chain p r = Some r' \<and> rg_inv r' \<and>
    rg_current r' = filter (\<lambda>q. q \<noteq> p) (rg_current r) \<and> \<not> subscribed_at r' p \<and>
    (\<forall>q. q \<noteq> p \<longrightarrow> rg_heap r' q = rg_heap r q) \<and> rg_heap r' p \<noteq> None"
proof -
  note D = rg_inv_D [OF inv]
  obtain run inside s1 where sec: "unsubscribe_section chain s = (run, inside, s1)" by (metis surj_pair)
  note f = unsubscribe_section_fields [OF sec]
  have ok: "subscriber_ok r p s" using D(4) p .
  define r1 where "r1 = r\<lparr>rg_heap := (rg_heap r)(p \<mapsto> s1)\<rparr>"
  have sub1: "subscribed_at r1 q = (q \<noteq> p \<and> subscribed_at r q)" for q
    using f(1) by (simp add: r1_def subscribed_at_def)
  have id1: "(id_at r1 q = ss_id s) = (q = p)" if "q \<in> set (rg_current r)" for q
  proof -
    from that obtain s' where "rg_heap r q = Some s'" using D(2) by (auto simp: subscribed_at_def split: option.splits)
    with D(5) [OF _ p] f(4) show ?thesis by (auto simp: id_at_def r1_def)
  qed
  define r2 where "r2 = (if run then retire (ss_id s) r1 else r1)"
  have cur: "rg_current r2 = filter (\<lambda>q. q \<noteq> p) (rg_current r)"
  proof (cases run)
    case True
    with f(6) ok have "ss_active s" by (simp add: subscriber_ok_def)
    then have "p \<in> set (rg_current r)" using D(2) p by (simp add: subscribed_at_def)
    then have "list_ex (\<lambda>q. id_at r1 q = ss_id s) (rg_current r1)" using id1 by (auto simp: list_ex_iff r1_def)
    moreover have "filter (\<lambda>q. id_at r1 q \<noteq> ss_id s \<and> subscribed_at r1 q) (rg_current r) =
        filter (\<lambda>q. q \<noteq> p) (rg_current r)"
      using id1 sub1 D(2) by (intro filter_cong) auto
    ultimately show ?thesis using True by (simp add: r2_def retire_def) (simp add: r1_def)
  next
    case False
    with f(6) ok have "\<not> ss_active s" by (auto simp: subscriber_ok_def)
    then have "p \<notin> set (rg_current r)" using D(2) p by (simp add: subscribed_at_def)
    then have "filter (\<lambda>q. q \<noteq> p) (rg_current r) = rg_current r" by (auto simp: filter_id_conv)
    then show ?thesis using False by (simp add: r2_def r1_def)
  qed
  have r2: "rg_heap r2 = (rg_heap r)(p \<mapsto> s1)" "rg_next_id r2 = rg_next_id r"
    by (simp_all add: r2_def r1_def retire_def)
  have sub2: "subscribed_at r2 = subscribed_at r1" by (simp add: fun_eq_iff subscribed_at_def r2 r1_def)
  have ok1: "subscriber_ok r2 p s1" using ok f by (simp add: subscriber_ok_def r2)
  have inv2: "rg_inv r2"
    unfolding rg_inv_def sub2
  proof (intro conjI allI impI)
    show "distinct (rg_current r2)" using D(1) cur by simp
    show "set (rg_current r2) = {p. subscribed_at r1 p}" using D(2) cur sub1 by auto
    show "rg_next_id r2 \<noteq> 0" using D(3) r2 by simp
    show "subscriber_ok r2 q s'" if "rg_heap r2 q = Some s'" for q s'
      using that ok1 D(4) [of q s'] by (auto simp: r2 subscriber_ok_def split: if_splits)
    show "q = q'" if "rg_heap r2 q = Some s1'" "rg_heap r2 q' = Some s2'" "ss_id s1' = ss_id s2'"
      for q q' s1' s2'
      using that D(5) [of q s1' q' s2'] D(5) [OF p, of q' s2'] D(5) [OF _ p, of q s1'] f(4)
      by (auto simp: r2 split: if_splits)
  qed
  obtain s2 where s2: "stop_delivery (callbacks p) elapsed inside False s1 = Some s2" "same_identity s1 s2"
    using stop_delivery_discard [of "callbacks p" elapsed inside s1] by auto
  have "await_idle inside s2 = Some s2"
    using s2(2) ok1 by (simp add: await_idle_def same_identity_def subscriber_ok_def)
  then have "rg_unsubscribe callbacks elapsed chain p r = Some (r2\<lparr>rg_heap := (rg_heap r2)(p \<mapsto> s2)\<rparr>)"
    using p sec s2(1) by (simp add: rg_unsubscribe_def r2_def r1_def Let_def)
  moreover have "rg_heap r2 p = Some s1" using r2 by simp
  note upd = rg_inv_update [OF inv2 this s2(2)]
  moreover have "\<not> subscribed_at r2 p" using sub1 sub2 by simp
  ultimately show ?thesis
    using cur r2(1) by (intro exI [of _ "r2\<lparr>rg_heap := (rg_heap r2)(p \<mapsto> s2)\<rparr>"]) simp
qed

section \<open>Reachable registries\<close>

inductive rg_reachable :: "'e registry_core \<Rightarrow> bool" where
  created: "rg_reachable (rg_new this)"
| registered: "rg_reachable r \<Longrightarrow> rg_heap r addr = None \<Longrightarrow>
    rg_subscribe copyable callback_set options addr r = (res, r') \<Longrightarrow> rg_reachable r'"
| unsubscribed: "rg_reachable r \<Longrightarrow> rg_unsubscribe callbacks elapsed chain p r = Some r' \<Longrightarrow> rg_reachable r'"
| delivered: "rg_reachable r \<Longrightarrow> deliver_to copyable callbacks elapsed chain event c p r = Some (res, r') \<Longrightarrow>
    rg_reachable r'"
| delivery_stopped: "rg_reachable r \<Longrightarrow> rg_stop_delivery callbacks elapsed drain r = Some r' \<Longrightarrow> rg_reachable r'"

lemma deliver_to_ok:
  assumes "rg_inv r" "deliver_to copyable callbacks elapsed chain event c p r = Some (res, r')"
  shows "rg_inv r'" "subscribed_at r' = subscribed_at r" "rg_current r' = rg_current r"
proof -
  from assms(2) obtain s s' where s: "rg_heap r p = Some s"
    "try_invoke copyable (callbacks p) elapsed chain event c s = Some (res, s')"
    "r' = r\<lparr>rg_heap := (rg_heap r)(p \<mapsto> s')\<rparr>"
    by (auto simp: deliver_to_def split: option.splits)
  from rg_inv_update [OF assms(1) s(1) same_identity_invoke [OF s(2)]] s(3)
  show "rg_inv r'" "subscribed_at r' = subscribed_at r" "rg_current r' = rg_current r" by simp_all
qed

lemma stop_snapshot_ok:
  assumes "rg_inv r" "stop_snapshot callbacks elapsed drain ps r = Some r'"
  shows "rg_inv r' \<and> subscribed_at r' = subscribed_at r \<and> rg_current r' = rg_current r"
  using assms
proof (induction ps arbitrary: r)
  case (Cons p ps)
  from Cons.prems(2) obtain s s' where s: "rg_heap r p = Some s"
    "stop_delivery (callbacks p) elapsed False drain s = Some s'"
    "stop_snapshot callbacks elapsed drain ps (r\<lparr>rg_heap := (rg_heap r)(p \<mapsto> s')\<rparr>) = Some r'"
    by (auto split: option.splits)
  note upd = rg_inv_update [OF Cons.prems(1) s(1) same_identity_stop [OF s(2)]]
  from Cons.IH [OF upd(1) s(3)] upd(2) show ?case by simp
qed simp

text \<open>Destruction of a registry returns, and leaves no executor and no pending delivery of a member.\<close>

lemma stop_snapshot_discards:
  assumes "\<forall>p \<in> set ps. rg_heap r p \<noteq> None"
  shows "\<exists>r'. stop_snapshot callbacks elapsed False ps r = Some r' \<and>
    (\<forall>p. rg_heap r' p = (if p \<in> set ps then map_option discarded (rg_heap r p) else rg_heap r p))"
  using assms
proof (induction ps arbitrary: r)
  case (Cons p ps)
  obtain s where s: "rg_heap r p = Some s" using Cons.prems by auto
  from Cons.prems s have "\<forall>q \<in> set ps. rg_heap (r\<lparr>rg_heap := (rg_heap r)(p \<mapsto> discarded s)\<rparr>) q \<noteq> None" by simp
  from Cons.IH [OF this] show ?case
    using s by (auto simp: stop_delivery_discards discarded_fields(1))
qed simp

lemma rg_destroy_returns:
  assumes "rg_inv r"
  shows "\<exists>r'. rg_destroy callbacks elapsed r = Some r' \<and> (\<forall>p s. p \<in> set (acquire_snapshot r) \<longrightarrow>
    rg_heap r' p = Some s \<longrightarrow> is_isolated s \<longrightarrow> ss_mailbox s = [] \<and> \<not> ss_executor_joinable s)"
proof -
  have "\<forall>p \<in> set (rg_current r). rg_heap r p \<noteq> None"
    using rg_inv_D(2) [OF assms] by (auto simp: subscribed_at_def split: option.splits)
  from stop_snapshot_discards [OF this, of callbacks elapsed] show ?thesis
    unfolding rg_destroy_def rg_stop_delivery_def acquire_snapshot_def
    by (auto simp: discarded_fields)
qed

lemma rg_subscribe_inv:
  assumes "rg_inv r" "rg_heap r addr = None" "rg_subscribe copyable callback_set options addr r = (res, r')"
  shows "rg_inv r'"
proof (cases callback_set)
  case True
  with assms(3) have "core_subscribe copyable options addr r = (res, r')" by (simp add: rg_subscribe_def)
  then show ?thesis
    using core_subscribe_ok(3) [OF assms(1,2)] core_subscribe_failed(1) [OF assms(1)] by (cases res) blast+
next
  case False
  with assms show ?thesis by (simp add: rg_subscribe_def)
qed

lemma rg_reachable_inv: "rg_reachable r \<Longrightarrow> rg_inv r"
proof (induction rule: rg_reachable.induct)
  case (created this)
  then show ?case by (simp add: rg_new_def rg_inv_def subscribed_at_def)
next
  case (registered r addr copyable callback_set options res r')
  then show ?case using rg_subscribe_inv by blast
next
  case (unsubscribed r callbacks elapsed chain p r')
  then obtain s where s: "rg_heap r p = Some s" by (auto simp: rg_unsubscribe_def split: option.splits)
  from rg_unsubscribe_ok [OF unsubscribed.IH s, of callbacks elapsed chain] unsubscribed.hyps show ?case by auto
next
  case (delivered r copyable callbacks elapsed chain event c p res r')
  from deliver_to_ok(1) [OF delivered.IH delivered.hyps(2)] show ?case .
next
  case (delivery_stopped r callbacks elapsed drain r')
  then show ?case using stop_snapshot_ok unfolding rg_stop_delivery_def by blast
qed

text \<open>
  Property C30. Registration: a successful \<open>subscribe\<close> on any reachable registry puts the new
  subscriber at the end of the list, after the others in their order, gives it an identifier that no
  subscriber in the heap has, and leaves every other subscriber and every snapshot already taken as
  it was; a failed one changes neither the list nor any subscriber.
\<close>

theorem rg_subscribe_appends:
  assumes "rg_reachable r" "rg_heap r addr = None"
    and "rg_subscribe copyable callback_set options addr r = (res, r')"
  shows "case res of
      Inr p \<Rightarrow> p = addr \<and> acquire_snapshot r' = acquire_snapshot r @ [addr] \<and> subscribed_at r' addr \<and>
        id_at r' addr \<noteq> 0 \<and> (\<forall>q s. rg_heap r q = Some s \<longrightarrow> ss_id s \<noteq> id_at r' addr) \<and>
        (\<forall>q. q \<noteq> addr \<longrightarrow> rg_heap r' q = rg_heap r q)
    | Inl x \<Rightarrow> acquire_snapshot r' = acquire_snapshot r \<and> rg_heap r' = rg_heap r"
proof -
  have inv: "rg_inv r" using rg_reachable_inv assms(1) .
  show ?thesis
  proof (cases res)
    case (Inl x)
    with assms(3) core_subscribe_failed [OF inv, of copyable options addr x r'] show ?thesis
      by (auto simp: rg_subscribe_def acquire_snapshot_def split: if_splits)
  next
    case (Inr p)
    with assms(3) have "core_subscribe copyable options addr r = (Inr p, r')"
      by (simp add: rg_subscribe_def split: if_splits)
    note ok = core_subscribe_ok [OF inv assms(2) this]
    have "ss_id s \<noteq> rg_next_id r" if "rg_heap r q = Some s" for q s
      using rg_inv_D(4) [OF inv that] by (auto simp: subscriber_ok_def)
    with Inr ok rg_inv_D(3) [OF inv] show ?thesis by (simp add: acquire_snapshot_def)
  qed
qed

theorem rg_subscribe_appends_witness:
  "\<exists>r' :: nat registry_core.
     rg_subscribe True True default_subscription_options 5 (rg_new 9) = (Inr 5, r') \<and> acquire_snapshot r' = [5]"
proof -
  obtain res and r' :: "nat registry_core" where
    r: "rg_subscribe True True default_subscription_options 5 (rg_new 9) = (res, r')" by (metis surj_pair)
  have "rg_heap (rg_new 9 :: nat registry_core) 5 = None" by (simp add: rg_new_def)
  note app = rg_subscribe_appends [OF rg_reachable.created this r]
  have "res = Inr 5"
    using r by (simp add: rg_subscribe_def core_subscribe_def allocate_id_def rg_new_def ss_new_def
        default_subscription_options_def Let_def)
  with app r show ?thesis by (simp add: acquire_snapshot_def rg_new_def)
qed

text \<open>
  Unsubscription: \<open>unsubscribe\<close> of a subscriber of any reachable registry, from any
  thread, returns; afterwards the list is the old one without that subscriber, in the same order, the
  subscriber is inactive, and no other subscriber has changed. Doing it twice is doing it once.
\<close>

lemma rg_unsubscribe_removes:
  assumes "rg_reachable r" "rg_heap r p = Some s"
  shows "\<exists>r'. rg_unsubscribe callbacks elapsed chain p r = Some r' \<and>
    acquire_snapshot r' = filter (\<lambda>q. q \<noteq> p) (acquire_snapshot r) \<and> \<not> subscribed_at r' p \<and>
    (\<forall>q. q \<noteq> p \<longrightarrow> rg_heap r' q = rg_heap r q) \<and>
    (\<exists>r''. rg_unsubscribe callbacks elapsed chain p r' = Some r'' \<and>
       acquire_snapshot r'' = acquire_snapshot r' \<and> (\<forall>q. q \<noteq> p \<longrightarrow> rg_heap r'' q = rg_heap r' q))"
proof -
  obtain r' where r': "rg_unsubscribe callbacks elapsed chain p r = Some r'" "rg_inv r'"
    "rg_current r' = filter (\<lambda>q. q \<noteq> p) (rg_current r)" "\<not> subscribed_at r' p"
    "\<forall>q. q \<noteq> p \<longrightarrow> rg_heap r' q = rg_heap r q" "rg_heap r' p \<noteq> None"
    using rg_unsubscribe_ok [OF rg_reachable_inv [OF assms(1)] assms(2), of callbacks elapsed chain] by auto
  from r'(6) obtain s' where s': "rg_heap r' p = Some s'" by auto
  obtain r'' where r'': "rg_unsubscribe callbacks elapsed chain p r' = Some r''"
    "rg_current r'' = filter (\<lambda>q. q \<noteq> p) (rg_current r')" "\<forall>q. q \<noteq> p \<longrightarrow> rg_heap r'' q = rg_heap r' q"
    using rg_unsubscribe_ok [OF r'(2) s', of callbacks elapsed chain] by auto
  have "filter (\<lambda>q. q \<noteq> p) (filter (\<lambda>q. q \<noteq> p) (rg_current r)) = filter (\<lambda>q. q \<noteq> p) (rg_current r)" by simp
  with r' r'' show ?thesis by (simp add: acquire_snapshot_def)
qed

definition registry_one :: "nat registry_core" where
  "registry_one = snd (rg_subscribe True True default_subscription_options 5 (rg_new 9))"

lemma registry_one_ok: "rg_reachable registry_one" "\<exists>s. rg_heap registry_one 5 = Some s"
  "rg_current registry_one = [5]"
proof -
  show "rg_reachable registry_one"
    unfolding registry_one_def
    by (rule rg_reachable.registered [OF rg_reachable.created [of 9] _ surjective_pairing])
      (simp add: rg_new_def)
  show "\<exists>s. rg_heap registry_one 5 = Some s" "rg_current registry_one = [5]"
    by (simp_all add: registry_one_def rg_subscribe_def core_subscribe_def allocate_id_def rg_new_def
        ss_new_def default_subscription_options_def Let_def)
qed

text \<open>
  Property C31. Subscribing and unsubscribing again restores the registry: after a successful registration,
  unsubscription of the new subscriber returns, the published list and the active count are those from
  before, and no other subscriber has changed.
\<close>

theorem rg_subscribe_unsubscribe:
  assumes "rg_reachable r" "rg_heap r addr = None"
    and "rg_subscribe copyable callback_set options addr r = (Inr p, r1)"
  shows "\<exists>r2. rg_unsubscribe callbacks elapsed chain p r1 = Some r2 \<and> acquire_snapshot r2 = acquire_snapshot r \<and>
    active_count r2 = active_count r \<and> (\<forall>q. q \<noteq> p \<longrightarrow> rg_heap r2 q = rg_heap r q)"
proof -
  have inv: "rg_inv r" using rg_reachable_inv assms(1) .
  from assms(3) have "core_subscribe copyable options addr r = (Inr p, r1)"
    by (auto simp: rg_subscribe_def split: if_splits)
  note sub = core_subscribe_ok [OF inv assms(2) this]
  from sub(1,4) obtain s where s: "rg_heap r1 p = Some s" by (auto simp: subscribed_at_def split: option.splits)
  from rg_unsubscribe_ok [OF sub(3) s, of callbacks elapsed chain] obtain r2 where
    r2: "rg_unsubscribe callbacks elapsed chain p r1 = Some r2"
    "rg_current r2 = filter (\<lambda>q. q \<noteq> p) (rg_current r1)" "\<forall>q. q \<noteq> p \<longrightarrow> rg_heap r2 q = rg_heap r1 q"
    by blast
  have new: "addr \<notin> set (rg_current r)" using rg_inv_D(2) [OF inv] assms(2) by (simp add: subscribed_at_def)
  then have "filter (\<lambda>q. q \<noteq> addr) (rg_current r) = rg_current r" by (intro filter_True) auto
  with r2(2) sub(1,2) have cur: "rg_current r2 = rg_current r" by simp
  have heap: "\<forall>q. q \<noteq> p \<longrightarrow> rg_heap r2 q = rg_heap r q" using r2(3) sub(1,6) by simp
  then have "subscribed_at r2 q = subscribed_at r q" if "q \<in> set (rg_current r)" for q
    using that new sub(1) by (auto simp: subscribed_at_def)
  then have "filter (subscribed_at r2) (rg_current r) = filter (subscribed_at r) (rg_current r)"
    by (intro filter_cong) simp_all
  with cur have "active_count r2 = active_count r" by (simp add: active_count_def acquire_snapshot_def)
  with r2(1) cur heap show ?thesis by (auto simp: acquire_snapshot_def)
qed

theorem rg_subscribe_unsubscribe_witness:
  "\<exists>r1 r2. rg_subscribe True True default_subscription_options 9 registry_one = (Inr 9, r1) \<and>
     rg_unsubscribe (\<lambda>_ _ _. None) 0 [] 9 r1 = Some r2 \<and> acquire_snapshot r2 = [5]"
proof -
  obtain r1 where r1: "rg_subscribe True True default_subscription_options 9 registry_one = (Inr 9, r1)"
    by (simp add: registry_one_def rg_subscribe_def core_subscribe_def allocate_id_def rg_new_def
        ss_new_def default_subscription_options_def start_executor_def Let_def)
  moreover have "rg_heap registry_one 9 = None"
    by (simp add: registry_one_def rg_subscribe_def core_subscribe_def allocate_id_def rg_new_def
        ss_new_def default_subscription_options_def start_executor_def Let_def)
  ultimately show ?thesis
    using rg_subscribe_unsubscribe [OF registry_one_ok(1) _ r1, of "\<lambda>_ _ _. None" 0 "[]"] registry_one_ok(3)
    by (auto simp: acquire_snapshot_def)
qed

end
