(* ===== verification/Registry_Threads.thy ===== *)
theory Registry_Threads
  imports Registry
begin

text \<open>
  The threads that register and unsubscribe at one \<open>snapshot_registry\<close>
  (\<open>registry/snapshot_registry.hpp\<close>, and \<open>unsubscribe\<close> of \<open>subscription/subscriber_state.hpp\<close>), in the critical
  sections the code has. \<open>Registry\<close> runs each call in one piece and without a failing allocation; here
  \<open>subscribe\<close> and \<open>retire\<close> hold the writer mutex from the allocation of the new list to its store and ask the entries of
  the old list one by one whether they are subscribed, \<open>unsubscribe\<close> deactivates under the state
  mutex of the subscriber and retires later under the writer mutex, and every allocation may
  fail. An exception of \<open>retire\<close> is swallowed, so the list keeps an inactive entry, a tombstone, until
  the next store.

  Deliveries and executors change a subscriber in between in any way that leaves its registration alone; that the
  sections of \<open>Subscriber\<close> do so is shown at the end. The join of the executor in \<open>stop_delivery\<close>
  is the subject of \<open>Subscriber_Threads\<close>, and the registry outlives its tokens.
\<close>

section \<open>State\<close>

text \<open>
  Where a thread is: outside, before or inside \<open>subscribe\<close> (with the new state, the part of the old list that is still to be
  read and the new list so far), or before the sections of \<open>unsubscribe\<close>, with whether it was called from inside the
  subscriber's own callback.
\<close>

datatype 'e registry_pc =
    G_idle
  | G_subscribed "exn + nat"
  | G_unsubscribed
  | S_entering bool bool subscription_options nat
  | S_copying "'e subscriber_state" "nat list" "nat list"
  | U_entering nat "invocation_context list"
  | U_retiring nat bool
  | U_copying nat bool "nat list" "nat list"
  | U_stopping nat bool
  | U_awaiting nat bool

text \<open>Ghost: \<open>gy_tombstones\<close>, the subscribers whose retirement threw since the list was last stored.\<close>

record 'e registry_threads =
  gy_core :: "'e registry_core"
  gy_writer :: bool
  gy_threads :: "'e registry_pc list"
  gy_tombstones :: "nat list"

section \<open>Steps\<close>

text \<open>
  The next section of a thread. \<open>fault\<close> is the exception of an allocation, or of the start of the executor's
  thread, that fails in it; \<open>None\<close> when the thread is at rest or waits.
\<close>

fun registry_move ::
  "exn option \<Rightarrow> 'e registry_threads \<Rightarrow> 'e registry_pc \<Rightarrow> ('e registry_pc \<times> 'e registry_threads) option" where
  "registry_move fault s (S_entering copyable callback_set options addr) =
     (if \<not> callback_set
      then Some (G_subscribed (Inl (Invalid_argument ''snapshot_registry callback must not be empty'')), s)
      else if gy_writer s \<or> rg_heap (gy_core s) addr \<noteq> None then None
      else case allocate_id (gy_core s) of
        Inl x \<Rightarrow> Some (G_subscribed (Inl x), s)
      | Inr (ident, r) \<Rightarrow> (case ss_new copyable addr ident options (rg_this r) of
          Inl x \<Rightarrow> Some (G_subscribed (Inl x), s\<lparr>gy_core := r\<rparr>)
        | Inr st \<Rightarrow> (case fault of
            Some x \<Rightarrow> Some (G_subscribed (Inl x), s\<lparr>gy_core := r\<rparr>)
          | None \<Rightarrow> Some (S_copying st (rg_current r) [], s\<lparr>gy_core := r, gy_writer := True\<rparr>))))"
| "registry_move fault s (S_copying st (p # ps) next) =
     Some (S_copying st ps (if subscribed_at (gy_core s) p then next @ [p] else next), s)"
| "registry_move fault s (S_copying st [] next) =
     (if is_isolated st \<and> fault \<noteq> None then Some (G_subscribed (Inl (the fault)), s\<lparr>gy_writer := False\<rparr>)
      else Some (G_subscribed (Inr (ss_this st)),
        s\<lparr>gy_core := (gy_core s)\<lparr>rg_heap := (rg_heap (gy_core s))(ss_this st \<mapsto> start_executor st),
            rg_current := next @ [ss_this st]\<rparr>,
          gy_writer := False, gy_tombstones := []\<rparr>))"
| "registry_move fault s (U_entering p chain) = (case rg_heap (gy_core s) p of
       None \<Rightarrow> None
     | Some st \<Rightarrow> (case unsubscribe_section chain st of (run_retire, inside, st') \<Rightarrow>
         Some (if run_retire then U_retiring p inside else U_stopping p inside,
           s\<lparr>gy_core := (gy_core s)\<lparr>rg_heap := (rg_heap (gy_core s))(p \<mapsto> st')\<rparr>\<rparr>)))"
| "registry_move fault s (U_retiring p inside) =
     (if gy_writer s then None
      else if \<not> list_ex (\<lambda>q. id_at (gy_core s) q = id_at (gy_core s) p) (rg_current (gy_core s))
      then Some (U_stopping p inside, s)
      else if fault \<noteq> None then Some (U_stopping p inside, s\<lparr>gy_tombstones := p # gy_tombstones s\<rparr>)
      else Some (U_copying p inside (rg_current (gy_core s)) [], s\<lparr>gy_writer := True\<rparr>))"
| "registry_move fault s (U_copying p inside (q # qs) next) =
     Some (U_copying p inside qs
       (if id_at (gy_core s) q \<noteq> id_at (gy_core s) p \<and> subscribed_at (gy_core s) q then next @ [q] else next), s)"
| "registry_move fault s (U_copying p inside [] next) =
     Some (U_stopping p inside, s\<lparr>gy_core := (gy_core s)\<lparr>rg_current := next\<rparr>, gy_writer := False, gy_tombstones := []\<rparr>)"
| "registry_move fault s (U_stopping p inside) = (case rg_heap (gy_core s) p of
       None \<Rightarrow> None
     | Some st \<Rightarrow> Some (U_awaiting p inside, s\<lparr>gy_core := (gy_core s)\<lparr>rg_heap := (rg_heap (gy_core s))
         (p \<mapsto> (if is_isolated st then stop_section False st else st))\<rparr>\<rparr>))"
| "registry_move fault s (U_awaiting p inside) = (case rg_heap (gy_core s) p of
       None \<Rightarrow> None
     | Some st \<Rightarrow> (case await_idle inside st of None \<Rightarrow> None | Some st' \<Rightarrow> Some (G_unsubscribed, s)))"
| "registry_move fault s pc = None"

fun outside :: "'e registry_pc \<Rightarrow> bool" where
  "outside G_idle = True"
| "outside (G_subscribed r) = True"
| "outside G_unsubscribed = True"
| "outside pc = False"

fun registry_call :: "'e registry_pc \<Rightarrow> bool" where
  "registry_call (S_entering copyable callback_set options addr) = True"
| "registry_call (U_entering p chain) = True"
| "registry_call pc = False"

text \<open>What deliveries, executors and stops leave alone in a subscriber.\<close>

definition same_registration :: "'e subscriber_state \<Rightarrow> 'e subscriber_state \<Rightarrow> bool" where
  "same_registration s s' = (ss_this s' = ss_this s \<and> ss_id s' = ss_id s \<and> ss_options s' = ss_options s \<and>
     ss_owner_tag s' = ss_owner_tag s \<and> ss_active s' = ss_active s \<and>
     ss_retirement_started s' = ss_retirement_started s \<and> ss_retire s' = ss_retire s)"

inductive registry_step :: "'e registry_threads \<Rightarrow> 'e registry_threads \<Rightarrow> bool" where
  call: "t < length (gy_threads s) \<Longrightarrow> outside (gy_threads s ! t) \<Longrightarrow> registry_call pc \<Longrightarrow>
    registry_step s (s\<lparr>gy_threads := (gy_threads s)[t := pc]\<rparr>)"
| move: "t < length (gy_threads s) \<Longrightarrow> registry_move fault s (gy_threads s ! t) = Some (pc, s') \<Longrightarrow>
    registry_step s (s'\<lparr>gy_threads := (gy_threads s)[t := pc]\<rparr>)"
| use: "rg_heap (gy_core s) p = Some st \<Longrightarrow> same_registration st st' \<Longrightarrow>
    registry_step s (s\<lparr>gy_core := (gy_core s)\<lparr>rg_heap := (rg_heap (gy_core s))(p \<mapsto> st')\<rparr>\<rparr>)"

definition registry_start :: "nat \<Rightarrow> nat \<Rightarrow> 'e registry_threads" where
  "registry_start n this =
     \<lparr>gy_core = rg_new this, gy_writer = False, gy_threads = replicate n G_idle, gy_tombstones = []\<rparr>"

inductive registry_reached :: "nat \<Rightarrow> nat \<Rightarrow> 'e registry_threads \<Rightarrow> bool" for n this where
  start: "registry_reached n this (registry_start n this)"
| step: "registry_reached n this s \<Longrightarrow> registry_step s s' \<Longrightarrow> registry_reached n this s'"

section \<open>Schedules\<close>

datatype 'e registry_action =
    Call_registry nat "'e registry_pc"
  | Run_section nat "exn option"

fun registry_act :: "'e registry_action \<Rightarrow> 'e registry_threads \<Rightarrow> 'e registry_threads option" where
  "registry_act (Call_registry t pc) s =
     (if t < length (gy_threads s) \<and> outside (gy_threads s ! t) \<and> registry_call pc
      then Some (s\<lparr>gy_threads := (gy_threads s)[t := pc]\<rparr>) else None)"
| "registry_act (Run_section t fault) s = (if t < length (gy_threads s) then
     (case registry_move fault s (gy_threads s ! t) of
        None \<Rightarrow> None
      | Some (pc, s') \<Rightarrow> Some (s'\<lparr>gy_threads := (gy_threads s)[t := pc]\<rparr>)) else None)"

fun registry_run :: "'e registry_action list \<Rightarrow> 'e registry_threads \<Rightarrow> 'e registry_threads option" where
  "registry_run [] s = Some s"
| "registry_run (a # as) s = (case registry_act a s of None \<Rightarrow> None | Some s' \<Rightarrow> registry_run as s')"

lemma registry_act_step: "registry_act a s = Some s' \<Longrightarrow> registry_step s s'"
  by (cases a) (auto intro: registry_step.intros split: if_splits option.splits)

lemma registry_run_reached:
  "registry_reached n this s \<Longrightarrow> registry_run as s = Some s' \<Longrightarrow> registry_reached n this s'"
proof (induction as arbitrary: s)
  case (Cons a as)
  then obtain s1 where "registry_act a s = Some s1" "registry_run as s1 = Some s'" by (auto split: option.splits)
  with Cons show ?case using registry_reached.step [OF Cons.prems(1) registry_act_step] by blast
qed simp

lemma registry_schedule:
  assumes "case registry_run as (registry_start n this) of None \<Rightarrow> False | Some s \<Rightarrow> Q s"
  shows "\<exists>s. registry_reached n this s \<and> Q s"
  using assms by (auto intro: registry_run_reached registry_reached.start split: option.splits)

section \<open>The invariant\<close>

fun holding :: "'e registry_pc \<Rightarrow> nat" where
  "holding (S_copying st ps next) = 1"
| "holding (U_copying p inside ps next) = 1"
| "holding pc = 0"

fun retiring :: "'e registry_pc \<Rightarrow> nat list" where
  "retiring (U_retiring p inside) = [p]"
| "retiring (U_copying p inside ps next) = [p]"
| "retiring pc = []"

definition entry_ok :: "uint64_t \<Rightarrow> nat \<Rightarrow> 'e subscriber_state \<Rightarrow> bool" where
  "entry_ok n p s = (ss_this s = p \<and> ss_id s \<noteq> 0 \<and> ss_id s < n \<and> ss_active s = (\<not> ss_retirement_started s) \<and>
     (ss_active s \<longrightarrow> ss_retire s))"

definition list_ok :: "'e registry_core \<Rightarrow> bool" where
  "list_ok r = (distinct (rg_current r) \<and> sorted_wrt (\<lambda>p q. id_at r p < id_at r q) (rg_current r) \<and> rg_next_id r \<noteq> 0 \<and> {p. subscribed_at r p} \<subseteq> set (rg_current r) \<and>
     set (rg_current r) \<subseteq> dom (rg_heap r) \<and> (\<forall>p s. rg_heap r p = Some s \<longrightarrow> entry_ok (rg_next_id r) p s) \<and>
     (\<forall>p q s s'. rg_heap r p = Some s \<longrightarrow> rg_heap r q = Some s' \<longrightarrow> ss_id s = ss_id s' \<longrightarrow> p = q))"

lemma list_okI:
  assumes "distinct (rg_current r)" "sorted_wrt (\<lambda>p q. id_at r p < id_at r q) (rg_current r)" "rg_next_id r \<noteq> 0"
    "{p. subscribed_at r p} \<subseteq> set (rg_current r)" "set (rg_current r) \<subseteq> dom (rg_heap r)"
    "\<And>p s. rg_heap r p = Some s \<Longrightarrow> entry_ok (rg_next_id r) p s"
    "\<And>p q s s'. rg_heap r p = Some s \<Longrightarrow> rg_heap r q = Some s' \<Longrightarrow> ss_id s = ss_id s' \<Longrightarrow> p = q"
  shows "list_ok r"
  using assms unfolding list_ok_def by blast

text \<open>A list under construction: \<open>rest\<close> is still to be read and \<open>R\<close> are the subscribers that are being retired.\<close>

definition copy_ok :: "'e registry_core \<Rightarrow> nat set \<Rightarrow> nat list \<Rightarrow> nat list \<Rightarrow> bool" where
  "copy_ok r R rest next = (distinct (next @ rest) \<and>
     sorted_wrt (\<lambda>p q. id_at r p < id_at r q) (next @ rest) \<and> set (next @ rest) \<subseteq> set (rg_current r) \<and>
     {p. subscribed_at r p} \<subseteq> set (next @ rest) \<and> (\<forall>p \<in> set next. subscribed_at r p \<or> p \<in> R))"

fun registry_pc_ok :: "'e registry_core \<Rightarrow> nat set \<Rightarrow> 'e registry_pc \<Rightarrow> bool" where
  "registry_pc_ok r R (S_copying st rest next) = (copy_ok r R rest next \<and> rg_heap r (ss_this st) = None \<and>
     entry_ok (rg_next_id r) (ss_this st) st \<and> ss_active st \<and> (\<forall>p s. rg_heap r p = Some s \<longrightarrow> ss_id s < ss_id st))"
| "registry_pc_ok r R (U_retiring p inside) = (p \<in> dom (rg_heap r) \<and> \<not> subscribed_at r p)"
| "registry_pc_ok r R (U_copying p inside rest next) =
     (copy_ok r R rest next \<and> p \<in> dom (rg_heap r) \<and> \<not> subscribed_at r p \<and> p \<notin> set next)"
| "registry_pc_ok r R pc = True"

definition being_retired :: "'e registry_pc list \<Rightarrow> nat set" where
  "being_retired ts = set_mset (gather retiring ts)"

definition entries_ok :: "'e registry_core \<Rightarrow> nat set \<Rightarrow> nat list \<Rightarrow> bool" where
  "entries_ok r R tombstones = (\<forall>p \<in> set (rg_current r). subscribed_at r p \<or> p \<in> set tombstones \<or> p \<in> R)"

definition registry_inv :: "'e registry_threads \<Rightarrow> bool" where
  "registry_inv s = (list_ok (gy_core s) \<and> tally holding (gy_threads s) = of_bool (gy_writer s) \<and>
     list_all (registry_pc_ok (gy_core s) (being_retired (gy_threads s))) (gy_threads s) \<and>
     entries_ok (gy_core s) (being_retired (gy_threads s)) (gy_tombstones s))"

text \<open>Changes under which a list under construction stays good: registrations stay, and what becomes inactive is
  being retired.\<close>

definition core_le :: "'e registry_core \<Rightarrow> nat set \<Rightarrow> 'e registry_core \<Rightarrow> nat set \<Rightarrow> bool" where
  "core_le r R r' R' = (rg_current r' = rg_current r \<and> rg_next_id r' = rg_next_id r \<and>
     (\<forall>p. map_option ss_id (rg_heap r' p) = map_option ss_id (rg_heap r p)) \<and>
     (\<forall>p. subscribed_at r' p \<longrightarrow> subscribed_at r p) \<and> (\<forall>p. subscribed_at r p \<longrightarrow> subscribed_at r' p \<or> p \<in> R') \<and> R \<subseteq> R')"

lemma core_le_heap:
  assumes "core_le r R r' R'"
  shows "dom (rg_heap r') = dom (rg_heap r)" "rg_heap r p = None \<Longrightarrow> rg_heap r' p = None"
    "rg_heap r' p = Some s' \<Longrightarrow> \<exists>s. rg_heap r p = Some s \<and> ss_id s = ss_id s'"
proof -
  have m: "map_option ss_id (rg_heap r' q) = map_option ss_id (rg_heap r q)" for q using assms by (simp add: core_le_def)
  have none: "(rg_heap r' q = None) = (rg_heap r q = None)" for q
    using arg_cong [OF m [of q], of "\<lambda>x. x = None"] by simp
  then show "dom (rg_heap r') = dom (rg_heap r)" by (simp add: dom_def)
  show "rg_heap r p = None \<Longrightarrow> rg_heap r' p = None" using none by simp
  show "rg_heap r' p = Some s' \<Longrightarrow> \<exists>s. rg_heap r p = Some s \<and> ss_id s = ss_id s'"
    using m [of p] by (cases "rg_heap r p") simp_all
qed

lemma core_le_id: "core_le r R r' R' \<Longrightarrow> id_at r' = id_at r"
proof
  fix p assume "core_le r R r' R'"
  then have "map_option ss_id (rg_heap r' p) = map_option ss_id (rg_heap r p)" by (simp add: core_le_def)
  then show "id_at r' p = id_at r p" by (cases "rg_heap r p"; cases "rg_heap r' p") (simp_all add: id_at_def)
qed

lemma copy_ok_le:
  assumes "copy_ok r R rest next" "core_le r R r' R'"
  shows "copy_ok r' R' rest next"
  using assms(1) assms(2) [unfolded core_le_def] unfolding copy_ok_def core_le_id [OF assms(2)] subset_eq by simp blast

lemma pc_ok_le:
  assumes "registry_pc_ok r R pc" "core_le r R r' R'"
  shows "registry_pc_ok r' R' pc"
proof (cases pc)
  case (S_copying st rest new)
  have "ss_id s < ss_id st" if "rg_heap r' p = Some s" for p s
    using core_le_heap(3) [OF assms(2) that] assms(1) S_copying by (metis registry_pc_ok.simps(1))
  with S_copying assms(1) show ?thesis
    using copy_ok_le [OF _ assms(2)] core_le_heap(2) [OF assms(2)] assms(2) by (simp add: core_le_def)
next
  case (U_copying p inside rest new)
  with assms show ?thesis
    using copy_ok_le [OF _ assms(2)] core_le_heap(1) [OF assms(2)] by (auto simp: core_le_def)
qed (use assms core_le_heap(1) [OF assms(2)] in \<open>auto simp: core_le_def\<close>)

lemma pc_ok_waiting:
  assumes "registry_pc_ok r R pc" "holding pc = 0" "dom (rg_heap r) \<subseteq> dom (rg_heap r')"
    "\<And>p. p \<in> dom (rg_heap r) \<Longrightarrow> subscribed_at r' p \<Longrightarrow> subscribed_at r p"
  shows "registry_pc_ok r' R' pc"
  using assms by (cases pc) auto

lemma others_waiting:
  assumes "tally holding ts = of_bool w" "t < length ts" "holding (ts ! t) = 1 \<or> \<not> w" "u < length ts" "u \<noteq> t"
  shows "holding (ts ! u) = 0"
proof -
  from tally_split [OF assms(2), of holding] obtain n where
    n: "tally holding ts = n + holding (ts ! t)" "\<And>y. tally holding (ts[t := y]) = n + holding y" by blast
  have "n = 0" using n(1) assms(1,3) by (cases w) auto
  then have "tally holding (ts[t := G_idle]) = 0" using n(2) by simp
  then have "holding (ts[t := G_idle] ! u) = 0" using assms(4) nth_mem [of u "ts[t := G_idle]"] by (auto simp: tally_zero)
  with assms(5) show ?thesis by simp
qed

text \<open>
  A step of one thread keeps the invariant when it keeps the list good and either leaves every list under construction good, or
  no other thread has one.
\<close>

lemma registry_inv_update:
  assumes inv: "registry_inv s" and t: "t < length (gy_threads s)"
    and R': "R' = being_retired ((gy_threads s)[t := pc])"
    and others: "core_le (gy_core s) (being_retired (gy_threads s)) r' R' \<or>
      ((holding (gy_threads s ! t) = 1 \<or> \<not> gy_writer s) \<and> dom (rg_heap (gy_core s)) \<subseteq> dom (rg_heap r') \<and>
       (\<forall>p \<in> dom (rg_heap (gy_core s)). subscribed_at r' p \<longrightarrow> subscribed_at (gy_core s) p))"
    and ok: "list_ok r'" "registry_pc_ok r' R' pc" "entries_ok r' R' tombstones"
    and w: "of_bool w + holding (gy_threads s ! t) = of_bool (gy_writer s) + holding pc"
  shows "registry_inv (s\<lparr>gy_core := r', gy_writer := w, gy_tombstones := tombstones,
    gy_threads := (gy_threads s)[t := pc]\<rparr>)"
proof -
  let ?ts = "gy_threads s"
  have h: "tally holding ?ts = of_bool (gy_writer s)"
    and p: "list_all (registry_pc_ok (gy_core s) (being_retired ?ts)) ?ts"
    using inv by (simp_all add: registry_inv_def)
  have "tally holding (?ts[t := pc]) = of_bool w" using tally_update [OF t, of holding pc] h w by simp
  moreover have "registry_pc_ok r' R' (?ts[t := pc] ! u)" if u: "u < length ?ts" for u
  proof (cases "u = t")
    case False
    have old: "registry_pc_ok (gy_core s) (being_retired ?ts) (?ts ! u)" using p u by (simp add: list_all_length)
    from others show ?thesis
    proof
      assume "core_le (gy_core s) (being_retired ?ts) r' R'"
      from pc_ok_le [OF old this] False show ?thesis by simp
    next
      assume alone: "(holding (?ts ! t) = 1 \<or> \<not> gy_writer s) \<and> dom (rg_heap (gy_core s)) \<subseteq> dom (rg_heap r') \<and>
        (\<forall>p \<in> dom (rg_heap (gy_core s)). subscribed_at r' p \<longrightarrow> subscribed_at (gy_core s) p)"
      then have "holding (?ts ! u) = 0" using others_waiting [OF h t _ u False] by blast
      from pc_ok_waiting [OF old this] alone False show ?thesis by simp
    qed
  qed (use ok(2) t in simp)
  ultimately show ?thesis using ok(1,3) R' by (simp add: registry_inv_def list_all_length)
qed

lemma registry_inv_keep:
  assumes "registry_inv s" "t < length (gy_threads s)" "holding pc = holding (gy_threads s ! t)"
    and "core_le (gy_core s) (being_retired (gy_threads s)) r' (being_retired ((gy_threads s)[t := pc])) \<or>
      (\<not> gy_writer s \<and> dom (rg_heap (gy_core s)) \<subseteq> dom (rg_heap r') \<and>
       (\<forall>p \<in> dom (rg_heap (gy_core s)). subscribed_at r' p \<longrightarrow> subscribed_at (gy_core s) p))"
    and "list_ok r'" "registry_pc_ok r' (being_retired ((gy_threads s)[t := pc])) pc"
    "entries_ok r' (being_retired ((gy_threads s)[t := pc])) tombstones"
  shows "registry_inv (s\<lparr>gy_core := r', gy_tombstones := tombstones, gy_threads := (gy_threads s)[t := pc]\<rparr>)"
  using registry_inv_update [OF assms(1,2) refl _ assms(5-7), of "gy_writer s"] assms(3,4) by auto

lemma registry_inv_D:
  assumes "registry_inv s" "t < length (gy_threads s)"
  shows "list_ok (gy_core s)" "registry_pc_ok (gy_core s) (being_retired (gy_threads s)) (gy_threads s ! t)"
    "entries_ok (gy_core s) (being_retired (gy_threads s)) (gy_tombstones s)"
    "holding (gy_threads s ! t) = 1 \<Longrightarrow> gy_writer s"
  using assms tally_member [OF assms(2), of holding]
  by (auto simp: registry_inv_def list_all_length of_bool_def split: if_splits)

lemma being_retired_keep:
  "t < length ts \<Longrightarrow> retiring pc = retiring (ts ! t) \<Longrightarrow> being_retired (ts[t := pc]) = being_retired ts"
  by (simp add: being_retired_def gather_keep)

lemma being_retired_start:
  assumes "t < length ts" "retiring (ts ! t) = []"
  shows "being_retired (ts[t := pc]) = being_retired ts \<union> set (retiring pc)"
  using gather_update [OF assms(1), of retiring pc] assms(2) by (simp add: being_retired_def)

lemma being_retired_end:
  assumes "t < length ts" "retiring (ts ! t) = [p]" "retiring pc = []"
  shows "being_retired ts = insert p (being_retired (ts[t := pc]))"
  using gather_update [OF assms(1), of retiring pc] assms(2,3)
  by (simp add: being_retired_def) (metis set_mset_add_mset_insert)

lemma core_le_refl [simp]: "core_le r R r R"
  by (simp add: core_le_def)

text \<open>An update of one subscriber that keeps its registration, or deactivates it when it is being retired.\<close>

definition entry_step :: "'e subscriber_state \<Rightarrow> 'e subscriber_state \<Rightarrow> bool" where
  "entry_step s s' = (ss_this s' = ss_this s \<and> ss_id s' = ss_id s \<and> (ss_active s' \<longrightarrow> ss_active s) \<and>
     ss_active s' = (\<not> ss_retirement_started s') \<and> (ss_active s' \<longrightarrow> ss_retire s'))"

lemma subscribed_update:
  "subscribed_at (r\<lparr>rg_heap := (rg_heap r)(p \<mapsto> s')\<rparr>) q = (if q = p then ss_active s' else subscribed_at r q)"
  by (simp add: subscribed_at_def)

lemma core_le_update:
  assumes "rg_heap r p = Some s" "entry_step s s'" "R \<subseteq> R'" "ss_active s \<Longrightarrow> \<not> ss_active s' \<Longrightarrow> p \<in> R'"
  shows "core_le r R (r\<lparr>rg_heap := (rg_heap r)(p \<mapsto> s')\<rparr>) R'"
proof -
  have "subscribed_at r p = ss_active s" using assms(1) by (simp add: subscribed_at_def)
  with assms show ?thesis by (simp add: core_le_def entry_step_def subscribed_update)
qed

lemma list_ok_update:
  assumes "list_ok r" "rg_heap r p = Some s" "entry_step s s'"
  shows "list_ok (r\<lparr>rg_heap := (rg_heap r)(p \<mapsto> s')\<rparr>)"
proof -
  let ?r' = "r\<lparr>rg_heap := (rg_heap r)(p \<mapsto> s')\<rparr>"
  have le: "core_le r {} ?r' {p}" using assms(2,3) by (intro core_le_update) auto
  have ids: "q = q'" if "rg_heap r q = Some s1" "rg_heap r q' = Some s2" "ss_id s1 = ss_id s2" for q q' s1 s2
    using that assms(1) unfolding list_ok_def by blast
  have "entry_ok (rg_next_id r) p s" using assms(1,2) by (simp add: list_ok_def)
  then have "entry_ok (rg_next_id r) p s'" using assms(3) by (simp add: entry_ok_def entry_step_def)
  then have new: "entry_ok (rg_next_id r) q s1" if "rg_heap ?r' q = Some s1" for q s1
    using that assms(1) by (simp add: list_ok_def split: if_splits)
  have old: "distinct (rg_current r)" "sorted_wrt (\<lambda>p q. id_at r p < id_at r q) (rg_current r)" "rg_next_id r \<noteq> 0"
    "{p. subscribed_at r p} \<subseteq> set (rg_current r)" "set (rg_current r) \<subseteq> dom (rg_heap r)"
    using assms(1) by (simp_all add: list_ok_def)
  have active: "{q. subscribed_at ?r' q} \<subseteq> set (rg_current ?r')" using le old(4) by (auto simp: core_le_def)
  show ?thesis
  proof (rule list_okI)
    fix q q' s1 s2 assume h: "rg_heap ?r' q = Some s1" "rg_heap ?r' q' = Some s2" "ss_id s1 = ss_id s2"
    obtain u1 u2 where "rg_heap r q = Some u1" "ss_id u1 = ss_id s1" "rg_heap r q' = Some u2" "ss_id u2 = ss_id s2"
      using core_le_heap(3) [OF le h(1)] core_le_heap(3) [OF le h(2)] by blast
    with ids [of q u1 q' u2] h(3) show "q = q'" by simp
  next
    show "sorted_wrt (\<lambda>p q. id_at ?r' p < id_at ?r' q) (rg_current ?r')"
      unfolding core_le_id [OF le] using old(2) by simp
    show "{q. subscribed_at ?r' q} \<subseteq> set (rg_current ?r')" by (rule active)
    show "set (rg_current ?r') \<subseteq> dom (rg_heap ?r')" unfolding core_le_heap(1) [OF le] using old(5) by simp
  qed (use old(1,3) new in simp_all)
qed

lemma entries_ok_le: "entries_ok r R tombstones \<Longrightarrow> core_le r R r' R' \<Longrightarrow> entries_ok r' R' tombstones"
  unfolding entries_ok_def core_le_def by auto

lemma copy_start: "list_ok r \<Longrightarrow> copy_ok r R (rg_current r) []"
  by (simp add: copy_ok_def list_ok_def)

lemma copy_next:
  assumes "copy_ok r R (p # rest) new"
  shows "subscribed_at r p \<Longrightarrow> copy_ok r R rest (new @ [p])" "\<not> subscribed_at r p \<Longrightarrow> copy_ok r R rest new"
  using assms by (auto simp: copy_ok_def sorted_wrt_append)

lemma next_id_ok:
  assumes "list_ok r" "allocate_id r = Inr (ident, r')"
  shows "list_ok r'" "r' = r\<lparr>rg_next_id := ident + 1\<rparr>" "ident \<noteq> 0" "ident < ident + 1"
    "\<And>p s. rg_heap r p = Some s \<Longrightarrow> ss_id s < ident"
proof -
  have n: "rg_next_id r \<noteq> - 1" "ident = rg_next_id r" "r' = r\<lparr>rg_next_id := ident + 1\<rparr>"
    using assms(2) by (auto simp: allocate_id_def split: if_splits)
  note less = next_id_less [OF n(1)]
  show "r' = r\<lparr>rg_next_id := ident + 1\<rparr>" by (rule n(3))
  show "ident \<noteq> 0" "ident < ident + 1" using assms(1) n(2) less by (auto simp: list_ok_def)
  show "\<And>p s. rg_heap r p = Some s \<Longrightarrow> ss_id s < ident" using assms(1) n(2) by (auto simp: list_ok_def entry_ok_def)
  have "subscribed_at r' = subscribed_at r" "id_at r' = id_at r"
    using n(3) by (simp_all add: fun_eq_iff subscribed_at_def id_at_def)
  moreover have "entry_ok (ident + 1) p s" if "rg_heap r p = Some s" for p s
  proof -
    have "entry_ok ident p s" using assms(1) that n(2) by (simp add: list_ok_def)
    with less(1) n(2) show ?thesis by (auto simp: entry_ok_def intro: order.strict_trans)
  qed
  ultimately show "list_ok r'" using assms(1) n less(2) by (simp add: list_ok_def)
qed

lemma list_ok_insert:
  assumes "list_ok r" "rg_heap r p = None" "entry_ok (rg_next_id r) p s" "\<And>q s'. rg_heap r q = Some s' \<Longrightarrow> ss_id s' < ss_id s"
    and "distinct (new @ [p])" "sorted_wrt (\<lambda>p q. id_at r p < id_at r q) new" "set new \<subseteq> dom (rg_heap r)" "{q. subscribed_at r q} \<subseteq> set new"
  shows "list_ok (r\<lparr>rg_heap := (rg_heap r)(p \<mapsto> s), rg_current := new @ [p]\<rparr>)"
proof -
  let ?h = "(rg_heap r)(p \<mapsto> s)"
  have L: "rg_next_id r \<noteq> 0" "\<And>q s'. rg_heap r q = Some s' \<Longrightarrow> entry_ok (rg_next_id r) q s'"
    "\<And>q q' s1 s2. rg_heap r q = Some s1 \<Longrightarrow> rg_heap r q' = Some s2 \<Longrightarrow> ss_id s1 = ss_id s2 \<Longrightarrow> q = q'"
    using assms(1) unfolding list_ok_def by blast+
  have ids: "q = q'" if h: "?h q = Some s1" "?h q' = Some s2" "ss_id s1 = ss_id s2" for q q' s1 s2
  proof (rule ccontr)
    assume ne: "q \<noteq> q'"
    consider "q = p" "rg_heap r q' = Some s2" "s1 = s" | "q' = p" "rg_heap r q = Some s1" "s2 = s"
      | "rg_heap r q = Some s1" "rg_heap r q' = Some s2"
      using h(1,2) ne by (cases "q = p"; cases "q' = p") simp_all
    then show False
    proof cases
      case 1
      from assms(4) [OF 1(2)] 1(3) h(3) show False by simp
    next
      case 2
      from assms(4) [OF 2(2)] 2(3) h(3) show False by simp
    next
      case 3
      from L(3) [OF 3 h(3)] ne show False by simp
    qed
  qed
  have entry: "entry_ok (rg_next_id r) q s'" if "?h q = Some s'" for q s'
    using that assms(3) L(2) [of q s'] by (cases "q = p") simp_all
  have active: "{q. subscribed_at (r\<lparr>rg_heap := ?h, rg_current := new @ [p]\<rparr>) q} \<subseteq> set (new @ [p])"
    using assms(8) by (auto simp: subscribed_at_def split: if_splits)
  have heap: "set (new @ [p]) \<subseteq> dom ?h" using assms(7) by auto
  have same: "id_at (r\<lparr>rg_heap := ?h, rg_current := new @ [p]\<rparr>) q = (if q = p then ss_id s else id_at r q)" for q
    by (simp add: id_at_def)
  have order: "sorted_wrt (\<lambda>q q'. id_at (r\<lparr>rg_heap := ?h, rg_current := new @ [p]\<rparr>) q <
      id_at (r\<lparr>rg_heap := ?h, rg_current := new @ [p]\<rparr>) q') (new @ [p])"
  proof -
    have "id_at r q < ss_id s" if "q \<in> set new" for q using that assms(4,7) by (auto simp: id_at_def)
    moreover have "sorted_wrt (\<lambda>q q'. (if q = p then ss_id s else id_at r q) < (if q' = p then ss_id s else id_at r q')) new"
      using assms(5,6) by (auto simp: sorted_wrt_iff_nth_less)
    ultimately show ?thesis using assms(5) unfolding same sorted_wrt_append by auto
  qed
  show ?thesis
  proof (rule list_okI)
    fix q q' s1 s2 assume "rg_heap (r\<lparr>rg_heap := ?h, rg_current := new @ [p]\<rparr>) q = Some s1"
      "rg_heap (r\<lparr>rg_heap := ?h, rg_current := new @ [p]\<rparr>) q' = Some s2" "ss_id s1 = ss_id s2"
    with ids [of q s1 q' s2] show "q = q'" by simp
  qed (use assms(5) L(1) entry active heap order in simp_all)
qed

text \<open>The moves of \<open>subscribe\<close>.\<close>

lemma subscribe_enter_inv:
  assumes inv: "registry_inv s" and t: "t < length (gy_threads s)" "gy_threads s ! t = S_entering copyable b options addr"
    and move: "registry_move fault s (gy_threads s ! t) = Some (pc, s')"
  shows "registry_inv (s'\<lparr>gy_threads := (gy_threads s)[t := pc]\<rparr>)"
proof -
  note D = registry_inv_D [OF inv t(1)]
  let ?R = "being_retired (gy_threads s)"
  have keep: "being_retired ((gy_threads s)[t := pc]) = ?R" if "retiring pc = []"
    using being_retired_keep [OF t(1)] t(2) that by simp
  note up = registry_inv_update [OF inv t(1) refl, where pc = pc]
  show ?thesis
  proof (cases "b \<and> (\<exists>ident r. allocate_id (gy_core s) = Inr (ident, r))")
    case False
    then obtain x where "pc = G_subscribed (Inl x)" "s' = s" using move t(2) by (auto split: if_splits sum.splits)
    with up [of "gy_core s" "gy_tombstones s" "gy_writer s"] D t(2) keep show ?thesis by simp
  next
    case True
    then obtain ident r where a: "b" "allocate_id (gy_core s) = Inr (ident, r)" by blast
    note n = next_id_ok [OF D(1) a(2)]
    have free: "\<not> gy_writer s" "rg_heap (gy_core s) addr = None" using move t(2) a by (auto split: if_splits)
    have same: "rg_heap r = rg_heap (gy_core s)" "rg_current r = rg_current (gy_core s)" "rg_next_id r = ident + 1"
      "subscribed_at r = subscribed_at (gy_core s)" using n(2) by (simp_all add: fun_eq_iff subscribed_at_def)
    have e: "entries_ok r ?R (gy_tombstones s)" using D(3) same by (simp add: entries_ok_def)
    show ?thesis
    proof (cases "\<exists>x. pc = G_subscribed (Inl x) \<and> s' = s\<lparr>gy_core := r\<rparr>")
      case True
      then obtain x where x: "pc = G_subscribed (Inl x)" "s' = s\<lparr>gy_core := r\<rparr>" by blast
      have "registry_inv (s\<lparr>gy_core := r, gy_tombstones := gy_tombstones s, gy_threads := (gy_threads s)[t := pc]\<rparr>)"
        using n(1) e free(1) t(2) keep x(1) by (intro registry_inv_keep [OF inv t(1)]) (simp_all add: same)
      with x show ?thesis by simp
    next
      case False
      then obtain st where st: "ss_new copyable addr ident options (rg_this r) = Inr st"
        "pc = S_copying st (rg_current r) []" "s' = s\<lparr>gy_core := r, gy_writer := True\<rparr>"
        using move t(2) a free by (auto split: sum.splits option.splits)
      note f = ss_new_fields [OF st(1)]
      have "registry_pc_ok r ?R pc"
        using copy_start [OF n(1)] f n(3,4) n(5) free(2) same st(2) by (simp add: entry_ok_def)
      with up [of r "gy_tombstones s" True] n(1) e same free t(2) keep st(2,3) show ?thesis by simp
    qed
  qed
qed

lemma subscribe_copy_inv:
  assumes inv: "registry_inv s" and t: "t < length (gy_threads s)" "gy_threads s ! t = S_copying st rest new"
    and move: "registry_move fault s (gy_threads s ! t) = Some (pc, s')"
  shows "registry_inv (s'\<lparr>gy_threads := (gy_threads s)[t := pc]\<rparr>)"
proof -
  note D = registry_inv_D [OF inv t(1)]
  let ?r = "gy_core s" and ?R = "being_retired (gy_threads s)"
  have keep: "being_retired ((gy_threads s)[t := pc]) = ?R" if "retiring pc = []"
    using being_retired_keep [OF t(1)] t(2) that by simp
  have w: "gy_writer s" using D(4) t(2) by simp
  have c: "copy_ok ?r ?R rest new" "rg_heap ?r (ss_this st) = None" "entry_ok (rg_next_id ?r) (ss_this st) st" "ss_active st"
    "\<And>p s. rg_heap ?r p = Some s \<Longrightarrow> ss_id s < ss_id st" using D(2) t(2) by auto
  note up = registry_inv_update [OF inv t(1) refl, where pc = pc]
  show ?thesis
  proof (cases rest)
    case (Cons p ps)
    with move t(2) have m: "pc = S_copying st ps (if subscribed_at ?r p then new @ [p] else new)" "s' = s" by auto
    have "copy_ok ?r ?R ps (if subscribed_at ?r p then new @ [p] else new)" using copy_next c(1) Cons by auto
    with up [of ?r "gy_tombstones s" "gy_writer s"] D(1,3) c t(2) m keep show ?thesis by simp
  next
    case Nil
    show ?thesis
    proof (cases "is_isolated st \<and> fault \<noteq> None")
      case True
      with move t(2) Nil have "pc = G_subscribed (Inl (the fault))" "s' = s\<lparr>gy_writer := False\<rparr>" by auto
      with up [of ?r "gy_tombstones s" False] D(1,3) t(2) w keep show ?thesis by simp
    next
      case False
      let ?h = "(rg_heap ?r)(ss_this st \<mapsto> start_executor st)"
      let ?r' = "?r\<lparr>rg_heap := ?h, rg_current := new @ [ss_this st]\<rparr>"
      from False move t(2) Nil have m: "pc = G_subscribed (Inr (ss_this st))"
        "s' = s\<lparr>gy_core := ?r', gy_writer := False, gy_tombstones := []\<rparr>" by (auto split: if_splits)
      have sub: "subscribed_at ?r' p = (p = ss_this st \<or> subscribed_at ?r p)" for p
        using c(4) c(2) by (simp add: subscribed_at_def)
      have dom: "set (rg_current ?r) \<subseteq> dom (rg_heap ?r)" using D(1) by (simp add: list_ok_def)
      then have "ss_this st \<notin> set (rg_current ?r)" using c(2) by auto
      then have new: "distinct (new @ [ss_this st])" "set new \<subseteq> dom (rg_heap ?r)" "{p. subscribed_at ?r p} \<subseteq> set new"
        "sorted_wrt (\<lambda>p q. id_at ?r p < id_at ?r q) new"
        "\<forall>p \<in> set new. subscribed_at ?r p \<or> p \<in> ?R"
        using c(1) dom Nil by (auto simp: copy_ok_def)
      have "list_ok ?r'"
        using list_ok_insert [OF D(1) c(2), of "start_executor st" new] c(3-5) new(1-4) by (simp add: entry_ok_def)
      moreover have "entries_ok ?r' ?R []" using new(5) sub by (auto simp: entries_ok_def)
      ultimately show ?thesis using up [of ?r' "[]" False] t(2) w m keep sub c(2) by (auto simp: domIff)
    qed
  qed
qed

text \<open>The moves of \<open>unsubscribe\<close>.\<close>

lemma unsubscribe_entry_step:
  assumes "unsubscribe_section chain s = (run_retire, inside, s')" "entry_ok n p s"
  shows "entry_step s s'" "\<not> ss_active s'" "ss_active s \<Longrightarrow> run_retire"
  using assms by (auto simp: unsubscribe_section_def entry_step_def entry_ok_def Let_def split: if_splits)

lemma unsubscribe_enter_inv:
  assumes inv: "registry_inv s" and t: "t < length (gy_threads s)" "gy_threads s ! t = U_entering p chain"
    and move: "registry_move fault s (gy_threads s ! t) = Some (pc, s')"
  shows "registry_inv (s'\<lparr>gy_threads := (gy_threads s)[t := pc]\<rparr>)"
proof -
  note D = registry_inv_D [OF inv t(1)]
  let ?r = "gy_core s" and ?R = "being_retired (gy_threads s)" and ?R' = "being_retired ((gy_threads s)[t := pc])"
  from move t(2) obtain st run_retire inside st' where m: "rg_heap ?r p = Some st"
    "unsubscribe_section chain st = (run_retire, inside, st')"
    "pc = (if run_retire then U_retiring p inside else U_stopping p inside)"
    "s' = s\<lparr>gy_core := ?r\<lparr>rg_heap := (rg_heap ?r)(p \<mapsto> st')\<rparr>\<rparr>"
    by (auto split: option.splits prod.splits)
  have "entry_ok (rg_next_id ?r) p st" using D(1) m(1) by (simp add: list_ok_def)
  note u = unsubscribe_entry_step [OF m(2) this]
  have R': "?R' = ?R \<union> set (retiring pc)" using being_retired_start [OF t(1)] t(2) by simp
  have le: "core_le ?r ?R (?r\<lparr>rg_heap := (rg_heap ?r)(p \<mapsto> st')\<rparr>) ?R'"
    using R' u(3) m(3) by (intro core_le_update [OF m(1) u(1)]) auto
  have "registry_pc_ok (?r\<lparr>rg_heap := (rg_heap ?r)(p \<mapsto> st')\<rparr>) ?R' pc" using m(3) u(2) by (simp add: subscribed_update)
  with registry_inv_update [OF inv t(1) refl disjI1 [OF le] list_ok_update [OF D(1) m(1) u(1)] _ entries_ok_le [OF D(3) le],
      of "gy_writer s"] t(2) m(3,4)
  show ?thesis by (simp split: if_splits)
qed

lemma id_at_own: "list_ok r \<Longrightarrow> p \<in> dom (rg_heap r) \<Longrightarrow> q \<in> dom (rg_heap r) \<Longrightarrow> (id_at r p = id_at r q) = (p = q)"
  unfolding list_ok_def id_at_def by auto

lemma retire_enter_inv:
  assumes inv: "registry_inv s" and t: "t < length (gy_threads s)" "gy_threads s ! t = U_retiring p inside"
    and move: "registry_move fault s (gy_threads s ! t) = Some (pc, s')"
  shows "registry_inv (s'\<lparr>gy_threads := (gy_threads s)[t := pc]\<rparr>)"
proof -
  note D = registry_inv_D [OF inv t(1)]
  let ?r = "gy_core s" and ?R = "being_retired (gy_threads s)" and ?R' = "being_retired ((gy_threads s)[t := pc])"
  have p: "p \<in> dom (rg_heap ?r)" "\<not> subscribed_at ?r p" using D(2) t(2) by simp_all
  have w: "\<not> gy_writer s" using move t(2) by (auto split: if_splits)
  note up = registry_inv_update [OF inv t(1) refl, where pc = pc and r' = ?r]
  show ?thesis
  proof (cases "list_ex (\<lambda>q. id_at ?r q = id_at ?r p) (rg_current ?r) \<and> fault = None")
    case True
    with move t(2) w have m: "pc = U_copying p inside (rg_current ?r) []" "s' = s\<lparr>gy_writer := True\<rparr>" by auto
    have R': "?R' = ?R" using being_retired_keep [OF t(1)] t(2) m(1) by simp
    with up [of "gy_tombstones s" True] D(1,3) t(2) w m p copy_start [OF D(1)] show ?thesis by simp
  next
    case False
    then have pc: "pc = U_stopping p inside" using move t(2) w by (auto split: if_splits)
    have R': "?R = insert p ?R'" using being_retired_end [OF t(1)] t(2) pc by simp
    show ?thesis
    proof (cases "list_ex (\<lambda>q. id_at ?r q = id_at ?r p) (rg_current ?r)")
      case True
      with False move t(2) w have "s' = s\<lparr>gy_tombstones := p # gy_tombstones s\<rparr>" by auto
      moreover have "entries_ok ?r ?R' (p # gy_tombstones s)" using D(3) R' by (auto simp: entries_ok_def)
      ultimately show ?thesis
        using registry_inv_keep [OF inv t(1), of pc ?r "p # gy_tombstones s"] D(1) t(2) w pc by simp
    next
      case absent: False
      with move t(2) w have "s' = s" by auto
      moreover have "p \<notin> set (rg_current ?r)" using absent by (auto simp: list_ex_iff)
      then have "entries_ok ?r ?R' (gy_tombstones s)" using D(3) R' by (auto simp: entries_ok_def)
      ultimately show ?thesis using registry_inv_keep [OF inv t(1), of pc ?r "gy_tombstones s"] D(1) t(2) w pc by simp
    qed
  qed
qed

lemma retire_copy_inv:
  assumes inv: "registry_inv s" and t: "t < length (gy_threads s)" "gy_threads s ! t = U_copying p inside rest new"
    and move: "registry_move fault s (gy_threads s ! t) = Some (pc, s')"
  shows "registry_inv (s'\<lparr>gy_threads := (gy_threads s)[t := pc]\<rparr>)"
proof -
  note D = registry_inv_D [OF inv t(1)]
  let ?r = "gy_core s" and ?R = "being_retired (gy_threads s)" and ?R' = "being_retired ((gy_threads s)[t := pc])"
  have w: "gy_writer s" using D(4) t(2) by simp
  have c: "copy_ok ?r ?R rest new" "p \<in> dom (rg_heap ?r)" "\<not> subscribed_at ?r p" "p \<notin> set new" using D(2) t(2) by auto
  have dom: "set (rg_current ?r) \<subseteq> dom (rg_heap ?r)" using D(1) by (simp add: list_ok_def)
  note up = registry_inv_update [OF inv t(1) refl, where pc = pc]
  show ?thesis
  proof (cases rest)
    case (Cons q qs)
    let ?new = "if id_at ?r q \<noteq> id_at ?r p \<and> subscribed_at ?r q then new @ [q] else new"
    from Cons move t(2) have m: "pc = U_copying p inside qs ?new" "s' = s" by auto
    have "q \<in> dom (rg_heap ?r)" using c(1) dom Cons by (auto simp: copy_ok_def)
    then have "(id_at ?r q \<noteq> id_at ?r p \<and> subscribed_at ?r q) = subscribed_at ?r q"
      using id_at_own [OF D(1) _ c(2)] c(3) by auto
    then have "copy_ok ?r ?R qs ?new" "p \<notin> set ?new" using copy_next c(1,3,4) Cons by auto
    moreover have "?R' = ?R" using being_retired_keep [OF t(1)] t(2) m(1) by simp
    ultimately show ?thesis using up [of ?r "gy_tombstones s" "gy_writer s"] D(1,3) c t(2) m by simp
  next
    case Nil
    let ?r' = "?r\<lparr>rg_current := new\<rparr>"
    from Nil move t(2) have m: "pc = U_stopping p inside"
      "s' = s\<lparr>gy_core := ?r', gy_writer := False, gy_tombstones := []\<rparr>" by auto
    have R': "?R = insert p ?R'" using being_retired_end [OF t(1)] t(2) m(1) by simp
    have sub: "subscribed_at ?r' = subscribed_at ?r" "id_at ?r' = id_at ?r"
      by (simp_all add: fun_eq_iff subscribed_at_def id_at_def)
    have "set new \<subseteq> dom (rg_heap ?r)" using c(1) dom by (auto simp: copy_ok_def)
    with c(1) D(1) Nil have "list_ok ?r'" unfolding list_ok_def copy_ok_def sub by simp
    moreover have "entries_ok ?r' ?R' []" using c(1,4) R' sub by (auto simp: entries_ok_def copy_ok_def)
    ultimately show ?thesis using up [of ?r' "[]" False] t(2) w m sub by simp
  qed
qed

lemma same_registration_step:
  assumes "same_registration s s'" "entry_ok n p s"
  shows "entry_step s s'" "ss_active s' = ss_active s"
  using assms by (auto simp: same_registration_def entry_ok_def entry_step_def)

lemma same_registration_stop [simp]: "same_registration s (stop_section drain s)" "same_registration s s"
  by (simp_all add: same_registration_def stop_section_def count_defs Let_def)

lemma stop_move_inv:
  assumes inv: "registry_inv s" and t: "t < length (gy_threads s)"
    "gy_threads s ! t = U_stopping p inside \<or> gy_threads s ! t = U_awaiting p inside"
    and move: "registry_move fault s (gy_threads s ! t) = Some (pc, s')"
  shows "registry_inv (s'\<lparr>gy_threads := (gy_threads s)[t := pc]\<rparr>)"
proof -
  note D = registry_inv_D [OF inv t(1)]
  let ?r = "gy_core s" and ?R = "being_retired (gy_threads s)" and ?R' = "being_retired ((gy_threads s)[t := pc])"
  have "\<exists>st st'. rg_heap ?r p = Some st \<and> same_registration st st' \<and>
      s' = s\<lparr>gy_core := ?r\<lparr>rg_heap := (rg_heap ?r)(p \<mapsto> st')\<rparr>\<rparr> \<and> (pc = U_awaiting p inside \<or> pc = G_unsubscribed)"
  proof (cases "gy_threads s ! t = U_stopping p inside")
    case True
    with move obtain st where "rg_heap ?r p = Some st" "pc = U_awaiting p inside" "s' = s\<lparr>gy_core := ?r\<lparr>rg_heap :=
        (rg_heap ?r)(p \<mapsto> (if is_isolated st then stop_section False st else st))\<rparr>\<rparr>" by (auto split: option.splits)
    then show ?thesis by (intro exI [of _ st] exI [of _ "if is_isolated st then stop_section False st else st"]) simp
  next
    case False
    with t(2) move obtain st where st: "rg_heap ?r p = Some st" "pc = G_unsubscribed" "s' = s" by (auto split: option.splits)
    then have "s' = s\<lparr>gy_core := ?r\<lparr>rg_heap := (rg_heap ?r)(p \<mapsto> st)\<rparr>\<rparr>" by (simp add: fun_upd_idem)
    with st show ?thesis by (intro exI [of _ st]) simp
  qed
  then obtain st st' where m: "rg_heap ?r p = Some st" "same_registration st st'"
    "s' = s\<lparr>gy_core := ?r\<lparr>rg_heap := (rg_heap ?r)(p \<mapsto> st')\<rparr>\<rparr>" "pc = U_awaiting p inside \<or> pc = G_unsubscribed"
    by blast
  have "entry_ok (rg_next_id ?r) p st" using D(1) m(1) by (simp add: list_ok_def)
  note u = same_registration_step [OF m(2) this]
  have R': "?R' = ?R" using being_retired_keep [OF t(1)] t(2) m(4) by auto
  have le: "core_le ?r ?R (?r\<lparr>rg_heap := (rg_heap ?r)(p \<mapsto> st')\<rparr>) ?R'"
    unfolding R' using u(2) by (intro core_le_update [OF m(1) u(1)]) auto
  from registry_inv_update [OF inv t(1) refl disjI1 [OF le] list_ok_update [OF D(1) m(1) u(1)] _ entries_ok_le [OF D(3) le],
      of "gy_writer s"] t(2) m(3,4)
  show ?thesis by auto
qed

section \<open>Safety\<close>

lemma move_inv:
  assumes "registry_inv s" "t < length (gy_threads s)" "registry_move fault s (gy_threads s ! t) = Some (pc, s')"
  shows "registry_inv (s'\<lparr>gy_threads := (gy_threads s)[t := pc]\<rparr>)"
  by (cases "gy_threads s ! t")
    (use assms(3) in \<open>auto intro: subscribe_enter_inv [OF assms(1,2) _ assms(3)] subscribe_copy_inv [OF assms(1,2) _ assms(3)]
      unsubscribe_enter_inv [OF assms(1,2) _ assms(3)] retire_enter_inv [OF assms(1,2) _ assms(3)]
      retire_copy_inv [OF assms(1,2) _ assms(3)] stop_move_inv [OF assms(1,2) _ assms(3)]\<close>)

lemma step_inv:
  assumes "registry_step s s'" "registry_inv s"
  shows "registry_inv s'"
  using assms(1)
proof (cases rule: registry_step.cases)
  case (call t pc)
  have k: "holding pc = holding (gy_threads s ! t)" "retiring pc = retiring (gy_threads s ! t)" "registry_pc_ok r R pc" for r R
    using call(3,4) by (cases pc; cases "gy_threads s ! t"; simp)+
  note D = registry_inv_D [OF assms(2) call(2)]
  from registry_inv_keep [OF assms(2) call(2) k(1), of "gy_core s" "gy_tombstones s"] D(1,3) k(3)
  show ?thesis unfolding being_retired_keep [OF call(2) k(2)] by (simp add: call(1))
next
  case (move t fault pc s1)
  with move_inv [OF assms(2)] show ?thesis by simp
next
  case (use p st st')
  let ?r = "gy_core s" and ?R = "being_retired (gy_threads s)"
  have L: "list_ok ?r" "entries_ok ?r ?R (gy_tombstones s)" using assms(2) by (simp_all add: registry_inv_def)
  then have "entry_ok (rg_next_id ?r) p st" using use(2) by (simp add: list_ok_def)
  note u = same_registration_step [OF use(3) this]
  have le: "core_le ?r ?R (?r\<lparr>rg_heap := (rg_heap ?r)(p \<mapsto> st')\<rparr>) ?R"
    using u(2) by (intro core_le_update [OF use(2) u(1)]) auto
  show ?thesis
    using assms(2) list_ok_update [OF L(1) use(2) u(1)] entries_ok_le [OF L(2) le] pc_ok_le [OF _ le]
    by (simp add: use(1) registry_inv_def list_all_length)
qed

lemma registry_reached_inv:
  assumes "registry_reached n this s"
  shows "registry_inv s" "length (gy_threads s) = n"
proof -
  have threads: "length (gy_threads s') = length (gy_threads s)" if "registry_step s s'" for s s' :: "'a registry_threads"
    using that by (cases rule: registry_step.cases) simp_all
  from assms have "registry_inv s \<and> length (gy_threads s) = n"
  proof (induction rule: registry_reached.induct)
    case start
    show ?case
      by (simp add: registry_inv_def registry_start_def list_ok_def entries_ok_def rg_new_def subscribed_at_def
          tally_replicate list_all_iff)
  next
    case (step s s')
    then show ?case using step_inv threads by metis
  qed
  then show "registry_inv s" "length (gy_threads s) = n" by simp_all
qed

text \<open>
  Property C32. The published list under every interleaving of registrations and unsubscriptions of any number of
  threads, each in the critical sections the code has and with any allocation failing. The list holds every active subscriber,
  each entry once and in the order of registration (their identifiers are non-zero and increase); an entry that is
  not active is being retired by a thread or is a tombstone, left by a retirement that failed since the list was last
  stored; and \<open>active_count\<close>, which skips such entries, is the number of active subscribers.
\<close>

theorem registry_threads_exact:
  assumes "registry_reached n this s"
  shows "{p. subscribed_at (gy_core s) p} \<subseteq> set (acquire_snapshot (gy_core s)) \<and>
    distinct (acquire_snapshot (gy_core s)) \<and>
    sorted_wrt (<) (map (id_at (gy_core s)) (acquire_snapshot (gy_core s))) \<and>
    0 \<notin> set (map (id_at (gy_core s)) (acquire_snapshot (gy_core s))) \<and>
    (\<forall>p \<in> set (acquire_snapshot (gy_core s)). subscribed_at (gy_core s) p \<or> p \<in> set (gy_tombstones s) \<or>
      (\<exists>t < n. p \<in> set (retiring (gy_threads s ! t)))) \<and>
    active_count (gy_core s) = of_nat (card {p. subscribed_at (gy_core s) p})"
proof -
  let ?r = "gy_core s"
  note I = registry_reached_inv [OF assms]
  have L: "list_ok ?r" "entries_ok ?r (being_retired (gy_threads s)) (gy_tombstones s)" using I(1) by (simp_all add: registry_inv_def)
  then have D: "distinct (rg_current ?r)" "{p. subscribed_at ?r p} \<subseteq> set (rg_current ?r)" "set (rg_current ?r) \<subseteq> dom (rg_heap ?r)"
    "sorted_wrt (\<lambda>p q. id_at ?r p < id_at ?r q) (rg_current ?r)"
    "\<And>p st. rg_heap ?r p = Some st \<Longrightarrow> ss_id st \<noteq> 0"
    by (auto simp: list_ok_def entry_ok_def)
  have "id_at ?r p \<noteq> 0" if "p \<in> set (rg_current ?r)" for p using that D(3,5) by (auto simp: id_at_def)
  then have "0 \<notin> set (map (id_at ?r) (rg_current ?r))" by (auto dest: sym)
  moreover have "\<exists>t < n. p \<in> set (retiring (gy_threads s ! t))" if "p \<in> being_retired (gy_threads s)" for p
    using that I(2) by (auto simp: being_retired_def gather_def set_conv_nth [of "gy_threads s"])
  then have "\<forall>p \<in> set (rg_current ?r). subscribed_at ?r p \<or> p \<in> set (gy_tombstones s) \<or>
      (\<exists>t < n. p \<in> set (retiring (gy_threads s ! t)))" using L(2) by (auto simp: entries_ok_def)
  moreover have "{p. subscribed_at ?r p} = set (filter (subscribed_at ?r) (rg_current ?r))" using D(2) by auto
  then have "length (filter (subscribed_at ?r) (rg_current ?r)) = card {p. subscribed_at ?r p}"
    using distinct_card [OF distinct_filter [OF D(1)], of "subscribed_at ?r"] by simp
  ultimately show ?thesis using D(1,2,4) by (simp add: acquire_snapshot_def active_count_def sorted_wrt_map)
qed

text \<open>Two registrations, then an unsubscription of the first whose removal copy cannot be allocated.\<close>

definition tombstone_schedule :: "nat registry_action list" where
  "tombstone_schedule =
     [Call_registry 0 (S_entering True True default_subscription_options 5), Run_section 0 None, Run_section 0 None,
      Call_registry 1 (S_entering True True default_subscription_options 9), Run_section 1 None, Run_section 1 None,
      Run_section 1 None, Call_registry 0 (U_entering 5 []), Run_section 0 None, Run_section 0 (Some Bad_alloc),
      Run_section 0 None, Run_section 0 None]"

theorem registry_threads_exact_witness:
  "\<exists>s :: nat registry_threads. registry_reached 2 1 s \<and> gy_threads s = [G_unsubscribed, G_subscribed (Inr 9)] \<and>
     acquire_snapshot (gy_core s) = [5, 9] \<and> {p. subscribed_at (gy_core s) p} = {9} \<and> active_count (gy_core s) = 1"
proof -
  have "\<exists>s :: nat registry_threads. registry_reached 2 1 s \<and> gy_threads s = [G_unsubscribed, G_subscribed (Inr 9)] \<and>
      rg_current (gy_core s) = [5, 9] \<and> \<not> subscribed_at (gy_core s) 5 \<and> subscribed_at (gy_core s) 9"
    by (rule registry_schedule [where as = tombstone_schedule]) code_simp
  then obtain s :: "nat registry_threads" where s: "registry_reached 2 1 s" "gy_threads s = [G_unsubscribed, G_subscribed (Inr 9)]"
    "acquire_snapshot (gy_core s) = [5, 9]" "\<not> subscribed_at (gy_core s) 5" "subscribed_at (gy_core s) 9"
    by (auto simp: acquire_snapshot_def)
  note T = registry_threads_exact [OF s(1)]
  then have "{p. subscribed_at (gy_core s) p} = {9}" using s(3-5) by auto
  with T s show ?thesis by auto
qed

text \<open>The sections of a delivery, of an executor and of a stop are such uses of a subscriber.\<close>

lemma delivery_sections:
  "same_registration s (count_offered s)" "same_registration s (count_rejected s)" "same_registration s (snd (begin_invocation s))"
  "same_registration s (finish_counters elapsed s)" "same_registration s (snd (finish_section s))"
  "enqueue_isolated copyable c s = Some (res, s') \<Longrightarrow> same_registration s s'"
  "executor_next s = Some (x, s') \<Longrightarrow> same_registration s s'"
  by (auto simp: same_registration_def begin_invocation_def finish_counters_def finish_section_def enqueue_isolated_def
      executor_next_def cv_wait_def count_defs Let_def split: if_splits sum.splits)

section \<open>Calls that nobody overlaps\<close>

text \<open>With the writer mutex free and no failure, a thread that runs alone does what the operations of \<open>Registry\<close> do.\<close>

lemma move_alone:
  assumes "t < length (gy_threads s)" "gy_threads s ! t = pc" "registry_move None s pc = Some (pc', s')"
  shows "registry_step s (s'\<lparr>gy_threads := (gy_threads s)[t := pc']\<rparr>)"
  using assms by (auto intro: registry_step.move)

lemma subscribe_copies:
  assumes "t < length (gy_threads s)" "gy_threads s ! t = S_copying st rest new"
  shows "registry_step\<^sup>*\<^sup>* s
    (s\<lparr>gy_threads := (gy_threads s)[t := S_copying st [] (new @ filter (subscribed_at (gy_core s)) rest)]\<rparr>)"
  using assms
proof (induction rest arbitrary: s new)
  case Nil
  then have "s\<lparr>gy_threads := (gy_threads s)[t := S_copying st [] new]\<rparr> = s" by (metis list_update_id registry_threads.surjective registry_threads.update_convs(3))
  then show ?case by simp
next
  case (Cons p ps)
  let ?new = "if subscribed_at (gy_core s) p then new @ [p] else new"
  let ?s1 = "s\<lparr>gy_threads := (gy_threads s)[t := S_copying st ps ?new]\<rparr>"
  have "registry_step s ?s1" using move_alone [OF Cons.prems] by simp
  moreover have "registry_step\<^sup>*\<^sup>* ?s1 (?s1\<lparr>gy_threads := (gy_threads ?s1)
      [t := S_copying st [] (?new @ filter (subscribed_at (gy_core ?s1)) ps)]\<rparr>)"
    using Cons.prems by (intro Cons.IH) simp_all
  ultimately show ?case by (cases "subscribed_at (gy_core s) p") (simp_all add: converse_rtranclp_into_rtranclp)
qed

lemma subscribe_alone:
  assumes t: "t < length (gy_threads s)" "gy_threads s ! t = S_entering copyable callback_set options addr"
    and free: "\<not> gy_writer s" "rg_heap (gy_core s) addr = None"
    and seq: "rg_subscribe copyable callback_set options addr (gy_core s) = (res, r)"
  shows "\<exists>s'. registry_step\<^sup>*\<^sup>* s s' \<and> gy_threads s' ! t = G_subscribed res \<and> gy_core s' = r \<and> \<not> gy_writer s'"
proof (cases "\<exists>ident r1 st. callback_set \<and> allocate_id (gy_core s) = Inr (ident, r1) \<and>
    ss_new copyable addr ident options (rg_this r1) = Inr (st :: 'a subscriber_state)")
  case False
  then obtain r1 where "registry_move None s (S_entering copyable callback_set options addr) = Some (G_subscribed res, s\<lparr>gy_core := r1\<rparr>)"
    "r1 = r" using free seq by (auto simp: rg_subscribe_def core_subscribe_def split: if_splits sum.splits)
  with move_alone [OF t] t(1) free(1) show ?thesis
    by (intro exI [of _ "s\<lparr>gy_core := r, gy_threads := (gy_threads s)[t := G_subscribed res]\<rparr>"]) auto
next
  case True
  then obtain ident r1 and st :: "'a subscriber_state" where a: "callback_set" "allocate_id (gy_core s) = Inr (ident, r1)"
    "ss_new copyable addr ident options (rg_this r1) = Inr st" by blast
  let ?new = "filter (subscribed_at r1) (rg_current r1)"
  let ?s1 = "s\<lparr>gy_core := r1, gy_writer := True, gy_threads := (gy_threads s)[t := S_copying st (rg_current r1) []]\<rparr>"
  let ?s2 = "s\<lparr>gy_core := r1, gy_writer := True, gy_threads := (gy_threads s)[t := S_copying st [] ?new]\<rparr>"
  have own: "ss_this st = addr" using ss_new_fields [OF a(3)] by simp
  have r: "res = Inr addr" "r = r1\<lparr>rg_heap := (rg_heap r1)(addr \<mapsto> start_executor st), rg_current := ?new @ [addr]\<rparr>"
    using seq a by (simp_all add: rg_subscribe_def core_subscribe_def Let_def)
  have "registry_step s ?s1" using move_alone [OF t, of _ "s\<lparr>gy_core := r1, gy_writer := True\<rparr>"] a free by simp
  moreover have "registry_step\<^sup>*\<^sup>* ?s1 ?s2" using subscribe_copies [of t ?s1 st "rg_current r1" "[]"] t(1) by simp
  moreover have "registry_step ?s2
      (s\<lparr>gy_core := r, gy_writer := False, gy_tombstones := [], gy_threads := (gy_threads s)[t := G_subscribed res]\<rparr>)"
    using move_alone [of t ?s2 "S_copying st [] ?new"] t(1) r own by simp
  ultimately show ?thesis using t(1)
    by (intro exI [of _ "s\<lparr>gy_core := r, gy_writer := False, gy_tombstones := [], gy_threads := (gy_threads s)[t := G_subscribed res]\<rparr>"])
      auto
qed

lemma retire_copies:
  assumes "t < length (gy_threads s)" "gy_threads s ! t = U_copying p inside rest new"
  shows "registry_step\<^sup>*\<^sup>* s (s\<lparr>gy_threads := (gy_threads s)[t := U_copying p inside [] (new @
    filter (\<lambda>q. id_at (gy_core s) q \<noteq> id_at (gy_core s) p \<and> subscribed_at (gy_core s) q) rest)]\<rparr>)"
  using assms
proof (induction rest arbitrary: s new)
  case Nil
  then have "s\<lparr>gy_threads := (gy_threads s)[t := U_copying p inside [] new]\<rparr> = s" by (metis list_update_id registry_threads.surjective registry_threads.update_convs(3))
  then show ?case by simp
next
  case (Cons q qs)
  let ?keep = "\<lambda>q. id_at (gy_core s) q \<noteq> id_at (gy_core s) p \<and> subscribed_at (gy_core s) q"
  let ?s1 = "s\<lparr>gy_threads := (gy_threads s)[t := U_copying p inside qs (if ?keep q then new @ [q] else new)]\<rparr>"
  have "registry_step s ?s1" using move_alone [OF Cons.prems] by simp
  moreover have "registry_step\<^sup>*\<^sup>* ?s1 (?s1\<lparr>gy_threads := (gy_threads ?s1)
      [t := U_copying p inside [] ((if ?keep q then new @ [q] else new) @
        filter (\<lambda>q. id_at (gy_core ?s1) q \<noteq> id_at (gy_core ?s1) p \<and> subscribed_at (gy_core ?s1) q) qs)]\<rparr>)"
    using Cons.prems by (intro Cons.IH) simp_all
  ultimately show ?case by (cases "?keep q") (auto intro: converse_rtranclp_into_rtranclp)
qed

lemma retire_alone:
  assumes t: "t < length (gy_threads s)" "gy_threads s ! t = U_retiring p inside" and free: "\<not> gy_writer s"
  shows "\<exists>s'. registry_step\<^sup>*\<^sup>* s s' \<and> gy_threads s' ! t = U_stopping p inside \<and>
    gy_core s' = retire (id_at (gy_core s) p) (gy_core s) \<and> \<not> gy_writer s'"
proof (cases "list_ex (\<lambda>q. id_at (gy_core s) q = id_at (gy_core s) p) (rg_current (gy_core s))")
  case False
  with move_alone [OF t] t(1) free show ?thesis
    by (intro exI [of _ "s\<lparr>gy_threads := (gy_threads s)[t := U_stopping p inside]\<rparr>"]) (auto simp: retire_def)
next
  case True
  let ?r = "gy_core s"
  let ?new = "filter (\<lambda>q. id_at ?r q \<noteq> id_at ?r p \<and> subscribed_at ?r q) (rg_current ?r)"
  let ?s1 = "s\<lparr>gy_writer := True, gy_threads := (gy_threads s)[t := U_copying p inside (rg_current ?r) []]\<rparr>"
  let ?s2 = "s\<lparr>gy_writer := True, gy_threads := (gy_threads s)[t := U_copying p inside [] ?new]\<rparr>"
  let ?s3 = "s\<lparr>gy_core := ?r\<lparr>rg_current := ?new\<rparr>, gy_writer := False, gy_tombstones := [],
    gy_threads := (gy_threads s)[t := U_stopping p inside]\<rparr>"
  have "registry_step s ?s1" using move_alone [OF t, of _ "s\<lparr>gy_writer := True\<rparr>"] True free by simp
  moreover have "registry_step\<^sup>*\<^sup>* ?s1 ?s2" using retire_copies [of t ?s1 p inside "rg_current ?r" "[]"] t(1) by simp
  moreover have "registry_step ?s2 ?s3" using move_alone [of t ?s2 "U_copying p inside [] ?new"] t(1) by simp
  ultimately have "registry_step\<^sup>*\<^sup>* s ?s3" by (meson converse_rtranclp_into_rtranclp rtranclp.rtrancl_into_rtrancl)
  with True t(1) show ?thesis by (intro exI [of _ ?s3]) (simp add: retire_def)
qed

end
