(* ===== verification/Worker_Pool.thy ===== *)
theory Worker_Pool
  imports Prelude
begin

text \<open>
  \<open>worker_pool\<close> (\<open>execution/worker_pool.hpp\<close>, \<open>execution/worker_pool.cpp\<close>): a vector of \<open>std::jthread\<close>,
  each with its stop token, and the thread-local pointer by which a thread knows the pool it works
  for. A thread that has not finished yet keeps \<open>join\<close> waiting, which is the result \<open>None\<close>.
\<close>

record worker_thread =
  wt_joinable :: bool
  wt_stop_requested :: bool
  wt_finished :: bool

record worker_pool =
  wp_this :: nat
  wp_workers :: "worker_thread list"

definition wp_new :: "nat \<Rightarrow> worker_pool" where
  "wp_new this = \<lparr>wp_this = this, wp_workers = []\<rparr>"

text \<open>\<open>worker_scope\<close> sets the thread-local pointer for the time the worker function runs.\<close>

definition worker_scope :: "worker_pool \<Rightarrow> nat option \<Rightarrow> nat option" where
  "worker_scope pool previous = Some (wp_this pool)"

definition is_worker_thread :: "worker_pool \<Rightarrow> nat option \<Rightarrow> bool" where
  "is_worker_thread pool current_pool = (current_pool = Some (wp_this pool))"

definition fresh_worker :: worker_thread where
  "fresh_worker = \<lparr>wt_joinable = True, wt_stop_requested = False, wt_finished = False\<rparr>"

definition wp_start :: "size_t \<Rightarrow> bool \<Rightarrow> worker_pool \<Rightarrow> (exn + unit) \<times> worker_pool" where
  "wp_start worker_count worker_set pool =
     (if worker_count = 0 then (Inl (Invalid_argument ''worker_pool requires at least one worker''), pool)
      else if \<not> worker_set then (Inl (Invalid_argument ''worker_pool requires a worker function''), pool)
      else if wp_workers pool \<noteq> [] then (Inl (Logic_error ''worker_pool can only be started once''), pool)
      else (Inr (), foldl (\<lambda>p _. p\<lparr>wp_workers := wp_workers p @ [fresh_worker]\<rparr>) pool [0..<unat worker_count]))"

definition wp_request_stop :: "worker_pool \<Rightarrow> worker_pool" where
  "wp_request_stop pool =
     pool\<lparr>wp_workers := map (\<lambda>w. w\<lparr>wt_stop_requested := True\<rparr>) (wp_workers pool)\<rparr>"

fun join_all :: "worker_thread list \<Rightarrow> worker_thread list option" where
  "join_all [] = Some []"
| "join_all (w # ws) =
     (if wt_joinable w
      then (if wt_finished w then map_option (\<lambda>ws'. w\<lparr>wt_joinable := False\<rparr> # ws') (join_all ws) else None)
      else map_option (\<lambda>ws'. w # ws') (join_all ws))"

definition wp_join :: "nat option \<Rightarrow> worker_pool \<Rightarrow> ((exn + unit) \<times> worker_pool) option" where
  "wp_join current_pool pool =
     (if is_worker_thread pool current_pool
      then Some (Inl (Logic_error ''a worker cannot join its own worker_pool''), pool)
      else map_option (\<lambda>ws. (Inr (), pool\<lparr>wp_workers := ws\<rparr>)) (join_all (wp_workers pool)))"

definition wp_size :: "worker_pool \<Rightarrow> size_t" where
  "wp_size pool = of_nat (length (wp_workers pool))"

text \<open>The constructor that starts at once, and the destructor: \<open>std::terminate\<close> on a thread of the pool,
  otherwise a stop request and a join.\<close>

definition wp_new_started :: "nat \<Rightarrow> size_t \<Rightarrow> bool \<Rightarrow> (exn + unit) \<times> worker_pool" where
  "wp_new_started this worker_count worker_set = wp_start worker_count worker_set (wp_new this)"

datatype destruction = Destroyed worker_pool | Terminate

definition wp_destroy :: "nat option \<Rightarrow> worker_pool \<Rightarrow> destruction option" where
  "wp_destroy current_pool pool =
     (let pool1 = wp_request_stop pool in
      if is_worker_thread pool1 current_pool then Some Terminate
      else (case wp_join current_pool pool1 of
          None \<Rightarrow> None
        | Some (Inl x, _) \<Rightarrow> Some Terminate
        | Some (Inr _, pool2) \<Rightarrow> Some (Destroyed pool2)))"

lemma start_workers:
  "wp_workers (foldl (\<lambda>p _. p\<lparr>wp_workers := wp_workers p @ [w]\<rparr>) pool xs) =
   wp_workers pool @ replicate (length xs) w"
  "wp_this (foldl (\<lambda>p _. p\<lparr>wp_workers := wp_workers p @ [w]\<rparr>) pool xs) = wp_this pool"
  by (induction xs arbitrary: pool) (simp_all add: replicate_app_Cons_same)

lemma join_all_some: "\<forall>w \<in> set ws. wt_joinable w \<longrightarrow> wt_finished w \<Longrightarrow>
    join_all ws = Some (map (\<lambda>w. w\<lparr>wt_joinable := False\<rparr>) ws)"
  by (induction ws) auto

lemma join_all_none: "\<exists>w \<in> set ws. wt_joinable w \<and> \<not> wt_finished w \<Longrightarrow> join_all ws = None"
  by (induction ws) auto

text \<open>
  A pool starts exactly once: on a fresh pool a positive count and a function start that
  many joinable workers without a stop request, and \<open>size\<close> is the count; a zero count, an empty
  function and a second start throw and leave the pool as it was.
\<close>

lemma wp_start_once:
  "(case wp_start worker_count worker_set pool of
      (Inr _, pool') \<Rightarrow> worker_count \<noteq> 0 \<and> worker_set \<and> wp_workers pool = [] \<and>
        wp_workers pool' = replicate (unat worker_count) fresh_worker \<and> wp_size pool' = worker_count \<and>
        fst (wp_start n f pool') \<noteq> Inr ()
    | (Inl x, pool') \<Rightarrow> (worker_count = 0 \<or> \<not> worker_set \<or> wp_workers pool \<noteq> []) \<and> pool' = pool)"
proof (cases "worker_count = 0 \<or> \<not> worker_set \<or> wp_workers pool \<noteq> []")
  case True
  then show ?thesis by (auto simp: wp_start_def)
next
  case False
  then have "unat worker_count \<noteq> 0" by (simp add: unat_eq_zero)
  with False show ?thesis by (simp add: wp_start_def start_workers wp_size_def)
qed

text \<open>
  \<open>join\<close> and destruction. A worker of the pool cannot join it (it throws, and destruction
  terminates the program). From any other thread \<open>join\<close> returns exactly when every joinable worker
  has finished, and then none is joinable any more, so that joining again returns at once; destruction
  requests a stop of every worker before it waits.
\<close>

lemma wp_join_waits:
  "(if is_worker_thread pool current_pool
    then (\<exists>msg. wp_join current_pool pool = Some (Inl (Logic_error msg), pool)) \<and>
      wp_destroy current_pool pool = Some Terminate
    else if list_all (\<lambda>w. wt_joinable w \<longrightarrow> wt_finished w) (wp_workers pool)
    then wp_join current_pool pool =
        Some (Inr (), pool\<lparr>wp_workers := map (\<lambda>w. w\<lparr>wt_joinable := False\<rparr>) (wp_workers pool)\<rparr>) \<and>
      wp_destroy current_pool pool = Some (Destroyed (pool\<lparr>wp_workers :=
        map (\<lambda>w. w\<lparr>wt_joinable := False, wt_stop_requested := True\<rparr>) (wp_workers pool)\<rparr>))
    else wp_join current_pool pool = None \<and> wp_destroy current_pool pool = None)"
proof -
  have stop: "wp_workers (wp_request_stop pool) = map (\<lambda>w. w\<lparr>wt_stop_requested := True\<rparr>) (wp_workers pool)"
    "is_worker_thread (wp_request_stop pool) current_pool = is_worker_thread pool current_pool"
    by (simp_all add: wp_request_stop_def is_worker_thread_def)
  show ?thesis
  proof (cases "is_worker_thread pool current_pool")
    case True
    then show ?thesis by (simp add: wp_join_def wp_destroy_def Let_def stop)
  next
    case outside: False
    show ?thesis
    proof (cases "list_all (\<lambda>w. wt_joinable w \<longrightarrow> wt_finished w) (wp_workers pool)")
      case True
      then have "join_all (wp_workers pool) = Some (map (\<lambda>w. w\<lparr>wt_joinable := False\<rparr>) (wp_workers pool))"
        "join_all (wp_workers (wp_request_stop pool)) =
          Some (map (\<lambda>w. w\<lparr>wt_joinable := False\<rparr>) (wp_workers (wp_request_stop pool)))"
        using join_all_some [of "wp_workers pool"] join_all_some [of "wp_workers (wp_request_stop pool)"]
        by (simp_all add: list_all_iff stop)
      with outside True show ?thesis
        by (simp add: wp_join_def wp_destroy_def Let_def stop comp_def) (simp add: wp_request_stop_def)
    next
      case False
      then have "join_all (wp_workers pool) = None" "join_all (wp_workers (wp_request_stop pool)) = None"
        using join_all_none [of "wp_workers pool"] join_all_none [of "wp_workers (wp_request_stop pool)"]
        by (auto simp: list_all_iff stop)
      with outside False show ?thesis by (simp add: wp_join_def wp_destroy_def Let_def stop)
    qed
  qed
qed

end
