(* ===== verification/Dispatcher.thy ===== *)
theory Dispatcher
  imports Queue_Contract Registry Worker_Pool "HOL-Library.Monad_Syntax"
begin

text \<open>
  \<open>dispatcher\<close> (\<open>dispatcher.hpp\<close>) with its configuration (\<open>config.hpp\<close>, \<open>config.cpp\<close>), lifecycle
  (\<open>lifecycle.hpp\<close>), metrics (\<open>metrics.hpp\<close>) and batch results (\<open>batch_publish_result.hpp\<close>): the
  publishing operations, the worker loop, the broadcast of a batch to a snapshot of the registry, and
  \<open>shutdown\<close> by sections and as a whole. The queue is any policy \<open>P\<close>; the lemmas about the worker loop are proved
  once in the context of the queue contract and so hold for both queues.

  The functions here run one thread at a time. The interleaving of publishers, workers and shutdown
  is the subject of \<open>Dispatcher_Threads\<close>.
\<close>

section \<open>Configuration and state\<close>

datatype shutdown_policy = drain | discard

record dispatcher_config =
  dc_queue_capacity :: size_t
  dc_worker_count :: size_t
  dc_worker_batch_size :: size_t
  dc_shutdown :: shutdown_policy

definition default_config :: dispatcher_config where
  "default_config = \<lparr>dc_queue_capacity = 4096, dc_worker_count = 1, dc_worker_batch_size = 1,
     dc_shutdown = drain\<rparr>"

text \<open>\<open>detected\<close> is what \<open>std::thread::hardware_concurrency()\<close> returns, an \<open>unsigned int\<close>.\<close>

definition hardware_concurrency_defaults :: "32 word \<Rightarrow> dispatcher_config" where
  "hardware_concurrency_defaults detected =
     default_config\<lparr>dc_worker_count := if detected = 0 then 1 else ucast detected\<rparr>"

datatype lifecycle_state = created | running | drain_stopping | discard_stopping | lifecycle_stopped

record ('e, 'q) dispatcher =
  d_events :: 'q
  d_worker_batch_size :: size_t
  d_subscribers :: "'e registry_core"
  d_lifecycle :: lifecycle_state
  d_accepted :: uint64_t
  d_rejected :: uint64_t
  d_dropped :: uint64_t
  d_workers :: worker_pool
  d_shutdown_policy :: shutdown_policy

record dispatcher_metrics =
  dm_accepted :: uint64_t
  dm_rejected :: uint64_t
  dm_dropped :: uint64_t

definition d_metrics :: "('e, 'q) dispatcher \<Rightarrow> dispatcher_metrics" where
  "d_metrics d = \<lparr>dm_accepted = d_accepted d, dm_rejected = d_rejected d, dm_dropped = d_dropped d\<rparr>"

text \<open>\<open>make_state\<close> and the constructor of the shared state: two checks, then the queue, whose own
  constructor may throw. \<open>registry_this\<close> and \<open>pool_this\<close> are the addresses of the parts.\<close>

definition make_state ::
  "('e, 'q) queue_policy \<Rightarrow> dispatcher_config \<Rightarrow> nat \<Rightarrow> nat \<Rightarrow> exn + ('e, 'q) dispatcher" where
  "make_state P config registry_this pool_this =
     (if dc_worker_count config = 0
      then Inl (Invalid_argument ''dispatcher worker_count must be non-zero'')
      else if dc_worker_batch_size config = 0
      then Inl (Invalid_argument ''dispatcher worker_batch_size must be non-zero'')
      else (case qp_new P (dc_queue_capacity config) of
          Inl x \<Rightarrow> Inl x
        | Inr q \<Rightarrow> Inr \<lparr>d_events = q, d_worker_batch_size = dc_worker_batch_size config,
            d_subscribers = rg_new registry_this, d_lifecycle = created, d_accepted = 0,
            d_rejected = 0, d_dropped = 0, d_workers = wp_new pool_this,
            d_shutdown_policy = dc_shutdown config\<rparr>))"

definition dispatcher_new ::
  "('e, 'q) queue_policy \<Rightarrow> dispatcher_config \<Rightarrow> nat \<Rightarrow> nat \<Rightarrow> exn + ('e, 'q) dispatcher" where
  "dispatcher_new P config registry_this pool_this =
     (case make_state P config registry_this pool_this of
        Inl x \<Rightarrow> Inl x
      | Inr d \<Rightarrow> (case wp_start (dc_worker_count config) True (d_workers d) of
            (Inl x, _) \<Rightarrow> Inl x
          | (Inr _, pool) \<Rightarrow> Inr (d\<lparr>d_workers := pool, d_lifecycle := running\<rparr>)))"

definition dispatcher_subscribe ::
  "bool \<Rightarrow> bool \<Rightarrow> subscription_options \<Rightarrow> nat \<Rightarrow> ('e, 'q) dispatcher \<Rightarrow> (exn + nat) \<times> ('e, 'q) dispatcher" where
  "dispatcher_subscribe copyable callback_set options addr d =
     (if d_lifecycle d \<noteq> running
      then (Inl (Logic_error ''cannot subscribe after dispatcher shutdown begins''), d)
      else (case rg_subscribe copyable callback_set options addr (d_subscribers d) of
          (res, r) \<Rightarrow> (res, d\<lparr>d_subscribers := r\<rparr>)))"

definition d_worker_count :: "('e, 'q) dispatcher \<Rightarrow> size_t" where
  "d_worker_count d = wp_size (d_workers d)"

definition d_subscriber_count :: "('e, 'q) dispatcher \<Rightarrow> size_t" where
  "d_subscriber_count d = active_count (d_subscribers d)"

section \<open>Publishing\<close>

definition count_outcome :: "queue_status \<Rightarrow> ('e, 'q) dispatcher \<Rightarrow> ('e, 'q) dispatcher" where
  "count_outcome st d =
     (if st = success then d\<lparr>d_accepted := d_accepted d + 1\<rparr> else d\<lparr>d_rejected := d_rejected d + 1\<rparr>)"

text \<open>An exception of the operation passes through and no counter changes.\<close>

definition publish_with ::
  "('q \<Rightarrow> (push_out \<times> 'q) option) \<Rightarrow> ('e, 'q) dispatcher \<Rightarrow> (push_out \<times> ('e, 'q) dispatcher) option" where
  "publish_with operation d =
     (if d_lifecycle d \<noteq> running
      then Some ((Inr closed, False), d\<lparr>d_rejected := d_rejected d + 1\<rparr>)
      else do {
        ((result, consumed), q) \<leftarrow> operation (d_events d);
        let d1 = d\<lparr>d_events := q\<rparr>;
        Some ((result, consumed), case result of Inl _ \<Rightarrow> d1 | Inr st \<Rightarrow> count_outcome st d1)
      })"

definition try_publish ::
  "('e, 'q) queue_policy \<Rightarrow> exn + 'e \<Rightarrow> ('e, 'q) dispatcher \<Rightarrow> (push_out \<times> ('e, 'q) dispatcher) option" where
  "try_publish P c = publish_with (\<lambda>q. qp_try_push P q c)"

definition d_try_emplace ::
  "('e, 'q) queue_policy \<Rightarrow> exn + 'e \<Rightarrow> ('e, 'q) dispatcher \<Rightarrow> (push_out \<times> ('e, 'q) dispatcher) option" where
  "d_try_emplace P c = publish_with (\<lambda>q. qp_try_emplace P q c)"

definition publish ::
  "('e, 'q) queue_policy \<Rightarrow> exn + 'e \<Rightarrow> bool \<Rightarrow> ('e, 'q) dispatcher \<Rightarrow>
   (push_out \<times> ('e, 'q) dispatcher) option" where
  "publish P c stop = publish_with (\<lambda>q. qp_wait_push P q c stop)"

definition publish_until ::
  "('e, 'q) queue_policy \<Rightarrow> exn + 'e \<Rightarrow> bool \<Rightarrow> bool \<Rightarrow> ('e, 'q) dispatcher \<Rightarrow>
   (push_out \<times> ('e, 'q) dispatcher) option" where
  "publish_until P c stop expired = publish_with (\<lambda>q. qp_wait_push_until P q c stop expired)"

text \<open>The deadline is \<open>now + duration\<close>; \<open>later\<close> is the clock when the wait gives up or not.\<close>

definition publish_for ::
  "('e, 'q) queue_policy \<Rightarrow> exn + 'e \<Rightarrow> int \<Rightarrow> bool \<Rightarrow> int \<Rightarrow> int \<Rightarrow> ('e, 'q) dispatcher \<Rightarrow>
   (push_out \<times> ('e, 'q) dispatcher) option" where
  "publish_for P c duration stop now later =
     (let deadline = now + duration in publish_until P c stop (deadline \<le> later))"

record batch_publish_result =
  bp_requested :: size_t
  bp_accepted :: size_t
  bp_status :: queue_status

definition complete :: "batch_publish_result \<Rightarrow> bool" where
  "complete b = (bp_accepted b = bp_requested b \<and> bp_status b = success)"

fun publish_batch_loop ::
  "('e, 'q) queue_policy \<Rightarrow> size_t \<Rightarrow> (exn + 'e) list \<Rightarrow> size_t \<Rightarrow> ('e, 'q) dispatcher \<Rightarrow>
   ((exn + batch_publish_result) \<times> ('e, 'q) dispatcher) option" where
  "publish_batch_loop P requested [] accepted d =
     Some (Inr \<lparr>bp_requested = requested, bp_accepted = accepted, bp_status = success\<rparr>, d)"
| "publish_batch_loop P requested (c # cs) accepted d = (case try_publish P c d of
     None \<Rightarrow> None
   | Some ((Inl x, _), d1) \<Rightarrow> Some (Inl x, d1)
   | Some ((Inr st, _), d1) \<Rightarrow>
       if st \<noteq> success
       then Some (Inr \<lparr>bp_requested = requested, bp_accepted = accepted, bp_status = st\<rparr>, d1)
       else publish_batch_loop P requested cs (accepted + 1) d1)"

text \<open>The span of events, as the outcome of moving (never an exception) or copying each of them.\<close>

definition try_publish_batch ::
  "('e, 'q) queue_policy \<Rightarrow> (exn + 'e) list \<Rightarrow> ('e, 'q) dispatcher \<Rightarrow>
   ((exn + batch_publish_result) \<times> ('e, 'q) dispatcher) option" where
  "try_publish_batch P cs d = publish_batch_loop P (of_nat (length cs)) cs 0 d"

section \<open>The worker loop\<close>

text \<open>A worker fills its batch without waiting, up to the batch size.\<close>

function worker_fill ::
  "('e, 'q) queue_policy \<Rightarrow> size_t \<Rightarrow> 'e list \<Rightarrow> 'q \<Rightarrow> ('e list \<times> 'q) option" where
  "worker_fill P batch_size batch q =
     (if length batch < unat batch_size
      then (case qp_try_pop P q of
          None \<Rightarrow> None
        | Some (next, q') \<Rightarrow>
            if pr_status next \<noteq> success then Some (batch, q')
            else (case pop_value next of
                Inl x \<Rightarrow> None
              | Inr e \<Rightarrow> worker_fill P batch_size (batch @ [e]) q'))
      else Some (batch, q))"
  by pat_completeness auto
termination
  by (relation "measure (\<lambda>(P, batch_size, batch, q). unat batch_size - length batch)") auto

declare worker_fill.simps [simp del]

datatype 'e worker_turn = Worker_batch "'e list" | Worker_exit | Worker_again

definition worker_take ::
  "('e, 'q) queue_policy \<Rightarrow> size_t \<Rightarrow> bool \<Rightarrow> 'q \<Rightarrow> ('e worker_turn \<times> 'q) option" where
  "worker_take P batch_size stop q = do {
     (result, q1) \<leftarrow> qp_wait_pop P q stop;
     if pr_status result = success
     then (case pop_value result of
         Inl x \<Rightarrow> None
       | Inr e \<Rightarrow> do {
           (batch, q2) \<leftarrow> worker_fill P batch_size [e] q1;
           Some (Worker_batch batch, q2)
         })
     else if pr_status result = closed \<or> pr_status result = stopped then Some (Worker_exit, q1)
     else Some (Worker_again, q1)
   }"

text \<open>\<open>run\<close>, with the broadcast of a batch as a function on the rest of the world; \<open>None\<close> also when
  the worker parks.\<close>

partial_function (option) run ::
  "('e, 'q) queue_policy \<Rightarrow> size_t \<Rightarrow> ('e list \<Rightarrow> 'w \<Rightarrow> 'w option) \<Rightarrow> 'q \<Rightarrow> 'w \<Rightarrow> ('q \<times> 'w) option" where
  "run P batch_size broadcast q w = do {
     (turn, q1) \<leftarrow> worker_take P batch_size False q;
     case turn of
       Worker_exit \<Rightarrow> Some (q1, w)
     | Worker_again \<Rightarrow> run P batch_size broadcast q1 w
     | Worker_batch batch \<Rightarrow> do {
         w1 \<leftarrow> broadcast batch w;
         run P batch_size broadcast q1 w1
       }
   }"

section \<open>Broadcasting\<close>

text \<open>
  The two nested loops of \<open>broadcast_batch\<close>. An exception of a delivery goes to \<open>report_error\<close>, and the
  loop goes on; the list collects what was reported. \<open>copies\<close> is the outcome of copying an event into
  the mailbox of an isolated subscriber.
\<close>

fun broadcast_event ::
  "bool \<Rightarrow> 'e callbacks \<Rightarrow> int \<Rightarrow> (nat \<Rightarrow> 'e \<Rightarrow> exn + 'e) \<Rightarrow> 'e \<Rightarrow> nat list \<Rightarrow> exn list \<times> 'e registry_core \<Rightarrow>
   (exn list \<times> 'e registry_core) option" where
  "broadcast_event copyable callbacks elapsed copies event [] (errors, r) = Some (errors, r)"
| "broadcast_event copyable callbacks elapsed copies event (p # ps) (errors, r) =
     (case deliver_to copyable callbacks elapsed [] event (copies p event) p r of
        None \<Rightarrow> None
      | Some (Inl x, r') \<Rightarrow> broadcast_event copyable callbacks elapsed copies event ps (errors @ [x], r')
      | Some (Inr _, r') \<Rightarrow> broadcast_event copyable callbacks elapsed copies event ps (errors, r'))"

fun broadcast_events ::
  "bool \<Rightarrow> 'e callbacks \<Rightarrow> int \<Rightarrow> (nat \<Rightarrow> 'e \<Rightarrow> exn + 'e) \<Rightarrow> nat list \<Rightarrow> 'e list \<Rightarrow> exn list \<times> 'e registry_core \<Rightarrow>
   (exn list \<times> 'e registry_core) option" where
  "broadcast_events copyable callbacks elapsed copies snapshot [] w = Some w"
| "broadcast_events copyable callbacks elapsed copies snapshot (e # es) w =
     (case broadcast_event copyable callbacks elapsed copies e snapshot w of
        None \<Rightarrow> None
      | Some w' \<Rightarrow> broadcast_events copyable callbacks elapsed copies snapshot es w')"

definition broadcast_batch ::
  "bool \<Rightarrow> 'e callbacks \<Rightarrow> int \<Rightarrow> (nat \<Rightarrow> 'e \<Rightarrow> exn + 'e) \<Rightarrow> 'e list \<Rightarrow> 'e registry_core \<Rightarrow>
   (exn list \<times> 'e registry_core) option" where
  "broadcast_batch copyable callbacks elapsed copies batch r =
     broadcast_events copyable callbacks elapsed copies (acquire_snapshot r) batch ([], r)"

section \<open>The sections of shutdown\<close>

datatype shutdown_action = Shutdown_return | Shutdown_wait | Shutdown_proceed

definition shutdown_begin ::
  "shutdown_policy \<Rightarrow> nat option \<Rightarrow> invocation_context list \<Rightarrow> ('e, 'q) dispatcher \<Rightarrow>
   (exn + shutdown_action) \<times> ('e, 'q) dispatcher" where
  "shutdown_begin policy current_pool chain d =
     (if is_worker_thread (d_workers d) current_pool \<or>
         callback_active_on_this_thread (d_subscribers d) chain
      then (Inl (Logic_error ''dispatcher shutdown cannot run inside its callback''), d)
      else if d_lifecycle d = lifecycle_stopped then (Inr Shutdown_return, d)
      else if d_lifecycle d = drain_stopping \<or> d_lifecycle d = discard_stopping
      then (Inr Shutdown_wait, d)
      else (Inr Shutdown_proceed,
            d\<lparr>d_lifecycle := if policy = drain then drain_stopping else discard_stopping\<rparr>))"

text \<open>Closing the queue; a discard also counts the events it destroyed and stops the mailboxes.\<close>

definition shutdown_close ::
  "('e, 'q) queue_policy \<Rightarrow> 'e callbacks \<Rightarrow> int \<Rightarrow> shutdown_policy \<Rightarrow> ('e, 'q) dispatcher \<Rightarrow>
   ('e, 'q) dispatcher option" where
  "shutdown_close P callbacks elapsed policy d = (case policy of
       drain \<Rightarrow> do { q \<leftarrow> qp_close P (d_events d); Some (d\<lparr>d_events := q\<rparr>) }
     | discard \<Rightarrow> do {
         (discarded, q) \<leftarrow> qp_close_and_discard P (d_events d);
         let d1 = d\<lparr>d_events := q, d_dropped := d_dropped d + discarded\<rparr>;
         r \<leftarrow> rg_stop_delivery callbacks elapsed False (d_subscribers d1);
         Some (d1\<lparr>d_subscribers := r\<rparr>)
       })"

text \<open>After the join of the workers: a drain stops the mailboxes now, and the lifecycle ends.\<close>

definition shutdown_finish ::
  "'e callbacks \<Rightarrow> int \<Rightarrow> shutdown_policy \<Rightarrow> ('e, 'q) dispatcher \<Rightarrow> ('e, 'q) dispatcher option" where
  "shutdown_finish callbacks elapsed policy d = do {
     r \<leftarrow> (if policy = drain then rg_stop_delivery callbacks elapsed True (d_subscribers d)
           else Some (d_subscribers d));
     Some (d\<lparr>d_subscribers := r, d_lifecycle := lifecycle_stopped\<rparr>)
   }"

text \<open>
  \<open>shutdown\<close> as a whole, and the destructor, when no other thread publishes or stops: the workers that
  it joins run to the end of their loops, one after the other. The result also has the exceptions that
  \<open>broadcast_batch\<close> gave to \<open>report_error\<close>. \<open>None\<close> is a wait for another thread's shutdown; a \<open>Terminate\<close> of the destructor
  is \<open>std::terminate\<close>.
\<close>

fun run_workers ::
  "('e, 'q) queue_policy \<Rightarrow> size_t \<Rightarrow> ('e list \<Rightarrow> 'w \<Rightarrow> 'w option) \<Rightarrow> nat \<Rightarrow> 'q \<Rightarrow> 'w \<Rightarrow> ('q \<times> 'w) option" where
  "run_workers P batch_size broadcast 0 q w = Some (q, w)"
| "run_workers P batch_size broadcast (Suc n) q w = do {
     (q1, w1) \<leftarrow> run P batch_size broadcast q w;
     run_workers P batch_size broadcast n q1 w1
   }"

definition broadcast_reporting ::
  "bool \<Rightarrow> 'e callbacks \<Rightarrow> int \<Rightarrow> (nat \<Rightarrow> 'e \<Rightarrow> exn + 'e) \<Rightarrow> 'e list \<Rightarrow> exn list \<times> 'e registry_core \<Rightarrow>
   (exn list \<times> 'e registry_core) option" where
  "broadcast_reporting copyable callbacks elapsed copies batch w = do {
     (errors, r) \<leftarrow> broadcast_batch copyable callbacks elapsed copies batch (snd w);
     Some (fst w @ errors, r)
   }"

definition finish_workers :: "worker_pool \<Rightarrow> worker_pool" where
  "finish_workers pool = pool\<lparr>wp_workers := map (\<lambda>w. w\<lparr>wt_finished := True\<rparr>) (wp_workers pool)\<rparr>"

definition shutdown ::
  "('e, 'q) queue_policy \<Rightarrow> bool \<Rightarrow> 'e callbacks \<Rightarrow> int \<Rightarrow> (nat \<Rightarrow> 'e \<Rightarrow> exn + 'e) \<Rightarrow> shutdown_policy \<Rightarrow>
   nat option \<Rightarrow> invocation_context list \<Rightarrow> ('e, 'q) dispatcher \<Rightarrow>
   ((exn + exn list) \<times> ('e, 'q) dispatcher) option" where
  "shutdown P copyable callbacks elapsed copies policy current_pool chain d =
     (case shutdown_begin policy current_pool chain d of
        (Inl x, d1) \<Rightarrow> Some (Inl x, d1)
      | (Inr Shutdown_return, d1) \<Rightarrow> Some (Inr [], d1)
      | (Inr Shutdown_wait, d1) \<Rightarrow> None
      | (Inr Shutdown_proceed, d1) \<Rightarrow> do {
          d2 \<leftarrow> shutdown_close P callbacks elapsed policy d1;
          (q, errors, r) \<leftarrow> run_workers P (d_worker_batch_size d2)
            (broadcast_reporting copyable callbacks elapsed copies) (length (wp_workers (d_workers d2)))
            (d_events d2) ([], d_subscribers d2);
          (joined, pool) \<leftarrow> wp_join current_pool (finish_workers (d_workers d2));
          case joined of
            Inl x \<Rightarrow> Some (Inl x, d2\<lparr>d_events := q, d_subscribers := r\<rparr>)
          | Inr _ \<Rightarrow> do {
              d3 \<leftarrow> shutdown_finish callbacks elapsed policy
                (d2\<lparr>d_events := q, d_subscribers := r, d_workers := pool\<rparr>);
              Some (Inr errors, d3)
            }
        })"

definition dispatcher_destroy ::
  "('e, 'q) queue_policy \<Rightarrow> bool \<Rightarrow> 'e callbacks \<Rightarrow> int \<Rightarrow> (nat \<Rightarrow> 'e \<Rightarrow> exn + 'e) \<Rightarrow> nat option \<Rightarrow>
   invocation_context list \<Rightarrow> ('e, 'q) dispatcher \<Rightarrow> (exn list \<times> ('e, 'q) dispatcher) option option" where
  "dispatcher_destroy P copyable callbacks elapsed copies current_pool chain d =
     (case shutdown P copyable callbacks elapsed copies (d_shutdown_policy d) current_pool chain d of
        None \<Rightarrow> None
      | Some (Inl x, d') \<Rightarrow> Some None
      | Some (Inr errors, d') \<Rightarrow> Some (Some (errors, d')))"

section \<open>The worker loop on a queue that meets the contract\<close>

text \<open>How many of \<open>n\<close> events an abstract queue takes one after the other.\<close>

definition batch_room :: "'e aqueue \<Rightarrow> nat \<Rightarrow> nat" where
  "batch_room a n = (if aq_closed a then 0 else min n (aq_cap a - length (aq_items a)))"

text \<open>Broadcasting batches one after the other.\<close>

fun broadcast_all :: "('e list \<Rightarrow> 'w \<Rightarrow> 'w option) \<Rightarrow> 'e list list \<Rightarrow> 'w \<Rightarrow> 'w option" where
  "broadcast_all broadcast [] w = Some w"
| "broadcast_all broadcast (batch # batches) w = do { w1 \<leftarrow> broadcast batch w; broadcast_all broadcast batches w1 }"

lemma broadcast_all_total:
  "broadcast_all (\<lambda>batch w. Some (f batch w)) batches w = Some (foldl (\<lambda>w batch. f batch w) w batches)"
  by (induction batches arbitrary: w) simp_all

text \<open>What the dispatcher needs of its queue policy is the queue contract.\<close>

locale dispatcher_queue = concurrent_queue P abs inv
  for P :: "('e, 'q) queue_policy" and abs :: "'q \<Rightarrow> 'e aqueue" and inv :: "'q \<Rightarrow> bool"
begin

text \<open>The fill loop takes the next events in order, up to the batch size or the end of the queue.\<close>

lemma worker_fill_ok:
  assumes "inv q"
  shows "\<exists>q'. worker_fill P batch_size batch q =
      Some (batch @ take (unat batch_size - length batch) (aq_items (abs q)), q') \<and> inv q' \<and>
    abs q' = (abs q)\<lparr>aq_items := drop (unat batch_size - length batch) (aq_items (abs q))\<rparr>"
  using assms
proof (induction "unat batch_size - length batch" arbitrary: batch q)
  case 0
  then show ?case by (intro exI [of _ q]) (simp add: worker_fill.simps [of P])
next
  case (Suc n)
  then have lt: "length batch < unat batch_size" by simp
  obtain p q1 where q1: "qp_try_pop P q = Some (p, q1)" "inv q1" "(p, abs q1) = spec_try_pop (abs q)"
    using try_pop_cases [OF Suc.prems] .
  show ?case
  proof (cases "aq_items (abs q)")
    case Nil
    with q1 lt show ?thesis by (auto simp: worker_fill.simps [of P batch_size batch] spec_try_pop_def)
  next
    case (Cons e es)
    then have p: "p = pop_success e" "abs q1 = (abs q)\<lparr>aq_items := es\<rparr>"
      using q1(3) by (simp_all add: spec_try_pop_def)
    have step: "worker_fill P batch_size batch q = worker_fill P batch_size (batch @ [e]) q1"
      using q1(1) p(1) lt by (simp add: worker_fill.simps [of P batch_size batch])
    have n: "n = unat batch_size - length (batch @ [e])" using Suc.hyps(2) by simp
    from Suc.hyps(1) [OF n q1(2)] p(2) Cons Suc.hyps(2) [symmetric] n show ?thesis
      unfolding step by auto
  qed
qed

lemma worker_take_batch:
  assumes "inv q" "aq_items (abs q) = e # es" "batch_size \<noteq> 0"
  shows "\<exists>q'. worker_take P batch_size stop q =
      Some (Worker_batch (take (unat batch_size) (aq_items (abs q))), q') \<and> inv q' \<and>
    abs q' = (abs q)\<lparr>aq_items := drop (unat batch_size) (aq_items (abs q))\<rparr>"
proof -
  obtain p q1 where q1: "qp_wait_pop P q stop = Some (p, q1)"
    using wait_pop_ref [OF assms(1), of stop] assms(2) by (auto simp: spec_wait_pop_def)
  then have w: "inv q1" "p = pop_success e" "abs q1 = (abs q)\<lparr>aq_items := es\<rparr>"
    using wait_pop_abs [OF assms(1) q1] assms(2) by (auto simp: spec_wait_pop_def)
  obtain m where m: "unat batch_size = Suc m"
    using assms(3) by (metis not0_implies_Suc unat_eq_zero)
  obtain q2 where "worker_fill P batch_size [e] q1 = Some ([e] @ take m es, q2)" "inv q2"
    "abs q2 = (abs q)\<lparr>aq_items := drop m es\<rparr>"
    using worker_fill_ok [OF w(1), of batch_size "[e]"] w(3) m by auto
  then show ?thesis using q1 w(2) assms(2) m by (simp add: worker_take_def)
qed

lemma worker_take_exit:
  assumes "inv q" "aq_items (abs q) = []" "aq_closed (abs q)"
  shows "\<exists>q'. worker_take P batch_size stop q = Some (Worker_exit, q') \<and> inv q' \<and> abs q' = abs q"
proof -
  obtain p q1 where q1: "qp_wait_pop P q stop = Some (p, q1)"
    using wait_pop_ref [OF assms(1), of stop] assms(2,3) by (auto simp: spec_wait_pop_def)
  then show ?thesis
    using wait_pop_abs [OF assms(1) q1] assms(2,3) by (auto simp: worker_take_def spec_wait_pop_def)
qed

text \<open>On a closed queue the worker loop returns after it broadcast every queued event, in order, in
  batches of at most the batch size, whatever the broadcast does as long as it returns.\<close>

lemma run_drains_with:
  assumes "inv q" "aq_closed (abs q)" "batch_size \<noteq> 0" "good w"
    and returns: "\<And>batch w. good w \<Longrightarrow> \<exists>w'. broadcast batch w = Some w' \<and> good w'"
  shows "\<exists>q' batches w'. run P batch_size broadcast q w = Some (q', w') \<and>
    broadcast_all broadcast batches w = Some w' \<and> good w' \<and> inv q' \<and> abs q' = (abs q)\<lparr>aq_items := []\<rparr> \<and>
    concat batches = aq_items (abs q) \<and> (\<forall>batch \<in> set batches. batch \<noteq> [] \<and> length batch \<le> unat batch_size)"
  using assms(1-4)
proof (induction "length (aq_items (abs q))" arbitrary: q w rule: less_induct)
  case less
  show ?case
  proof (cases "aq_items (abs q)")
    case Nil
    obtain q' where "worker_take P batch_size False q = Some (Worker_exit, q')" "inv q'" "abs q' = abs q"
      using worker_take_exit [OF less.prems(1) Nil less.prems(2)] by blast
    then show ?thesis
      using Nil less.prems(4)
      by (intro exI [of _ q'] exI [of _ "[]"] exI [of _ w]) (simp add: run.simps [of P batch_size _ q])
  next
    case (Cons e es)
    let ?batch = "take (unat batch_size) (aq_items (abs q))"
    obtain q1 where q1: "worker_take P batch_size False q = Some (Worker_batch ?batch, q1)" "inv q1"
      "abs q1 = (abs q)\<lparr>aq_items := drop (unat batch_size) (aq_items (abs q))\<rparr>"
      using worker_take_batch [OF less.prems(1) Cons less.prems(3)] by blast
    obtain w1 where w1: "broadcast ?batch w = Some w1" "good w1" using returns [OF less.prems(4)] by blast
    have pos: "0 < unat batch_size" using less.prems(3) by (simp add: unat_pos_iff)
    have "length (aq_items (abs q1)) < length (aq_items (abs q))" using q1(3) Cons pos by simp
    from less.hyps [OF this q1(2) _ less.prems(3) w1(2)] less.prems(2) q1(3)
    obtain q' batches w' where IH:
      "run P batch_size broadcast q1 w1 = Some (q', w')" "broadcast_all broadcast batches w1 = Some w'" "good w'"
      "inv q'" "abs q' = (abs q)\<lparr>aq_items := []\<rparr>" "concat batches = drop (unat batch_size) (aq_items (abs q))"
      "\<forall>batch \<in> set batches. batch \<noteq> [] \<and> length batch \<le> unat batch_size"
      by auto
    have "run P batch_size broadcast q w = Some (q', w')"
      using q1(1) IH(1) w1(1) by (simp add: run.simps [of P batch_size _ q])
    with IH(2-) Cons pos w1(1) show ?thesis
      by (intro exI [of _ q'] exI [of _ "?batch # batches"] exI [of _ w']) simp
  qed
qed

lemma run_drains:
  assumes "inv q" "aq_closed (abs q)" "batch_size \<noteq> 0"
  shows "\<exists>q' batches. run P batch_size (\<lambda>batch w. Some (broadcast batch w)) q w =
      Some (q', foldl (\<lambda>w batch. broadcast batch w) w batches) \<and> inv q' \<and>
    aq_items (abs q') = [] \<and> concat batches = aq_items (abs q) \<and>
    (\<forall>batch \<in> set batches. batch \<noteq> [] \<and> length batch \<le> unat batch_size)"
  using run_drains_with [OF assms, of "\<lambda>_. True" w "\<lambda>batch w. Some (broadcast batch w)"]
  by (auto simp: broadcast_all_total)

text \<open>All workers of the pool, one after the other: the first finds everything.\<close>

lemma run_workers_drains:
  assumes "inv q" "aq_closed (abs q)" "batch_size \<noteq> 0" "good w"
    and returns: "\<And>batch w. good w \<Longrightarrow> \<exists>w'. broadcast batch w = Some w' \<and> good w'"
  shows "\<exists>q' batches w'. run_workers P batch_size broadcast (Suc n) q w = Some (q', w') \<and>
    broadcast_all broadcast batches w = Some w' \<and> good w' \<and> inv q' \<and> abs q' = (abs q)\<lparr>aq_items := []\<rparr> \<and>
    concat batches = aq_items (abs q)"
proof -
  obtain q1 batches w1 where 1: "run P batch_size broadcast q w = Some (q1, w1)"
    "broadcast_all broadcast batches w = Some w1" "good w1" "inv q1" "abs q1 = (abs q)\<lparr>aq_items := []\<rparr>"
    "concat batches = aq_items (abs q)"
    using run_drains_with [of q batch_size good w broadcast, OF assms(1-4) returns] by blast
  have "\<exists>q'. run_workers P batch_size broadcast m q1 w1 = Some (q', w1) \<and> inv q' \<and> abs q' = abs q1"
    if "inv q1" "aq_closed (abs q1)" "aq_items (abs q1) = []" for m q1
    using that
  proof (induction m arbitrary: q1)
    case (Suc m)
    obtain q2 where "worker_take P batch_size False q1 = Some (Worker_exit, q2)" "inv q2" "abs q2 = abs q1"
      using worker_take_exit [OF Suc.prems(1,3,2)] by blast
    with Suc.IH [of q2] Suc.prems show ?case by (auto simp: run.simps [of P batch_size _ q1])
  qed simp
  from this [of q1 n] 1 assms(2) obtain q' where "run_workers P batch_size broadcast n q1 w1 = Some (q', w1)"
    "inv q'" "abs q' = abs q1" by auto
  with 1 show ?thesis by (intro exI [of _ q'] exI [of _ batches] exI [of _ w1]) simp
qed

text \<open>A batch publication accepts a prefix: as many events as there is room for.\<close>

lemma publish_batch_ok:
  assumes "inv (d_events d)" "d_lifecycle d = running"
  shows "\<exists>d'. publish_batch_loop P requested (map Inr es) accepted d =
      Some (Inr \<lparr>bp_requested = requested,
        bp_accepted = accepted + of_nat (batch_room (abs (d_events d)) (length es)),
        bp_status = if batch_room (abs (d_events d)) (length es) = length es then success
          else if aq_closed (abs (d_events d)) then closed else full\<rparr>, d') \<and>
    inv (d_events d') \<and> abs (d_events d') = (abs (d_events d))\<lparr>aq_items :=
      aq_items (abs (d_events d)) @ take (batch_room (abs (d_events d)) (length es)) es\<rparr> \<and>
    d_accepted d' = d_accepted d + of_nat (batch_room (abs (d_events d)) (length es)) \<and>
    d_rejected d' = d_rejected d + of_bool (batch_room (abs (d_events d)) (length es) \<noteq> length es)"
  using assms
proof (induction es arbitrary: d accepted)
  case Nil
  then show ?case by (simp add: batch_room_def)
next
  case (Cons e es)
  let ?a = "abs (d_events d)"
  obtain r q1 where q1: "qp_try_push P (d_events d) (Inr e) = Some (r, q1)" "inv q1"
    "(r, abs q1) = spec_try_push ?a (Inr e)"
    using try_push_cases [OF Cons.prems(1), of "Inr e"] .
  have le: "length (aq_items ?a) \<le> aq_cap ?a" using abs_ok [OF Cons.prems(1)] by (simp add: aqueue_ok_def)
  show ?case
  proof (cases "aq_closed ?a \<or> length (aq_items ?a) = aq_cap ?a")
    case True
    then have "r = (Inr (if aq_closed ?a then closed else full), False)" "abs q1 = ?a"
      using q1(3) by (auto simp: spec_try_push_def split: if_splits)
    with True q1(1,2) Cons.prems(2) show ?thesis
      by (auto simp: try_publish_def publish_with_def count_outcome_def batch_room_def)
  next
    case False
    then have r: "r = (Inr success, True)" "abs q1 = ?a\<lparr>aq_items := aq_items ?a @ [e]\<rparr>"
      using q1(3) by (auto simp: spec_try_push_def spec_push_now_def)
    let ?d = "d\<lparr>d_events := q1, d_accepted := d_accepted d + 1\<rparr>"
    have step: "publish_batch_loop P requested (map Inr (e # es)) accepted d =
        publish_batch_loop P requested (map Inr es) (accepted + 1) ?d"
      using q1(1) r(1) Cons.prems(2) by (simp add: try_publish_def publish_with_def count_outcome_def)
    have "length (aq_items ?a) < aq_cap ?a" using False le by simp
    then have room: "batch_room ?a (Suc (length es)) = Suc (batch_room (abs q1) (length es))"
      using False r(2) by (simp add: batch_room_def min_def Suc_diff_Suc) linarith
    define n where "n = batch_room (abs q1) (length es)"
    obtain d' where d': "publish_batch_loop P requested (map Inr es) (accepted + 1) ?d =
        Some (Inr \<lparr>bp_requested = requested, bp_accepted = accepted + 1 + of_nat n,
          bp_status = if n = length es then success else if aq_closed (abs q1) then closed else full\<rparr>, d')"
      "inv (d_events d')" "abs (d_events d') = (abs q1)\<lparr>aq_items := aq_items (abs q1) @ take n es\<rparr>"
      "d_accepted d' = d_accepted d + 1 + of_nat n" "d_rejected d' = d_rejected d + of_bool (n \<noteq> length es)"
      using Cons.IH [of ?d "accepted + 1"] q1(2) Cons.prems(2) by (auto simp: n_def)
    have "batch_room ?a (length (e # es)) = Suc n" using room by (simp add: n_def)
    moreover have "aq_closed (abs q1) = aq_closed ?a" using r(2) by simp
    ultimately show ?thesis
      unfolding step using d' r(2) by (intro exI [of _ d']) (simp add: add.assoc)
  qed
qed

end

section \<open>Publishing: outcomes and counters\<close>

text \<open>
  Every publishing operation, whatever queue it runs on, counts exactly one outcome:
  accepted for \<open>success\<close>, rejected for every other status, and nothing when the construction of the
  event throws, which propagates. Outside the running state it returns \<open>closed\<close> without touching the
  queue or the event.
\<close>

lemma publish_with_counts:
  assumes "publish_with operation d = Some ((result, consumed), d')"
  shows "d_accepted d' = d_accepted d + of_bool (result = Inr success) \<and>
    d_rejected d' = d_rejected d + of_bool (\<exists>st. result = Inr st \<and> st \<noteq> success) \<and>
    d_dropped d' = d_dropped d \<and> d_lifecycle d' = d_lifecycle d \<and>
    (d_lifecycle d \<noteq> running \<longrightarrow> result = Inr closed \<and> \<not> consumed \<and> d_events d' = d_events d) \<and>
    (d_lifecycle d = running \<longrightarrow> operation (d_events d) = Some ((result, consumed), d_events d'))"
proof (cases "d_lifecycle d = running")
  case True
  with assms obtain q where q: "operation (d_events d) = Some ((result, consumed), q)"
    "d' = (case result of Inl _ \<Rightarrow> d\<lparr>d_events := q\<rparr> | Inr st \<Rightarrow> count_outcome st (d\<lparr>d_events := q\<rparr>))"
    by (auto simp: publish_with_def Let_def split: Option.bind_splits)
  with True show ?thesis by (cases result) (auto simp: count_outcome_def)
next
  case False
  with assms show ?thesis by (auto simp: publish_with_def)
qed

definition example_dispatcher :: "(nat, nat list) dispatcher" where
  "example_dispatcher = \<lparr>d_events = [], d_worker_batch_size = 2, d_subscribers = rg_new 1,
     d_lifecycle = running, d_accepted = 0, d_rejected = 0, d_dropped = 0, d_workers = wp_new 2,
     d_shutdown_policy = drain\<rparr>"

text \<open>
  Construction: a dispatcher is built exactly when the worker count and the batch size are
  positive and the queue accepts the capacity. Then it is running, with that many joinable workers, no
  subscriber, an empty set of counters and the queue as its constructor made it; otherwise the
  exception of the first failed check propagates.
\<close>

lemma dispatcher_new_outcome:
  "(case dispatcher_new P config registry_this pool_this of
      Inr d \<Rightarrow> dc_worker_count config \<noteq> 0 \<and> dc_worker_batch_size config \<noteq> 0 \<and>
        qp_new P (dc_queue_capacity config) = Inr (d_events d) \<and> d_lifecycle d = running \<and>
        d_worker_count d = dc_worker_count config \<and> d_worker_batch_size d = dc_worker_batch_size config \<and>
        d_subscriber_count d = 0 \<and> d_metrics d = \<lparr>dm_accepted = 0, dm_rejected = 0, dm_dropped = 0\<rparr> \<and>
        d_shutdown_policy d = dc_shutdown config
    | Inl x \<Rightarrow> (if dc_worker_count config = 0
        then x = Invalid_argument ''dispatcher worker_count must be non-zero''
        else if dc_worker_batch_size config = 0
        then x = Invalid_argument ''dispatcher worker_batch_size must be non-zero''
        else qp_new P (dc_queue_capacity config) = Inl x))"
  by (auto simp: dispatcher_new_def make_state_def wp_start_def wp_new_def start_workers wp_size_def
      d_worker_count_def d_subscriber_count_def d_metrics_def active_count_def acquire_snapshot_def
      rg_new_def split: sum.splits)

text \<open>
  \<open>shutdown\<close> inside a worker or inside a callback of this dispatcher throws and changes
  nothing; otherwise it acts by the lifecycle: it returns at once when stopped, waits when another
  thread is stopping, and exactly one caller takes the transition out of the running state.
\<close>

lemma shutdown_begin_cases:
  "(let inside = (is_worker_thread (d_workers d) current_pool \<or>
        callback_active_on_this_thread (d_subscribers d) chain)
    in case shutdown_begin policy current_pool chain d of
      (Inl x, d') \<Rightarrow> inside \<and> d' = d \<and>
        x = Logic_error ''dispatcher shutdown cannot run inside its callback''
    | (Inr act, d') \<Rightarrow> \<not> inside \<and>
        (case act of
           Shutdown_return \<Rightarrow> d_lifecycle d = lifecycle_stopped \<and> d' = d
         | Shutdown_wait \<Rightarrow> d_lifecycle d \<in> {drain_stopping, discard_stopping} \<and> d' = d
         | Shutdown_proceed \<Rightarrow> d_lifecycle d \<in> {created, running} \<and>
             d_lifecycle d' = (if policy = drain then drain_stopping else discard_stopping) \<and>
             d' = d\<lparr>d_lifecycle := d_lifecycle d'\<rparr> \<and>
             fst (shutdown_begin policy' None [] d') = Inr Shutdown_wait))"
  by (cases "d_lifecycle d")
    (auto simp: shutdown_begin_def Let_def is_worker_thread_def callback_active_on_this_thread_def)

section \<open>Broadcasting to a snapshot\<close>

text \<open>The exceptions that one event raises along a snapshot, in the order of the subscribers.\<close>

definition callback_errors ::
  "'e callbacks \<Rightarrow> 'e registry_core \<Rightarrow> nat list \<Rightarrow> 'e \<Rightarrow> exn list" where
  "callback_errors callbacks r ps e = List.map_filter (\<lambda>p. case rg_heap r p of
       None \<Rightarrow> None
     | Some s \<Rightarrow> if ss_active s then callbacks p (enter_scope s []) e else None) ps"

text \<open>A direct subscriber, and what deliveries keep of it.\<close>

definition direct_at :: "'e registry_core \<Rightarrow> nat \<Rightarrow> bool" where
  "direct_at r p = (case rg_heap r p of None \<Rightarrow> False | Some s \<Rightarrow> \<not> is_isolated s)"

definition same_subscriber :: "'e subscriber_state \<Rightarrow> 'e subscriber_state \<Rightarrow> bool" where
  "same_subscriber s s' = (ss_active s' = ss_active s \<and> ss_options s' = ss_options s \<and>
     ss_this s' = ss_this s \<and> ss_owner_tag s' = ss_owner_tag s \<and> ss_in_flight s' = ss_in_flight s)"

definition same_heap :: "'e registry_core \<Rightarrow> 'e registry_core \<Rightarrow> bool" where
  "same_heap r r' = (rg_current r' = rg_current r \<and>
     (\<forall>p. rel_option same_subscriber (rg_heap r p) (rg_heap r' p)))"

definition offered_at :: "'e registry_core \<Rightarrow> nat \<Rightarrow> uint64_t" where
  "offered_at r p = (case rg_heap r p of None \<Rightarrow> 0 | Some s \<Rightarrow> sm_offered (ss_metrics s))"

definition delivered_at :: "'e registry_core \<Rightarrow> nat \<Rightarrow> uint64_t" where
  "delivered_at r p = (case rg_heap r p of None \<Rightarrow> 0 | Some s \<Rightarrow> sm_delivered (ss_metrics s))"

lemma same_heap_refl: "same_heap r r"
  by (simp add: same_heap_def same_subscriber_def option.rel_refl)

lemma same_heap_trans:
  assumes "same_heap r r'" "same_heap r' r''"
  shows "same_heap r r''"
  unfolding same_heap_def
proof (intro conjI allI)
  show "rg_current r'' = rg_current r" using assms by (simp add: same_heap_def)
  fix p
  have "rel_option same_subscriber (rg_heap r p) (rg_heap r' p)"
    "rel_option same_subscriber (rg_heap r' p) (rg_heap r'' p)"
    using assms by (simp_all add: same_heap_def)
  then show "rel_option same_subscriber (rg_heap r p) (rg_heap r'' p)"
    by (cases "rg_heap r p"; cases "rg_heap r' p"; cases "rg_heap r'' p") (simp_all add: same_subscriber_def)
qed

lemma same_heap_facts:
  assumes "same_heap r r'"
  shows "direct_at r' p = direct_at r p" "subscribed_at r' p = subscribed_at r p"
    "callback_errors callbacks r' ps e = callback_errors callbacks r ps e" "rg_current r' = rg_current r"
proof -
  have h: "rel_option same_subscriber (rg_heap r q) (rg_heap r' q)" for q
    using assms by (simp add: same_heap_def)
  show "direct_at r' p = direct_at r p" "subscribed_at r' p = subscribed_at r p"
    using h [of p]
    by (cases "rg_heap r p"; cases "rg_heap r' p"; simp add: direct_at_def subscribed_at_def same_subscriber_def)+
  show "rg_current r' = rg_current r" using assms by (simp add: same_heap_def)
  have "(case rg_heap r' q of None \<Rightarrow> None
       | Some s \<Rightarrow> if ss_active s then callbacks q (enter_scope s []) e else None) =
      (case rg_heap r q of None \<Rightarrow> None
       | Some s \<Rightarrow> if ss_active s then callbacks q (enter_scope s []) e else None)" for q
    using h [of q] by (cases "rg_heap r q"; cases "rg_heap r' q") (simp_all add: enter_scope_def same_subscriber_def)
  then show "callback_errors callbacks r' ps e = callback_errors callbacks r ps e"
    by (simp add: callback_errors_def)
qed

lemma deliver_direct:
  assumes "direct_at r p"
  shows "\<exists>res r'. deliver_to copyable callbacks elapsed [] e c p r = Some (res, r') \<and> same_heap r r' \<and>
    callback_errors callbacks r [p] e = (case res of Inl x \<Rightarrow> [x] | Inr _ \<Rightarrow> []) \<and>
    (\<forall>q. offered_at r' q = offered_at r q + of_bool (q = p)) \<and>
    (\<forall>q. delivered_at r' q = delivered_at r q + of_bool (q = p \<and> subscribed_at r p))"
proof -
  from assms obtain s where s: "rg_heap r p = Some s" "\<not> is_isolated s"
    by (auto simp: direct_at_def split: option.splits)
  let ?res = "if \<not> ss_active s then Inr False
    else case callbacks p (enter_scope s []) e of None \<Rightarrow> Inr True | Some x \<Rightarrow> Inl x"
  obtain s' where s': "try_invoke copyable (callbacks p) elapsed [] e c s = Some (?res, s')"
    "ss_in_flight s' = ss_in_flight s" "ss_active s' = ss_active s" "ss_options s' = ss_options s"
    "ss_this s' = ss_this s" "ss_owner_tag s' = ss_owner_tag s"
    "sm_offered (ss_metrics s') = sm_offered (ss_metrics s) + 1"
    "sm_delivered (ss_metrics s') = sm_delivered (ss_metrics s) + of_bool (ss_active s)"
    using try_invoke_direct_result [OF s(2), of copyable "callbacks p" elapsed "[]" e c] by blast
  let ?r = "r\<lparr>rg_heap := (rg_heap r)(p \<mapsto> s')\<rparr>"
  have "deliver_to copyable callbacks elapsed [] e c p r = Some (?res, ?r)"
    using s(1) s'(1) by (simp add: deliver_to_def)
  moreover have "same_heap r ?r" using s(1) s'(2-6) by (simp add: same_heap_def same_subscriber_def option.rel_refl)
  moreover have "callback_errors callbacks r [p] e = (case ?res of Inl x \<Rightarrow> [x] | Inr _ \<Rightarrow> [])"
    using s(1) by (simp add: callback_errors_def map_filter_simps split: option.split)
  moreover have "\<forall>q. offered_at ?r q = offered_at r q + of_bool (q = p)"
    "\<forall>q. delivered_at ?r q = delivered_at r q + of_bool (q = p \<and> subscribed_at r p)"
    using s(1) s'(7,8) by (simp_all add: offered_at_def delivered_at_def subscribed_at_def)
  ultimately show ?thesis by blast
qed

lemma callback_errors_Cons:
  "callback_errors callbacks r (p # ps) e = callback_errors callbacks r [p] e @ callback_errors callbacks r ps e"
  by (simp add: callback_errors_def map_filter_simps split: option.split)

lemma broadcast_event_direct:
  assumes "list_all (direct_at r) ps"
  shows "\<exists>r'. broadcast_event copyable callbacks elapsed copies e ps (errors, r) =
      Some (errors @ callback_errors callbacks r ps e, r') \<and> same_heap r r' \<and>
    (\<forall>q. offered_at r' q = offered_at r q + of_nat (count_list ps q)) \<and>
    (\<forall>q. delivered_at r' q = delivered_at r q + of_nat (if subscribed_at r q then count_list ps q else 0))"
  using assms
proof (induction ps arbitrary: errors r)
  case Nil
  then show ?case by (simp add: callback_errors_def map_filter_simps same_heap_refl)
next
  case (Cons p ps)
  then obtain res r1 where r1: "deliver_to copyable callbacks elapsed [] e (copies p e) p r = Some (res, r1)"
    "same_heap r r1" "callback_errors callbacks r [p] e = (case res of Inl x \<Rightarrow> [x] | Inr _ \<Rightarrow> [])"
    "\<And>q. offered_at r1 q = offered_at r q + of_bool (q = p)"
    "\<And>q. delivered_at r1 q = delivered_at r q + of_bool (q = p \<and> subscribed_at r p)"
    using deliver_direct [of r p copyable callbacks elapsed e "copies p e"] by auto
  have "list_all (direct_at r1) ps" using Cons.prems same_heap_facts(1) [OF r1(2)] by (simp add: list_all_iff)
  from Cons.IH [OF this, of "errors @ callback_errors callbacks r [p] e"] obtain r' where r':
    "broadcast_event copyable callbacks elapsed copies e ps (errors @ callback_errors callbacks r [p] e, r1) =
       Some ((errors @ callback_errors callbacks r [p] e) @ callback_errors callbacks r1 ps e, r')"
    "same_heap r1 r'" "\<And>q. offered_at r' q = offered_at r1 q + of_nat (count_list ps q)"
    "\<And>q. delivered_at r' q = delivered_at r1 q + of_nat (if subscribed_at r1 q then count_list ps q else 0)"
    by blast
  have "broadcast_event copyable callbacks elapsed copies e (p # ps) (errors, r) =
      Some (errors @ callback_errors callbacks r (p # ps) e, r')"
    using r1(1,3) r'(1) same_heap_facts(3) [OF r1(2), of callbacks ps e]
    by (cases res) (simp_all add: callback_errors_Cons [of callbacks r p ps])
  moreover have "\<forall>q. offered_at r' q = offered_at r q + of_nat (count_list (p # ps) q)"
    using r1(4) r'(3) by simp
  moreover have "\<forall>q. delivered_at r' q =
      delivered_at r q + of_nat (if subscribed_at r q then count_list (p # ps) q else 0)"
    using r1(5) r'(4) same_heap_facts(2) [OF r1(2)] by simp
  ultimately show ?case using same_heap_trans [OF r1(2) r'(2)] by blast
qed

lemma broadcast_events_direct:
  assumes "list_all (direct_at r) ps"
  shows "\<exists>r'. broadcast_events copyable callbacks elapsed copies ps es (errors, r) =
      Some (errors @ concat (map (callback_errors callbacks r ps) es), r') \<and> same_heap r r' \<and>
    (\<forall>q. offered_at r' q = offered_at r q + of_nat (length es * count_list ps q)) \<and>
    (\<forall>q. delivered_at r' q =
       delivered_at r q + of_nat (if subscribed_at r q then length es * count_list ps q else 0))"
  using assms
proof (induction es arbitrary: errors r)
  case Nil
  then show ?case by (simp add: same_heap_refl)
next
  case (Cons e es)
  obtain r1 where r1: "broadcast_event copyable callbacks elapsed copies e ps (errors, r) =
      Some (errors @ callback_errors callbacks r ps e, r1)" "same_heap r r1"
    "\<And>q. offered_at r1 q = offered_at r q + of_nat (count_list ps q)"
    "\<And>q. delivered_at r1 q = delivered_at r q + of_nat (if subscribed_at r q then count_list ps q else 0)"
    using broadcast_event_direct [OF Cons.prems, of copyable callbacks elapsed copies e errors] by blast
  have "list_all (direct_at r1) ps" using Cons.prems same_heap_facts(1) [OF r1(2)] by (simp add: list_all_iff)
  from Cons.IH [OF this, of "errors @ callback_errors callbacks r ps e"] obtain r' where r':
    "broadcast_events copyable callbacks elapsed copies ps es (errors @ callback_errors callbacks r ps e, r1) =
       Some ((errors @ callback_errors callbacks r ps e) @ concat (map (callback_errors callbacks r1 ps) es), r')"
    "same_heap r1 r'" "\<And>q. offered_at r' q = offered_at r1 q + of_nat (length es * count_list ps q)"
    "\<And>q. delivered_at r' q = delivered_at r1 q +
       of_nat (if subscribed_at r1 q then length es * count_list ps q else 0)"
    by blast
  have "callback_errors callbacks r1 ps = callback_errors callbacks r ps"
    using same_heap_facts(3) [OF r1(2), of callbacks ps] by (simp add: fun_eq_iff)
  with r1(1) r'(1) have "broadcast_events copyable callbacks elapsed copies ps (e # es) (errors, r) =
      Some (errors @ concat (map (callback_errors callbacks r ps) (e # es)), r')" by simp
  moreover have "\<forall>q. offered_at r' q = offered_at r q + of_nat (length (e # es) * count_list ps q)"
    using r1(3) r'(3) by (simp add: algebra_simps)
  moreover have "\<forall>q. delivered_at r' q =
      delivered_at r q + of_nat (if subscribed_at r q then length (e # es) * count_list ps q else 0)"
    using r1(4) r'(4) same_heap_facts(2) [OF r1(2)] by (simp add: algebra_simps)
  ultimately show ?case using same_heap_trans [OF r1(2) r'(2)] by blast
qed

section \<open>Batches to direct and best-effort subscribers\<close>

text \<open>One delivery to a subscriber that is not waited for, and the deliveries of a batch, each looked at alone.\<close>

definition offer_alone ::
  "bool \<Rightarrow> 'e callbacks \<Rightarrow> int \<Rightarrow> (nat \<Rightarrow> 'e \<Rightarrow> exn + 'e) \<Rightarrow> nat \<Rightarrow> 'e \<Rightarrow> 'e subscriber_state \<Rightarrow> 'e subscriber_state" where
  "offer_alone copyable callbacks elapsed copies p e s =
     snd (the (try_invoke copyable (callbacks p) elapsed [] e (copies p e) s))"

definition offers_alone ::
  "bool \<Rightarrow> 'e callbacks \<Rightarrow> int \<Rightarrow> (nat \<Rightarrow> 'e \<Rightarrow> exn + 'e) \<Rightarrow> nat \<Rightarrow> 'e list \<Rightarrow> 'e subscriber_state \<Rightarrow> 'e subscriber_state" where
  "offers_alone copyable callbacks elapsed copies p es s = fold (offer_alone copyable callbacks elapsed copies p) es s"

text \<open>An isolated best-effort subscriber whose mailbox accepts events, and what it holds and has dropped.\<close>

definition best_effort_open :: "'e subscriber_state \<Rightarrow> bool" where
  "best_effort_open s = (is_isolated s \<and> so_guarantee (ss_options s) = best_effort \<and> ss_mailbox_accepting s \<and>
     length (ss_mailbox s) \<le> unat (so_mailbox_capacity (ss_options s)))"

definition best_effort_at :: "'e registry_core \<Rightarrow> nat \<Rightarrow> bool" where
  "best_effort_at r p = (case rg_heap r p of None \<Rightarrow> False | Some s \<Rightarrow> best_effort_open s)"

definition mailbox_at :: "'e registry_core \<Rightarrow> nat \<Rightarrow> 'e list" where
  "mailbox_at r p = (case rg_heap r p of None \<Rightarrow> [] | Some s \<Rightarrow> ss_mailbox s)"

definition mailbox_capacity_at :: "'e registry_core \<Rightarrow> nat \<Rightarrow> nat" where
  "mailbox_capacity_at r p = (case rg_heap r p of None \<Rightarrow> 0 | Some s \<Rightarrow> unat (so_mailbox_capacity (ss_options s)))"

definition dropped_at :: "'e registry_core \<Rightarrow> nat \<Rightarrow> uint64_t" where
  "dropped_at r p = (case rg_heap r p of None \<Rightarrow> 0 | Some s \<Rightarrow> sm_dropped (ss_metrics s))"

lemma invoke_best_effort:
  fixes s :: "'e subscriber_state" and e :: 'e
  assumes "best_effort_open s"
  defines "s1 \<equiv> (if length (ss_mailbox s) = unat (so_mailbox_capacity (ss_options s)) then count_dropped 1 (count_offered s)
      else (count_offered s)\<lparr>ss_mailbox := ss_mailbox s @ [e]\<rparr>)"
  shows "try_invoke True callback elapsed chain e (Inr e) s = Some (Inr True, s1)"
    "best_effort_open s1" "same_subscriber s s1"
    "ss_mailbox s1 = take (unat (so_mailbox_capacity (ss_options s))) (ss_mailbox s @ [e])"
    "sm_offered (ss_metrics s1) = sm_offered (ss_metrics s) + 1"
    "sm_dropped (ss_metrics s1) = sm_dropped (ss_metrics s) +
       of_nat (length (ss_mailbox s) + 1 - unat (so_mailbox_capacity (ss_options s)))"
proof -
  let ?c = "so_mailbox_capacity (ss_options s)"
  have le: "length (ss_mailbox s) \<le> unat ?c" using assms(1) by (simp add: best_effort_open_def)
  then have "unat (of_nat (length (ss_mailbox s)) :: size_t) = length (ss_mailbox s)"
    using unat_lt_2_64 [of ?c] by (intro unat_of_nat_small) linarith
  then have size: "(of_nat (length (ss_mailbox s)) = ?c) = (length (ss_mailbox s) = unat ?c)"
    by (simp add: word_unat_eq_iff)
  show "try_invoke True callback elapsed chain e (Inr e) s = Some (Inr True, s1)"
    using assms(1) size by (simp add: s1_def best_effort_open_def try_invoke_def enqueue_isolated_def count_defs Let_def)
  show "best_effort_open s1" "same_subscriber s s1"
    "ss_mailbox s1 = take (unat ?c) (ss_mailbox s @ [e])" "sm_offered (ss_metrics s1) = sm_offered (ss_metrics s) + 1"
    "sm_dropped (ss_metrics s1) = sm_dropped (ss_metrics s) + of_nat (length (ss_mailbox s) + 1 - unat ?c)"
    using assms(1) le by (auto simp: s1_def best_effort_open_def same_subscriber_def count_defs)
qed

text \<open>A delivery that is not waited for: to a direct subscriber, or to such a mailbox when the copy does not throw.\<close>

definition prompt_at :: "bool \<Rightarrow> (nat \<Rightarrow> 'e \<Rightarrow> exn + 'e) \<Rightarrow> 'e list \<Rightarrow> 'e registry_core \<Rightarrow> nat \<Rightarrow> bool" where
  "prompt_at copyable copies es r p =
     (direct_at r p \<or> best_effort_at r p \<and> copyable \<and> list_all (\<lambda>e. copies p e = Inr e) es)"

lemma deliver_prompt:
  assumes "prompt_at copyable copies (e # es) r p"
  shows "\<exists>s s' res. rg_heap r p = Some s \<and> s' = offer_alone copyable callbacks elapsed copies p e s \<and>
    deliver_to copyable callbacks elapsed [] e (copies p e) p r = Some (res, r\<lparr>rg_heap := (rg_heap r)(p \<mapsto> s')\<rparr>) \<and>
    callback_errors callbacks r (filter (direct_at r) [p]) e = (case res of Inl x \<Rightarrow> [x] | Inr _ \<Rightarrow> []) \<and>
    same_subscriber s s' \<and> (best_effort_open s \<longrightarrow> best_effort_open s')"
proof (cases "direct_at r p")
  case True
  then obtain s where s: "rg_heap r p = Some s" "\<not> is_isolated s"
    by (auto simp: direct_at_def split: option.splits)
  let ?res = "if \<not> ss_active s then Inr False
    else case callbacks p (enter_scope s []) e of None \<Rightarrow> Inr True | Some x \<Rightarrow> Inl x"
  obtain s' where s': "try_invoke copyable (callbacks p) elapsed [] e (copies p e) s = Some (?res, s')"
    "ss_in_flight s' = ss_in_flight s" "ss_active s' = ss_active s" "ss_options s' = ss_options s"
    "ss_this s' = ss_this s" "ss_owner_tag s' = ss_owner_tag s"
    using try_invoke_direct_result [OF s(2), of copyable "callbacks p" elapsed "[]" e "copies p e"] by blast
  have "callback_errors callbacks r [p] e = (case ?res of Inl x \<Rightarrow> [x] | Inr _ \<Rightarrow> [])"
    using s(1) by (simp add: callback_errors_def map_filter_simps split: option.split)
  with s s' True show ?thesis
    by (intro exI [of _ s] exI [of _ s'] exI [of _ ?res])
      (simp add: offer_alone_def deliver_to_def same_subscriber_def best_effort_open_def)
next
  case False
  with assms obtain s where s: "rg_heap r p = Some s" "best_effort_open s" "copyable" "copies p e = Inr e"
    by (auto simp: prompt_at_def best_effort_at_def split: option.splits)
  note b = invoke_best_effort [OF s(2), where e = e]
  from b s False show ?thesis
    by (intro exI [of _ s] exI [of _ "offer_alone copyable callbacks elapsed copies p e s"] exI [of _ "Inr True"])
      (simp add: offer_alone_def deliver_to_def callback_errors_def map_filter_simps)
qed

lemma best_effort_not_direct: "best_effort_at r p \<Longrightarrow> \<not> direct_at r p"
  by (auto simp: best_effort_at_def direct_at_def best_effort_open_def split: option.splits)

lemma deliver_prompt_keeps:
  assumes "rg_heap r p = Some s" "same_subscriber s s'" "best_effort_open s \<longrightarrow> best_effort_open s'"
  shows "same_heap r (r\<lparr>rg_heap := (rg_heap r)(p \<mapsto> s')\<rparr>)"
    "prompt_at copyable copies es r q \<Longrightarrow> prompt_at copyable copies es (r\<lparr>rg_heap := (rg_heap r)(p \<mapsto> s')\<rparr>) q"
proof -
  show "same_heap r (r\<lparr>rg_heap := (rg_heap r)(p \<mapsto> s')\<rparr>)"
    using assms(1,2) by (simp add: same_heap_def same_subscriber_def option.rel_refl)
  show "prompt_at copyable copies es r q \<Longrightarrow> prompt_at copyable copies es (r\<lparr>rg_heap := (rg_heap r)(p \<mapsto> s')\<rparr>) q"
    using assms by (auto simp: prompt_at_def best_effort_at_def direct_at_def same_subscriber_def split: if_splits option.splits)
qed

text \<open>Deliveries of one event do not influence each other.\<close>

lemma broadcast_event_prompt:
  assumes "list_all (prompt_at copyable copies (e # es) r) ps" "distinct ps"
  shows "\<exists>r'. broadcast_event copyable callbacks elapsed copies e ps (errors, r) =
      Some (errors @ callback_errors callbacks r (filter (direct_at r) ps) e, r') \<and> same_heap r r' \<and>
    (\<forall>q. prompt_at copyable copies es r q \<longrightarrow> prompt_at copyable copies es r' q) \<and>
    (\<forall>q. rg_heap r' q = (if q \<in> set ps then map_option (offer_alone copyable callbacks elapsed copies q e) (rg_heap r q)
      else rg_heap r q))"
  using assms
proof (induction ps arbitrary: errors r)
  case Nil
  then show ?case by (simp add: callback_errors_def map_filter_simps same_heap_refl)
next
  case (Cons p ps)
  let ?o = "\<lambda>q. offer_alone copyable callbacks elapsed copies q e"
  from Cons.prems(1) deliver_prompt [of copyable copies e es r p callbacks elapsed] obtain s res where d: "rg_heap r p = Some s"
    "deliver_to copyable callbacks elapsed [] e (copies p e) p r = Some (res, r\<lparr>rg_heap := (rg_heap r)(p \<mapsto> ?o p s)\<rparr>)"
    "callback_errors callbacks r (filter (direct_at r) [p]) e = (case res of Inl x \<Rightarrow> [x] | Inr _ \<Rightarrow> [])"
    "same_subscriber s (?o p s)" "best_effort_open s \<longrightarrow> best_effort_open (?o p s)" by auto
  let ?r1 = "r\<lparr>rg_heap := (rg_heap r)(p \<mapsto> ?o p s)\<rparr>" and ?errs = "callback_errors callbacks r (filter (direct_at r) [p]) e"
  note keep = deliver_prompt_keeps [OF d(1,4,5)]
  have "list_all (prompt_at copyable copies (e # es) ?r1) ps" using Cons.prems(1) keep(2) by (simp add: list_all_iff)
  from Cons.IH [OF this, of "errors @ ?errs"] Cons.prems(2) obtain r' where r':
    "broadcast_event copyable callbacks elapsed copies e ps (errors @ ?errs, ?r1) =
       Some ((errors @ ?errs) @ callback_errors callbacks ?r1 (filter (direct_at ?r1) ps) e, r')" "same_heap ?r1 r'"
    "\<forall>q. prompt_at copyable copies es ?r1 q \<longrightarrow> prompt_at copyable copies es r' q"
    "\<forall>q. rg_heap r' q = (if q \<in> set ps then map_option (?o q) (rg_heap ?r1 q) else rg_heap ?r1 q)" by auto
  have same: "direct_at ?r1 = direct_at r" "callback_errors callbacks ?r1 = callback_errors callbacks r"
    using same_heap_facts [OF keep(1)] by (simp_all add: fun_eq_iff)
  have errs: "callback_errors callbacks r (filter (direct_at r) (p # ps)) e =
      ?errs @ callback_errors callbacks r (filter (direct_at r) ps) e"
    by (simp add: callback_errors_def map_filter_simps split: option.split)
  have "broadcast_event copyable callbacks elapsed copies e (p # ps) (errors, r) =
      Some (errors @ callback_errors callbacks r (filter (direct_at r) (p # ps)) e, r')"
    using d(2,3) r'(1) unfolding same errs by (cases res) simp_all
  moreover have "\<forall>q. rg_heap r' q = (if q \<in> set (p # ps) then map_option (?o q) (rg_heap r q) else rg_heap r q)"
    using r'(4) d(1) Cons.prems(2) by auto
  ultimately show ?case using same_heap_trans [OF keep(1) r'(2)] r'(3) keep(2) by blast
qed

lemma offers_none: "map_option (offers_alone copyable callbacks elapsed copies q []) x = x"
  by (cases x) (simp_all add: offers_alone_def)

lemma offers_Cons: "offers_alone copyable callbacks elapsed copies q (e # es) =
    (\<lambda>s. offers_alone copyable callbacks elapsed copies q es (offer_alone copyable callbacks elapsed copies q e s))"
  by (simp add: fun_eq_iff offers_alone_def)

lemma broadcast_events_prompt:
  assumes "list_all (prompt_at copyable copies es r) ps" "distinct ps"
  shows "\<exists>r'. broadcast_events copyable callbacks elapsed copies ps es (errors, r) =
      Some (errors @ concat (map (callback_errors callbacks r (filter (direct_at r) ps)) es), r') \<and> same_heap r r' \<and>
    (\<forall>q. rg_heap r' q = (if q \<in> set ps then map_option (offers_alone copyable callbacks elapsed copies q es) (rg_heap r q)
      else rg_heap r q))"
  using assms(1)
proof (induction es arbitrary: errors r)
  case Nil
  then show ?case by (simp add: same_heap_refl offers_none)
next
  case (Cons e es)
  let ?o = "\<lambda>q. offer_alone copyable callbacks elapsed copies q e" and ?d = "filter (direct_at r) ps"
  obtain r1 where r1: "broadcast_event copyable callbacks elapsed copies e ps (errors, r) =
      Some (errors @ callback_errors callbacks r ?d e, r1)" "same_heap r r1"
    "\<forall>q. prompt_at copyable copies es r q \<longrightarrow> prompt_at copyable copies es r1 q"
    "\<forall>q. rg_heap r1 q = (if q \<in> set ps then map_option (?o q) (rg_heap r q) else rg_heap r q)"
    using broadcast_event_prompt [OF Cons.prems assms(2), of callbacks elapsed errors] by blast
  have same: "direct_at r1 = direct_at r" "callback_errors callbacks r1 = callback_errors callbacks r"
    using same_heap_facts [OF r1(2)] by (simp_all add: fun_eq_iff)
  have "list_all (prompt_at copyable copies es r1) ps"
    using Cons.prems r1(3) by (auto simp: list_all_iff prompt_at_def)
  from Cons.IH [OF this, of "errors @ callback_errors callbacks r ?d e", unfolded same] obtain r' where r':
    "broadcast_events copyable callbacks elapsed copies ps es (errors @ callback_errors callbacks r ?d e, r1) =
       Some ((errors @ callback_errors callbacks r ?d e) @ concat (map (callback_errors callbacks r ?d) es), r')"
    "same_heap r1 r'" "\<forall>q. rg_heap r' q = (if q \<in> set ps
      then map_option (offers_alone copyable callbacks elapsed copies q es) (rg_heap r1 q) else rg_heap r1 q)" by blast
  have "\<forall>q. rg_heap r' q = (if q \<in> set ps
      then map_option (offers_alone copyable callbacks elapsed copies q (e # es)) (rg_heap r q) else rg_heap r q)"
    using r'(3) r1(4) by (simp add: offers_Cons option.map_comp comp_def)
  with r1(1) r'(1) show ?case using same_heap_trans [OF r1(2) r'(2)] by auto
qed

text \<open>What a batch does to one subscriber.\<close>

lemma offers_direct:
  "\<not> is_isolated s \<Longrightarrow> ss_active s \<Longrightarrow>
   sm_offered (ss_metrics (offers_alone copyable callbacks elapsed copies p es s)) = sm_offered (ss_metrics s) + of_nat (length es) \<and>
   sm_delivered (ss_metrics (offers_alone copyable callbacks elapsed copies p es s)) = sm_delivered (ss_metrics s) + of_nat (length es)"
proof (induction es arbitrary: s)
  case (Cons e es)
  obtain res s' where s': "try_invoke copyable (callbacks p) elapsed [] e (copies p e) s = Some (res, s')"
    "ss_active s' = ss_active s" "ss_options s' = ss_options s"
    "sm_offered (ss_metrics s') = sm_offered (ss_metrics s) + 1"
    "sm_delivered (ss_metrics s') = sm_delivered (ss_metrics s) + of_bool (ss_active s)"
    using try_invoke_direct_result [OF Cons.prems(1), of copyable "callbacks p" elapsed "[]" e "copies p e"] by blast
  with Cons.IH [of s'] Cons.prems show ?case by (simp add: offers_alone_def offer_alone_def)
qed (simp add: offers_alone_def)

lemma offers_best_effort:
  assumes "best_effort_open s" "list_all (\<lambda>e. copies p e = Inr e) es"
  shows "ss_mailbox (offers_alone True callbacks elapsed copies p es s) =
      take (unat (so_mailbox_capacity (ss_options s))) (ss_mailbox s @ es) \<and>
    sm_offered (ss_metrics (offers_alone True callbacks elapsed copies p es s)) = sm_offered (ss_metrics s) + of_nat (length es) \<and>
    sm_dropped (ss_metrics (offers_alone True callbacks elapsed copies p es s)) = sm_dropped (ss_metrics s) +
      of_nat (length (ss_mailbox s) + length es - unat (so_mailbox_capacity (ss_options s)))"
  using assms
proof (induction es arbitrary: s)
  case Nil
  then show ?case by (simp add: offers_alone_def best_effort_open_def)
next
  case (Cons e es)
  let ?c = "unat (so_mailbox_capacity (ss_options s))" and ?s1 = "offer_alone True callbacks elapsed copies p e s"
  have le: "length (ss_mailbox s) \<le> ?c" using Cons.prems(1) by (simp add: best_effort_open_def)
  note b = invoke_best_effort [OF Cons.prems(1), where e = e]
  have s1: "best_effort_open ?s1" "same_subscriber s ?s1" "ss_mailbox ?s1 = take ?c (ss_mailbox s @ [e])"
    "sm_offered (ss_metrics ?s1) = sm_offered (ss_metrics s) + 1"
    "sm_dropped (ss_metrics ?s1) = sm_dropped (ss_metrics s) + of_nat (length (ss_mailbox s) + 1 - ?c)"
    using b Cons.prems(2) by (simp_all add: offer_alone_def)
  have c: "unat (so_mailbox_capacity (ss_options ?s1)) = ?c" using s1(2) by (simp add: same_subscriber_def)
  note IH = Cons.IH [OF s1(1), unfolded c]
  show ?case
  proof (cases "length (ss_mailbox s) = ?c")
    case True
    with IH s1(3-5) Cons.prems(2) show ?thesis by (simp add: offers_Cons algebra_simps)
  next
    case False
    then have "ss_mailbox ?s1 = ss_mailbox s @ [e]" "length (ss_mailbox s) + 1 - ?c = 0" using le s1(3) by simp_all
    with IH s1(4,5) Cons.prems(2) show ?thesis by (simp add: offers_Cons)
  qed
qed

text \<open>
  Property C20. Broadcasting a batch to a snapshot of direct subscribers and of isolated best-effort ones (with an open mailbox
  and a copy constructor that does not throw) always returns, whatever the callbacks throw. Every
  subscriber of the snapshot is offered every event of the batch exactly once, and one that is not in the
  snapshot nothing. A direct subscriber is delivered every one of them. The mailbox of a best-effort
  subscriber gets the events in their order as far as they fit, and the rest is counted as dropped. The exceptions of the
  direct callbacks reach the error handler event by event in the order of registration, none of them keeping a later
  subscriber or event from being delivered.
\<close>

theorem broadcast_batch_isolates_errors:
  assumes "rg_reachable r" "list_all (prompt_at copyable copies batch r) (acquire_snapshot r)"
  shows "\<exists>r'. broadcast_batch copyable callbacks elapsed copies batch r =
      Some (concat (map (callback_errors callbacks r (filter (direct_at r) (acquire_snapshot r))) batch), r') \<and>
    acquire_snapshot r' = acquire_snapshot r \<and>
    (\<forall>p. offered_at r' p = offered_at r p + (if p \<in> set (acquire_snapshot r) then of_nat (length batch) else 0)) \<and>
    (\<forall>p. direct_at r p \<longrightarrow>
      delivered_at r' p = delivered_at r p + (if p \<in> set (acquire_snapshot r) then of_nat (length batch) else 0)) \<and>
    (\<forall>p \<in> set (acquire_snapshot r). best_effort_at r p \<longrightarrow>
      mailbox_at r' p = take (mailbox_capacity_at r p) (mailbox_at r p @ batch) \<and>
      dropped_at r' p = dropped_at r p + of_nat (length (mailbox_at r p) + length batch - mailbox_capacity_at r p))"
proof -
  let ?ps = "acquire_snapshot r" and ?a = "\<lambda>p. offers_alone copyable callbacks elapsed copies p batch"
  note D = rg_inv_D [OF rg_reachable_inv [OF assms(1)]]
  have ps: "distinct ?ps" "set ?ps = {p. subscribed_at r p}" using D(1,2) by (simp_all add: acquire_snapshot_def)
  from broadcast_events_prompt [OF assms(2) ps(1), of callbacks elapsed "[]"]
  obtain r' where r': "broadcast_batch copyable callbacks elapsed copies batch r =
      Some (concat (map (callback_errors callbacks r (filter (direct_at r) ?ps)) batch), r')" "same_heap r r'"
    "\<And>q. rg_heap r' q = (if q \<in> set ?ps then map_option (?a q) (rg_heap r q) else rg_heap r q)"
    by (auto simp: broadcast_batch_def)
  have direct: "offered_at r' p = offered_at r p + of_nat (length batch) \<and>
      delivered_at r' p = delivered_at r p + of_nat (length batch)" if p: "p \<in> set ?ps" "direct_at r p" for p
  proof -
    from p obtain s where s: "rg_heap r p = Some s" "\<not> is_isolated s" "ss_active s"
      using ps(2) by (auto simp: direct_at_def subscribed_at_def split: option.splits)
    from offers_direct [OF s(2,3)] s(1) p(1) r'(3) [of p] show ?thesis by (simp add: offered_at_def delivered_at_def)
  qed
  have mailbox: "offered_at r' p = offered_at r p + of_nat (length batch) \<and>
      mailbox_at r' p = take (mailbox_capacity_at r p) (mailbox_at r p @ batch) \<and>
      dropped_at r' p = dropped_at r p + of_nat (length (mailbox_at r p) + length batch - mailbox_capacity_at r p)"
    if p: "p \<in> set ?ps" "best_effort_at r p" for p
  proof -
    from p(2) obtain s where s: "rg_heap r p = Some s" "best_effort_open s"
      by (auto simp: best_effort_at_def split: option.splits)
    have "copyable" "list_all (\<lambda>e. copies p e = Inr e) batch"
      using assms(2) p best_effort_not_direct by (auto simp: prompt_at_def list_all_iff)
    with offers_best_effort [OF s(2), of copies p batch callbacks elapsed] s(1) p(1) r'(3) [of p] show ?thesis
      by (simp add: offered_at_def mailbox_at_def dropped_at_def mailbox_capacity_at_def)
  qed
  have offered: "offered_at r' p = offered_at r p + (if p \<in> set ?ps then of_nat (length batch) else 0)" for p
  proof (cases "p \<in> set ?ps")
    case True
    then have "direct_at r p \<or> best_effort_at r p" using assms(2) by (auto simp: prompt_at_def list_all_iff)
    with direct [OF True] mailbox [OF True] True show ?thesis by auto
  qed (simp add: r'(3) offered_at_def)
  have delivered: "delivered_at r' p = delivered_at r p + (if p \<in> set ?ps then of_nat (length batch) else 0)"
    if "direct_at r p" for p
  proof (cases "p \<in> set ?ps")
    case True
    with direct [OF True that] show ?thesis by simp
  qed (simp add: r'(3) delivered_at_def)
  have "acquire_snapshot r' = ?ps" using same_heap_facts(4) [OF r'(2)] by (simp add: acquire_snapshot_def)
  with r'(1) offered delivered mailbox show ?thesis by blast
qed

text \<open>A direct subscriber, and a best-effort one with room for two events.\<close>

definition registry_mixed :: "nat registry_core" where
  "registry_mixed = snd (rg_subscribe True True
     (default_subscription_options\<lparr>so_delivery := isolated, so_mailbox_capacity := 2\<rparr>) 9 registry_one)"

lemma registry_mixed_ok: "rg_reachable registry_mixed" "rg_current registry_mixed = [5, 9]" "direct_at registry_mixed 5"
  "callback_errors callbacks registry_mixed [5] = (\<lambda>e. case callbacks 5 [\<lparr>ic_state = 5, ic_owner_tag = 9\<rparr>] e of None \<Rightarrow> [] | Some x \<Rightarrow> [x])"
  "best_effort_at registry_mixed 9" "mailbox_at registry_mixed 9 = []" "mailbox_capacity_at registry_mixed 9 = 2"
proof -
  note defs = registry_mixed_def registry_one_def rg_subscribe_def core_subscribe_def allocate_id_def rg_new_def
    ss_new_def default_subscription_options_def start_executor_def subscribed_at_def
  show "rg_reachable registry_mixed"
    unfolding registry_mixed_def by (rule rg_reachable.registered [OF registry_one_ok(1) _ surjective_pairing]) (simp add: defs)
  show "rg_current registry_mixed = [5, 9]" "direct_at registry_mixed 5" "best_effort_at registry_mixed 9"
    "mailbox_at registry_mixed 9 = []" "mailbox_capacity_at registry_mixed 9 = 2"
    "callback_errors callbacks registry_mixed [5] = (\<lambda>e. case callbacks 5 [\<lparr>ic_state = 5, ic_owner_tag = 9\<rparr>] e of None \<Rightarrow> [] | Some x \<Rightarrow> [x])"
    by (simp_all add: defs direct_at_def best_effort_at_def best_effort_open_def mailbox_at_def mailbox_capacity_at_def
        callback_errors_def map_filter_simps enter_scope_def fun_eq_iff split: option.split)
qed

theorem broadcast_batch_isolates_errors_witness:
  "\<exists>r'. broadcast_batch True (\<lambda>_ _ e. if e = 6 then Some (User_exception 1) else None) 0 (\<lambda>_. Inr) [5, 6, 7]
      registry_mixed = Some ([User_exception 1], r') \<and> delivered_at r' 5 = delivered_at registry_mixed 5 + 3 \<and>
      mailbox_at r' 9 = [5, 6] \<and> dropped_at r' 9 = dropped_at registry_mixed 9 + 1"
proof -
  note R = registry_mixed_ok
  have snap: "acquire_snapshot registry_mixed = [5, 9]" using R(2) by (simp add: acquire_snapshot_def)
  have "list_all (prompt_at True (\<lambda>_. Inr) [5, 6, 7] registry_mixed) (acquire_snapshot registry_mixed)"
    using R(3,5) by (simp add: snap prompt_at_def)
  from broadcast_batch_isolates_errors [OF R(1) this, of "\<lambda>_ _ e. if e = 6 then Some (User_exception 1) else None" 0]
  show ?thesis using R(3-7) best_effort_not_direct [OF R(5)] by (auto simp: snap)
qed

lemma registry_one_direct: "\<exists>s. rg_heap registry_one 5 = Some s \<and> ss_active s \<and> \<not> is_isolated s"
  by (simp add: registry_one_def rg_subscribe_def core_subscribe_def allocate_id_def rg_new_def
      ss_new_def default_subscription_options_def start_executor_def Let_def)

section \<open>Draining shutdown from beginning to end\<close>

lemma broadcast_all_direct:
  assumes "list_all (direct_at r) (acquire_snapshot r)"
  shows "\<exists>r'. broadcast_all (broadcast_reporting copyable callbacks elapsed copies) batches (errors, r) =
      Some (errors @ concat (map (callback_errors callbacks r (acquire_snapshot r)) (concat batches)), r') \<and>
    same_heap r r' \<and>
    (\<forall>q. delivered_at r' q = delivered_at r q +
       of_nat (if subscribed_at r q then length (concat batches) * count_list (acquire_snapshot r) q else 0))"
  using assms
proof (induction batches arbitrary: errors r)
  case Nil
  then show ?case by (simp add: same_heap_refl)
next
  case (Cons batch batches)
  let ?ps = "acquire_snapshot r"
  obtain r1 where r1: "broadcast_batch copyable callbacks elapsed copies batch r =
      Some (concat (map (callback_errors callbacks r ?ps) batch), r1)" "same_heap r r1"
    "\<And>q. delivered_at r1 q = delivered_at r q + of_nat (if subscribed_at r q then length batch * count_list ?ps q else 0)"
    using broadcast_events_direct [OF Cons.prems, of copyable callbacks elapsed copies batch "[]"]
    by (auto simp: broadcast_batch_def)
  have ps: "acquire_snapshot r1 = ?ps" using same_heap_facts(4) [OF r1(2)] by (simp add: acquire_snapshot_def)
  have errs: "callback_errors callbacks r1 ?ps = callback_errors callbacks r ?ps"
    using same_heap_facts(3) [OF r1(2), of callbacks ?ps] by (simp add: fun_eq_iff)
  have "list_all (direct_at r1) (acquire_snapshot r1)"
    using Cons.prems same_heap_facts(1) [OF r1(2)] by (simp add: list_all_iff ps)
  from Cons.IH [OF this, of "errors @ concat (map (callback_errors callbacks r ?ps) batch)"] obtain r' where r':
    "broadcast_all (broadcast_reporting copyable callbacks elapsed copies) batches
       (errors @ concat (map (callback_errors callbacks r ?ps) batch), r1) =
     Some (errors @ concat (map (callback_errors callbacks r ?ps) (concat (batch # batches))), r')"
    "same_heap r1 r'"
    "\<And>q. delivered_at r' q = delivered_at r1 q +
       of_nat (if subscribed_at r1 q then length (concat batches) * count_list ?ps q else 0)"
    unfolding ps errs by auto
  from r1(1) r'(1) have "broadcast_all (broadcast_reporting copyable callbacks elapsed copies) (batch # batches)
      (errors, r) = Some (errors @ concat (map (callback_errors callbacks r ?ps) (concat (batch # batches))), r')"
    by (simp add: broadcast_reporting_def)
  moreover have "\<forall>q. delivered_at r' q = delivered_at r q + of_nat (if subscribed_at r q
      then length (concat (batch # batches)) * count_list ?ps q else 0)"
    using r1(3) r'(3) same_heap_facts(2) [OF r1(2)] by (simp add: algebra_simps)
  ultimately show ?case using same_heap_trans [OF r1(2) r'(2)] by blast
qed

lemma stop_snapshot_direct:
  "list_all (direct_at r) ps \<Longrightarrow> stop_snapshot callbacks elapsed draining ps r = Some r"
proof (induction ps)
  case (Cons p ps)
  then obtain s where "rg_heap r p = Some s" "\<not> is_isolated s"
    by (auto simp: direct_at_def split: option.splits)
  with Cons show ?case by (simp add: stop_delivery_def fun_upd_idem)
qed simp

lemma join_finished:
  assumes "\<not> is_worker_thread pool current_pool"
  shows "\<exists>pool'. wp_join current_pool (finish_workers pool) = Some (Inr (), pool')"
proof -
  have "\<forall>w \<in> set (wp_workers (finish_workers pool)). wt_joinable w \<longrightarrow> wt_finished w"
    by (simp add: finish_workers_def)
  from join_all_some [OF this] assms show ?thesis
    by (simp add: wp_join_def is_worker_thread_def finish_workers_def)
qed

context dispatcher_queue
begin

lemma shutdown_drains:
  assumes "inv (d_events d)" "d_lifecycle d = running" "d_worker_batch_size d \<noteq> 0" "wp_workers (d_workers d) \<noteq> []"
    and direct: "list_all (direct_at (d_subscribers d)) (acquire_snapshot (d_subscribers d))"
    and outside: "\<not> is_worker_thread (d_workers d) current_pool"
      "\<not> callback_active_on_this_thread (d_subscribers d) chain"
  shows "\<exists>d'. shutdown P copyable callbacks elapsed copies drain current_pool chain d =
      Some (Inr (concat (map (callback_errors callbacks (d_subscribers d) (acquire_snapshot (d_subscribers d)))
        (aq_items (abs (d_events d))))), d') \<and>
    d_lifecycle d' = lifecycle_stopped \<and> inv (d_events d') \<and>
    aq_items (abs (d_events d')) = [] \<and> aq_closed (abs (d_events d')) \<and>
    same_heap (d_subscribers d) (d_subscribers d') \<and>
    (\<forall>p. delivered_at (d_subscribers d') p = delivered_at (d_subscribers d) p +
       of_nat (if subscribed_at (d_subscribers d) p
         then length (aq_items (abs (d_events d))) * count_list (acquire_snapshot (d_subscribers d)) p else 0))"
proof -
  let ?r = "d_subscribers d" and ?broadcast = "broadcast_reporting copyable callbacks elapsed copies"
  let ?ps = "acquire_snapshot (d_subscribers d)"
  obtain n where n: "length (wp_workers (d_workers d)) = Suc n" using assms(4) by (cases "wp_workers (d_workers d)") auto
  obtain q1 where q1: "qp_close P (d_events d) = Some q1" "inv q1" "abs q1 = (abs (d_events d))\<lparr>aq_closed := True\<rparr>"
    using close_ref [OF assms(1)] close_inv [OF assms(1)] by (cases "qp_close P (d_events d)") (auto simp: spec_close_def)
  define good :: "exn list \<times> 'e registry_core \<Rightarrow> bool" where
    "good = (\<lambda>w. list_all (direct_at (snd w)) (acquire_snapshot (snd w)))"
  have returns: "\<exists>w'. ?broadcast batch w = Some w' \<and> good w'" if "good w" for batch w
  proof -
    from that have w: "list_all (direct_at (snd w)) (acquire_snapshot (snd w))" by (simp add: good_def)
    from broadcast_all_direct [OF w, of copyable callbacks elapsed copies "[batch]" "fst w"] obtain r' where
      "?broadcast batch w = Some (fst w @ concat (map (callback_errors callbacks (snd w) (acquire_snapshot (snd w))) batch), r')"
      "same_heap (snd w) r'" by (auto split: Option.bind_splits)
    then show ?thesis using same_heap_facts(1,4) [of "snd w" r'] w
      by (auto simp: good_def acquire_snapshot_def list_all_iff)
  qed
  have "good ([], ?r)" using direct by (simp add: good_def)
  from run_workers_drains [of q1 "d_worker_batch_size d" good "([], ?r)" ?broadcast n, OF q1(2) _ assms(3) this returns] q1(3)
  obtain q' batches w' where run: "run_workers P (d_worker_batch_size d) ?broadcast (Suc n) q1 ([], ?r) = Some (q', w')"
    "broadcast_all ?broadcast batches ([], ?r) = Some w'" "inv q'" "abs q' = (abs q1)\<lparr>aq_items := []\<rparr>"
    "concat batches = aq_items (abs (d_events d))" by auto
  from broadcast_all_direct [OF direct, of copyable callbacks elapsed copies batches "[]"] run(2,5) obtain r' where r':
    "w' = (concat (map (callback_errors callbacks ?r ?ps) (aq_items (abs (d_events d)))), r')" "same_heap ?r r'"
    "\<forall>q. delivered_at r' q = delivered_at ?r q +
       of_nat (if subscribed_at ?r q then length (aq_items (abs (d_events d))) * count_list ?ps q else 0)"
    by auto
  have "list_all (direct_at r') (acquire_snapshot r')"
    using direct same_heap_facts(1,4) [OF r'(2)] by (simp add: acquire_snapshot_def list_all_iff)
  from stop_snapshot_direct [OF this] have stop: "rg_stop_delivery callbacks elapsed True r' = Some r'"
    by (simp add: rg_stop_delivery_def)
  obtain pool' where "wp_join current_pool (finish_workers (d_workers d)) = Some (Inr (), pool')"
    using join_finished [OF outside(1)] by blast
  with run(1,3,4) r' q1 n stop assms(2) outside show ?thesis
    by (simp add: shutdown_def shutdown_begin_def shutdown_close_def shutdown_finish_def del: run_workers.simps)
qed

end

end
