(* ===== verification/Dispatcher_Threads.thy ===== *)
theory Dispatcher_Threads
  imports Dispatcher Mutex_Queue
begin

text \<open>
  The threads of one dispatcher (\<open>dispatcher.hpp\<close>): publishers between the lifecycle check, the push
  and the counter update; workers between the pop, the filling of a batch and its broadcast; callers
  of \<open>shutdown\<close> between the lifecycle transition, the closing of the queue, the join of the workers and
  the final transition. Every call of a queue method is one step, which for the mutex queue is its
  critical section; the end results are therefore stated for the mutex queue.

  Ghost fields log the accepted events in queue order, the popped events, the broadcast events and
  the number of discarded ones, and the policy of the shutdown in progress.
\<close>

section \<open>Threads and steps\<close>

fun push_operation ::
  "('e, 'q) queue_policy \<Rightarrow> 'e queue_call \<Rightarrow> 'q \<Rightarrow> (push_out \<times> 'q) option" where
  "push_operation P (Try_push c) q = qp_try_push P q c"
| "push_operation P (Try_emplace c) q = qp_try_emplace P q c"
| "push_operation P (Wait_push c stop) q = qp_wait_push P q c stop"
| "push_operation P (Wait_push_until c stop expired) q = qp_wait_push_until P q c stop expired"
| "push_operation P _ q = None"

fun pushed_event :: "'e queue_call \<Rightarrow> exn + 'e" where
  "pushed_event (Try_push c) = c"
| "pushed_event (Try_emplace c) = c"
| "pushed_event (Wait_push c stop) = c"
| "pushed_event (Wait_push_until c stop expired) = c"
| "pushed_event _ = Inl Bad_optional_access"

text \<open>The event that a push with outcome \<open>r\<close> added.\<close>

fun accepted_event :: "exn + queue_status \<Rightarrow> exn + 'e \<Rightarrow> 'e list" where
  "accepted_event (Inr success) (Inr e) = [e]"
| "accepted_event _ _ = []"

datatype 'e publisher_pc = Pub_idle | Pub_checked "exn + 'e" | Pub_counting "exn + queue_status"

text \<open>A broadcasting worker holds its snapshot, the subscribers the current event still has to visit, and
  the events from the current one on.\<close>

datatype 'e worker_pc =
    W_waiting
  | W_filling "'e list"
  | W_filled "'e list"
  | W_broadcasting "nat list" "nat list" "'e list"
  | W_exited

datatype shutdown_pc =
    Sd_idle
  | Sd_closing shutdown_policy
  | Sd_counting size_t
  | Sd_stopping
  | Sd_joining shutdown_policy
  | Sd_joined shutdown_policy
  | Sd_storing shutdown_policy
  | Sd_waiting
  | Sd_returned

record ('e, 'q) dispatch_system =
  sy_d :: "('e, 'q) dispatcher"
  sy_publishers :: "'e publisher_pc list"
  sy_workers :: "'e worker_pc list"
  sy_shutdowns :: "shutdown_pc list"
  sy_accepted_log :: "'e list"
  sy_popped_log :: "'e list"
  sy_broadcast_log :: "'e list"
  sy_errors :: "exn list"
  sy_discarded :: nat
  sy_policy :: "shutdown_policy option"

text \<open>Worker \<open>t\<close> of the pool has returned from its function.\<close>

definition worker_finished :: "nat \<Rightarrow> worker_pool \<Rightarrow> worker_pool" where
  "worker_finished t pool =
     pool\<lparr>wp_workers := (wp_workers pool)[t := (wp_workers pool ! t)\<lparr>wt_finished := True\<rparr>]\<rparr>"

text \<open>
  A publisher's stop token and deadline take effect when its push returns, so the call is chosen there.
  Executors, tokens and callbacks change subscribers at any time (their own steps are those of
  \<open>Subscriber_Threads\<close>): the rule \<open>registry_changes\<close> lets the registry become anything, so that what is
  proved about publishers, workers and shutdown holds whatever the subscribers do.
\<close>

inductive dispatch_step ::
  "('e, 'q) queue_policy \<Rightarrow> ('e, 'q) dispatch_system \<Rightarrow> ('e, 'q) dispatch_system \<Rightarrow> bool" for P where
  publish_check: "t < length (sy_publishers s) \<Longrightarrow> sy_publishers s ! t = Pub_idle \<Longrightarrow>
    d_lifecycle (sy_d s) = running \<Longrightarrow>
    dispatch_step P s (s\<lparr>sy_publishers := (sy_publishers s)[t := Pub_checked c]\<rparr>)"
| publish_reject: "t < length (sy_publishers s) \<Longrightarrow> sy_publishers s ! t = Pub_idle \<Longrightarrow>
    d_lifecycle (sy_d s) \<noteq> running \<Longrightarrow>
    dispatch_step P s (s\<lparr>sy_d := (sy_d s)\<lparr>d_rejected := d_rejected (sy_d s) + 1\<rparr>\<rparr>)"
| publish_push: "t < length (sy_publishers s) \<Longrightarrow> sy_publishers s ! t = Pub_checked c \<Longrightarrow>
    pushed_event call = c \<Longrightarrow>
    push_operation P call (d_events (sy_d s)) = Some ((r, consumed), q') \<Longrightarrow>
    dispatch_step P s (s\<lparr>sy_d := (sy_d s)\<lparr>d_events := q'\<rparr>,
      sy_publishers := (sy_publishers s)[t := Pub_counting r],
      sy_accepted_log := sy_accepted_log s @ accepted_event r c\<rparr>)"
| publish_count: "t < length (sy_publishers s) \<Longrightarrow> sy_publishers s ! t = Pub_counting r \<Longrightarrow>
    dispatch_step P s (s\<lparr>sy_d := (case r of Inl _ \<Rightarrow> sy_d s | Inr st \<Rightarrow> count_outcome st (sy_d s)),
      sy_publishers := (sy_publishers s)[t := Pub_idle]\<rparr>)"
| worker_pop: "t < length (sy_workers s) \<Longrightarrow> sy_workers s ! t = W_waiting \<Longrightarrow>
    qp_wait_pop P (d_events (sy_d s)) False = Some (p, q') \<Longrightarrow> pr_status p = success \<Longrightarrow> pop_value p = Inr e \<Longrightarrow>
    dispatch_step P s (s\<lparr>sy_d := (sy_d s)\<lparr>d_events := q'\<rparr>, sy_workers := (sy_workers s)[t := W_filling [e]],
      sy_popped_log := sy_popped_log s @ [e]\<rparr>)"
| worker_exit: "t < length (sy_workers s) \<Longrightarrow> sy_workers s ! t = W_waiting \<Longrightarrow>
    qp_wait_pop P (d_events (sy_d s)) False = Some (p, q') \<Longrightarrow> pr_status p \<in> {closed, stopped} \<Longrightarrow>
    dispatch_step P s (s\<lparr>sy_d := (sy_d s)\<lparr>d_events := q', d_workers := worker_finished t (d_workers (sy_d s))\<rparr>,
      sy_workers := (sy_workers s)[t := W_exited]\<rparr>)"
| worker_fill_more: "t < length (sy_workers s) \<Longrightarrow> sy_workers s ! t = W_filling batch \<Longrightarrow>
    length batch < unat (d_worker_batch_size (sy_d s)) \<Longrightarrow>
    qp_try_pop P (d_events (sy_d s)) = Some (p, q') \<Longrightarrow> pr_status p = success \<Longrightarrow> pop_value p = Inr e \<Longrightarrow>
    dispatch_step P s (s\<lparr>sy_d := (sy_d s)\<lparr>d_events := q'\<rparr>,
      sy_workers := (sy_workers s)[t := W_filling (batch @ [e])], sy_popped_log := sy_popped_log s @ [e]\<rparr>)"
| worker_fill_stop: "t < length (sy_workers s) \<Longrightarrow> sy_workers s ! t = W_filling batch \<Longrightarrow>
    length batch < unat (d_worker_batch_size (sy_d s)) \<Longrightarrow>
    qp_try_pop P (d_events (sy_d s)) = Some (p, q') \<Longrightarrow> pr_status p \<noteq> success \<Longrightarrow>
    dispatch_step P s (s\<lparr>sy_d := (sy_d s)\<lparr>d_events := q'\<rparr>, sy_workers := (sy_workers s)[t := W_filled batch]\<rparr>)"
| worker_fill_full: "t < length (sy_workers s) \<Longrightarrow> sy_workers s ! t = W_filling batch \<Longrightarrow>
    \<not> length batch < unat (d_worker_batch_size (sy_d s)) \<Longrightarrow>
    dispatch_step P s (s\<lparr>sy_workers := (sy_workers s)[t := W_filled batch]\<rparr>)"
| worker_snapshot: "t < length (sy_workers s) \<Longrightarrow> sy_workers s ! t = W_filled batch \<Longrightarrow>
    acquire_snapshot (d_subscribers (sy_d s)) = snapshot \<Longrightarrow>
    dispatch_step P s (s\<lparr>sy_workers := (sy_workers s)[t := W_broadcasting snapshot snapshot batch]\<rparr>)"
| worker_deliver: "t < length (sy_workers s) \<Longrightarrow> sy_workers s ! t = W_broadcasting snapshot (p # ps) (e # es) \<Longrightarrow>
    deliver_to copyable callbacks elapsed [] e c p (d_subscribers (sy_d s)) = Some (res, r') \<Longrightarrow>
    dispatch_step P s (s\<lparr>sy_d := (sy_d s)\<lparr>d_subscribers := r'\<rparr>,
      sy_workers := (sy_workers s)[t := W_broadcasting snapshot ps (e # es)],
      sy_errors := sy_errors s @ (case res of Inl x \<Rightarrow> [x] | Inr _ \<Rightarrow> [])\<rparr>)"
| worker_event_done: "t < length (sy_workers s) \<Longrightarrow> sy_workers s ! t = W_broadcasting snapshot [] (e # es) \<Longrightarrow>
    dispatch_step P s (s\<lparr>sy_workers := (sy_workers s)[t := W_broadcasting snapshot snapshot es],
      sy_broadcast_log := sy_broadcast_log s @ [e]\<rparr>)"
| worker_continue: "t < length (sy_workers s) \<Longrightarrow> sy_workers s ! t = W_broadcasting snapshot ps [] \<Longrightarrow>
    dispatch_step P s (s\<lparr>sy_workers := (sy_workers s)[t := W_waiting]\<rparr>)"
| registry_changes:
    "dispatch_step P s (s\<lparr>sy_d := (sy_d s)\<lparr>d_subscribers := r'\<rparr>\<rparr>)"
| subscribe: "dispatcher_subscribe copyable callback_set options addr (sy_d s) = (res, d') \<Longrightarrow>
    dispatch_step P s (s\<lparr>sy_d := d'\<rparr>)"
| shutdown_return: "t < length (sy_shutdowns s) \<Longrightarrow> sy_shutdowns s ! t = Sd_idle \<Longrightarrow>
    shutdown_begin policy None [] (sy_d s) = (Inr Shutdown_return, d') \<Longrightarrow>
    dispatch_step P s (s\<lparr>sy_d := d', sy_shutdowns := (sy_shutdowns s)[t := Sd_returned]\<rparr>)"
| shutdown_wait: "t < length (sy_shutdowns s) \<Longrightarrow> sy_shutdowns s ! t = Sd_idle \<Longrightarrow>
    shutdown_begin policy None [] (sy_d s) = (Inr Shutdown_wait, d') \<Longrightarrow>
    dispatch_step P s (s\<lparr>sy_d := d', sy_shutdowns := (sy_shutdowns s)[t := Sd_waiting]\<rparr>)"
| shutdown_proceed: "t < length (sy_shutdowns s) \<Longrightarrow> sy_shutdowns s ! t = Sd_idle \<Longrightarrow>
    shutdown_begin policy None [] (sy_d s) = (Inr Shutdown_proceed, d') \<Longrightarrow>
    dispatch_step P s (s\<lparr>sy_d := d', sy_shutdowns := (sy_shutdowns s)[t := Sd_closing policy],
      sy_policy := Some policy\<rparr>)"
| shutdown_close_drain: "t < length (sy_shutdowns s) \<Longrightarrow> sy_shutdowns s ! t = Sd_closing drain \<Longrightarrow>
    qp_close P (d_events (sy_d s)) = Some q' \<Longrightarrow>
    dispatch_step P s (s\<lparr>sy_d := (sy_d s)\<lparr>d_events := q'\<rparr>,
      sy_shutdowns := (sy_shutdowns s)[t := Sd_joining drain]\<rparr>)"
| shutdown_close_discard: "t < length (sy_shutdowns s) \<Longrightarrow> sy_shutdowns s ! t = Sd_closing discard \<Longrightarrow>
    qp_close_and_discard P (d_events (sy_d s)) = Some (n, q') \<Longrightarrow>
    dispatch_step P s (s\<lparr>sy_d := (sy_d s)\<lparr>d_events := q'\<rparr>,
      sy_shutdowns := (sy_shutdowns s)[t := Sd_counting n], sy_discarded := sy_discarded s + unat n\<rparr>)"
| shutdown_count: "t < length (sy_shutdowns s) \<Longrightarrow> sy_shutdowns s ! t = Sd_counting n \<Longrightarrow>
    dispatch_step P s (s\<lparr>sy_d := (sy_d s)\<lparr>d_dropped := d_dropped (sy_d s) + n\<rparr>,
      sy_shutdowns := (sy_shutdowns s)[t := Sd_stopping]\<rparr>)"
| shutdown_stop: "t < length (sy_shutdowns s) \<Longrightarrow> sy_shutdowns s ! t = Sd_stopping \<Longrightarrow>
    rg_stop_delivery callbacks elapsed False (d_subscribers (sy_d s)) = Some r' \<Longrightarrow>
    dispatch_step P s (s\<lparr>sy_d := (sy_d s)\<lparr>d_subscribers := r'\<rparr>,
      sy_shutdowns := (sy_shutdowns s)[t := Sd_joining discard]\<rparr>)"
| shutdown_join: "t < length (sy_shutdowns s) \<Longrightarrow> sy_shutdowns s ! t = Sd_joining policy \<Longrightarrow>
    wp_join None (d_workers (sy_d s)) = Some (Inr (), pool') \<Longrightarrow>
    dispatch_step P s (s\<lparr>sy_d := (sy_d s)\<lparr>d_workers := pool'\<rparr>,
      sy_shutdowns := (sy_shutdowns s)[t := Sd_joined policy]\<rparr>)"
| shutdown_drain: "t < length (sy_shutdowns s) \<Longrightarrow> sy_shutdowns s ! t = Sd_joined drain \<Longrightarrow>
    rg_stop_delivery callbacks elapsed True (d_subscribers (sy_d s)) = Some r' \<Longrightarrow>
    dispatch_step P s (s\<lparr>sy_d := (sy_d s)\<lparr>d_subscribers := r'\<rparr>,
      sy_shutdowns := (sy_shutdowns s)[t := Sd_storing drain]\<rparr>)"
| shutdown_discarded: "t < length (sy_shutdowns s) \<Longrightarrow> sy_shutdowns s ! t = Sd_joined discard \<Longrightarrow>
    dispatch_step P s (s\<lparr>sy_shutdowns := (sy_shutdowns s)[t := Sd_storing discard]\<rparr>)"
| shutdown_store: "t < length (sy_shutdowns s) \<Longrightarrow> sy_shutdowns s ! t = Sd_storing policy \<Longrightarrow>
    dispatch_step P s (s\<lparr>sy_d := (sy_d s)\<lparr>d_lifecycle := lifecycle_stopped\<rparr>,
      sy_shutdowns := (sy_shutdowns s)[t := Sd_returned]\<rparr>)"
| shutdown_awaited: "t < length (sy_shutdowns s) \<Longrightarrow> sy_shutdowns s ! t = Sd_waiting \<Longrightarrow>
    d_lifecycle (sy_d s) = lifecycle_stopped \<Longrightarrow>
    dispatch_step P s (s\<lparr>sy_shutdowns := (sy_shutdowns s)[t := Sd_returned]\<rparr>)"

text \<open>A dispatcher as its constructor leaves it, with any number of publishing and stopping threads.\<close>

definition dispatch_start ::
  "nat \<Rightarrow> nat \<Rightarrow> ('e, 'q) dispatcher \<Rightarrow> ('e, 'q) dispatch_system" where
  "dispatch_start publishers shutdowns d = \<lparr>sy_d = d, sy_publishers = replicate publishers Pub_idle,
     sy_workers = replicate (unat (d_worker_count d)) W_waiting,
     sy_shutdowns = replicate shutdowns Sd_idle, sy_accepted_log = [], sy_popped_log = [],
     sy_broadcast_log = [], sy_errors = [], sy_discarded = 0, sy_policy = None\<rparr>"

inductive dispatch_reachable ::
  "('e, 'q) queue_policy \<Rightarrow> ('e, 'q) dispatch_system \<Rightarrow> bool" for P where
  start: "dispatcher_new P config registry_this pool_this = Inr d \<Longrightarrow>
    dispatch_reachable P (dispatch_start publishers shutdowns d)"
| step: "dispatch_reachable P s \<Longrightarrow> dispatch_step P s s' \<Longrightarrow> dispatch_reachable P s'"

section \<open>Invariants\<close>

text \<open>The events a worker holds, and the total over the workers.\<close>

fun held :: "'e worker_pc \<Rightarrow> 'e list" where
  "held (W_filling batch) = batch"
| "held (W_filled batch) = batch"
| "held (W_broadcasting snapshot ps es) = es"
| "held _ = []"

definition held_by_workers :: "'e worker_pc list \<Rightarrow> 'e multiset" where
  "held_by_workers ws = gather held ws"

lemma held_keep: "t < length ws \<Longrightarrow> held w = held (ws ! t) \<Longrightarrow> held_by_workers (ws[t := w]) = held_by_workers ws"
  using gather_update [of t ws held w] by (simp add: held_by_workers_def)

lemma held_more: "t < length ws \<Longrightarrow> held w = held (ws ! t) @ [e] \<Longrightarrow>
    held_by_workers (ws[t := w]) = add_mset e (held_by_workers ws)"
  using gather_update [of t ws held w] by (simp add: held_by_workers_def)

lemma held_less: "t < length ws \<Longrightarrow> held (ws ! t) = e # held w \<Longrightarrow>
    add_mset e (held_by_workers (ws[t := w])) = held_by_workers ws"
  using gather_update [of t ws held w] by (simp add: held_by_workers_def)

text \<open>What the workers popped they have broadcast or hold; a single worker keeps the order.\<close>

definition held_ok :: "('e, 'q) dispatch_system \<Rightarrow> bool" where
  "held_ok s = (mset (sy_popped_log s) = mset (sy_broadcast_log s) + held_by_workers (sy_workers s))"

definition order_ok :: "('e, 'q) dispatch_system \<Rightarrow> bool" where
  "order_ok s = (length (sy_workers s) = 1 \<longrightarrow> sy_popped_log s = sy_broadcast_log s @ held (sy_workers s ! 0))"

text \<open>The counters, up to what publishers and the discarding thread have still to add.\<close>

fun counting_success :: "'e publisher_pc \<Rightarrow> nat" where
  "counting_success (Pub_counting (Inr success)) = 1"
| "counting_success _ = 0"

fun counting_dropped :: "shutdown_pc \<Rightarrow> nat" where
  "counting_dropped (Sd_counting n) = unat n"
| "counting_dropped _ = 0"

definition counters_ok :: "('e, 'q) dispatch_system \<Rightarrow> bool" where
  "counters_ok s = (d_accepted (sy_d s) + of_nat (tally counting_success (sy_publishers s)) =
      of_nat (length (sy_accepted_log s)) \<and>
    d_dropped (sy_d s) + of_nat (tally counting_dropped (sy_shutdowns s)) = of_nat (sy_discarded s))"

text \<open>The policy of the shutdown that a thread is carrying out.\<close>

fun closing_policy :: "shutdown_pc \<Rightarrow> shutdown_policy option" where
  "closing_policy (Sd_closing p) = Some p"
| "closing_policy (Sd_joining p) = Some p"
| "closing_policy (Sd_joined p) = Some p"
| "closing_policy (Sd_storing p) = Some p"
| "closing_policy (Sd_counting n) = Some discard"
| "closing_policy Sd_stopping = Some discard"
| "closing_policy _ = None"

definition policy_ok :: "('e, 'q) dispatch_system \<Rightarrow> bool" where
  "policy_ok s = ((sy_policy s = None) = (d_lifecycle (sy_d s) \<in> {created, running}) \<and>
     list_all (\<lambda>pc. closing_policy pc \<in> {None, sy_policy s}) (sy_shutdowns s) \<and>
     (sy_discarded s \<noteq> 0 \<longrightarrow> sy_policy s = Some discard))"

text \<open>At most one thread carries out the shutdown, and a call returns only when it is complete.\<close>

definition stopping :: "lifecycle_state \<Rightarrow> bool" where
  "stopping l = (l \<in> {drain_stopping, discard_stopping})"

fun carrying_out :: "shutdown_pc \<Rightarrow> nat" where
  "carrying_out pc = of_bool (closing_policy pc \<noteq> None)"

definition exclusive_ok :: "('e, 'q) dispatch_system \<Rightarrow> bool" where
  "exclusive_ok s = (tally carrying_out (sy_shutdowns s) = of_bool (stopping (d_lifecycle (sy_d s))) \<and>
     (Sd_returned \<in> set (sy_shutdowns s) \<longrightarrow> d_lifecycle (sy_d s) = lifecycle_stopped))"

text \<open>A worker exits only when the queue is closed and empty, and the pool can be joined only when every
  worker has exited.\<close>

definition past_join :: "shutdown_pc \<Rightarrow> bool" where
  "past_join pc = (case pc of Sd_joined p \<Rightarrow> True | Sd_storing p \<Rightarrow> True | _ \<Rightarrow> False)"

definition all_exited :: "('e, 'q) dispatch_system \<Rightarrow> bool" where
  "all_exited s = list_all (\<lambda>w. w = W_exited) (sy_workers s)"

definition pool_ok :: "('e, 'q) dispatch_system \<Rightarrow> bool" where
  "pool_ok s = (sy_workers s \<noteq> [] \<and> length (wp_workers (d_workers (sy_d s))) = length (sy_workers s) \<and>
     (\<forall>t < length (sy_workers s). sy_workers s ! t \<noteq> W_exited \<longrightarrow>
        wt_joinable (wp_workers (d_workers (sy_d s)) ! t) \<and> \<not> wt_finished (wp_workers (d_workers (sy_d s)) ! t)))"

definition joined :: "('e, 'q) dispatch_system \<Rightarrow> bool" where
  "joined s = (d_lifecycle (sy_d s) = lifecycle_stopped \<or> list_ex past_join (sy_shutdowns s))"

lemma shutdown_begin_outcomes:
  "shutdown_begin policy None [] d = (Inr Shutdown_return, d') \<longleftrightarrow> d_lifecycle d = lifecycle_stopped \<and> d' = d"
  "shutdown_begin policy None [] d = (Inr Shutdown_wait, d') \<longleftrightarrow>
     d_lifecycle d \<in> {drain_stopping, discard_stopping} \<and> d' = d"
  "shutdown_begin policy None [] d = (Inr Shutdown_proceed, d') \<longleftrightarrow> d_lifecycle d \<in> {created, running} \<and>
     d' = d\<lparr>d_lifecycle := if policy = drain then drain_stopping else discard_stopping\<rparr>"
  by (cases "d_lifecycle d"; auto simp: shutdown_begin_def is_worker_thread_def
      callback_active_on_this_thread_def)+

lemma count_outcome_fields [simp]:
  "d_events (count_outcome st d) = d_events d" "d_lifecycle (count_outcome st d) = d_lifecycle d"
  "d_dropped (count_outcome st d) = d_dropped d" "d_accepted (count_outcome st d) = d_accepted d + of_bool (st = success)"
  "d_workers (count_outcome st d) = d_workers d"
  by (simp_all add: count_outcome_def)

lemma dispatcher_subscribe_fields:
  "dispatcher_subscribe copyable callback_set options addr d = (res, d') \<Longrightarrow>
   \<exists>r. d' = d\<lparr>d_subscribers := r\<rparr>"
  by (auto simp: dispatcher_subscribe_def split: if_splits prod.splits intro: exI [of _ "d_subscribers d"])

lemma held_step:
  assumes "dispatch_step P s s'" "held_ok s"
  shows "held_ok s'"
  using assms
  by (cases rule: dispatch_step.cases) (simp_all add: held_ok_def held_keep held_more held_less [symmetric])

lemma order_step:
  assumes "dispatch_step P s s'" "order_ok s"
  shows "order_ok s'"
  using assms
  by (cases rule: dispatch_step.cases) (auto simp: order_ok_def less_Suc_eq)

lemma list_all_update: "list_all Q xs \<Longrightarrow> Q y \<Longrightarrow> list_all Q (xs[t := y])"
  using set_update_subset_insert [of xs t y] by (auto simp: list_all_iff)

lemma policy_at:
  "policy_ok s \<Longrightarrow> t < length (sy_shutdowns s) \<Longrightarrow> closing_policy (sy_shutdowns s ! t) = Some p \<Longrightarrow> sy_policy s = Some p"
  by (auto simp: policy_ok_def list_all_length)

lemma policy_update:
  assumes "policy_ok s" "t < length (sy_shutdowns s)" "closing_policy y \<in> {None, closing_policy (sy_shutdowns s ! t)}"
  shows "list_all (\<lambda>pc. closing_policy pc = None \<or> closing_policy pc = sy_policy s) ((sy_shutdowns s)[t := y])"
  using assms by (intro list_all_update) (auto simp: policy_ok_def list_all_length)

lemma shutdown_policy_step:
  assumes "dispatch_step P s s'" "policy_ok s"
  shows "policy_ok s'"
proof -
  note ok = assms(2) and fields = assms(2) [unfolded policy_ok_def]
  show ?thesis
    using assms(1)
  proof (cases rule: dispatch_step.cases)
    case (shutdown_proceed t policy d')
    with fields have "list_all (\<lambda>pc. closing_policy pc = None) (sy_shutdowns s)"
      by (auto simp: shutdown_begin_outcomes list_all_iff)
    then have "list_all (\<lambda>pc. closing_policy pc = None \<or> closing_policy pc = Some policy)
        ((sy_shutdowns s)[t := Sd_closing policy])"
      by (intro list_all_update) (auto simp: list_all_iff)
    with shutdown_proceed fields show ?thesis by (auto simp: policy_ok_def shutdown_begin_outcomes)
  next
    case (shutdown_close_discard t n q')
    then show ?thesis using policy_at [OF ok, of t] policy_update [OF ok, of t "Sd_counting n"] fields
      by (simp add: policy_ok_def)
  next
    case (shutdown_store t policy)
    then show ?thesis using policy_at [OF ok, of t] policy_update [OF ok, of t Sd_returned] fields
      by (simp add: policy_ok_def)
  next
    case (subscribe copyable callback_set options addr res d')
    then show ?thesis using fields by (auto simp: policy_ok_def dest!: dispatcher_subscribe_fields)
  next
    case (publish_check t c)
    then show ?thesis using fields by (auto simp: policy_ok_def)
  qed (use fields in \<open>simp_all add: policy_ok_def shutdown_begin_outcomes policy_update [OF ok] split: sum.splits\<close>)
qed

lemma returned_update: "Sd_returned \<in> set (xs[t := y]) \<Longrightarrow> Sd_returned \<in> set xs \<or> y = Sd_returned"
  using set_update_subset_insert [of xs t y] by auto

lemma exclusive_step:
  assumes "dispatch_step P s s'" "exclusive_ok s"
  shows "exclusive_ok s'"
proof -
  have one: "stopping (d_lifecycle (sy_d s))" if "t < length (sy_shutdowns s)" "closing_policy (sy_shutdowns s ! t) \<noteq> None" for t
    using that tally_member [of t "sy_shutdowns s" carrying_out] assms(2)
    by (cases "stopping (d_lifecycle (sy_d s))") (auto simp: exclusive_ok_def)
  note upd = tally_update [of _ "sy_shutdowns s" carrying_out]
  show ?thesis
    using assms(1)
  proof (cases rule: dispatch_step.cases)
    case (subscribe copyable callback_set options addr res d')
    then show ?thesis using assms(2) by (auto simp: exclusive_ok_def dest!: dispatcher_subscribe_fields)
  next
    case (shutdown_store t policy)
    then show ?thesis using one [of t] upd [of t Sd_returned] assms(2) by (simp add: exclusive_ok_def stopping_def)
  next
    case (shutdown_proceed t policy d')
    then show ?thesis using upd [of t "Sd_closing policy"] assms(2)
      by (auto simp: exclusive_ok_def stopping_def shutdown_begin_outcomes dest!: returned_update)
  qed (use assms(2) in \<open>auto simp: exclusive_ok_def shutdown_begin_outcomes dest!: returned_update
      simp: tally_keep split: sum.splits\<close>)
qed

lemma join_all_finished: "join_all ws = Some ws' \<Longrightarrow> \<forall>w \<in> set ws. wt_joinable w \<longrightarrow> wt_finished w"
  using join_all_none [of ws] by fastforce

lemma wp_join_workers:
  assumes "wp_join None pool = Some (Inr (), pool')"
  shows "\<forall>w \<in> set (wp_workers pool). wt_joinable w \<longrightarrow> wt_finished w" "length (wp_workers pool') = length (wp_workers pool)"
proof -
  from assms obtain ws where ws: "join_all (wp_workers pool) = Some ws" "pool' = pool\<lparr>wp_workers := ws\<rparr>"
    by (auto simp: wp_join_def is_worker_thread_def)
  from join_all_finished [OF ws(1)] show 1: "\<forall>w \<in> set (wp_workers pool). wt_joinable w \<longrightarrow> wt_finished w" .
  from join_all_some [OF this] ws show "length (wp_workers pool') = length (wp_workers pool)" by simp
qed

lemma joined_exited:
  assumes "pool_ok s" "wp_join None (d_workers (sy_d s)) = Some (Inr (), pool')"
  shows "all_exited s"
  using assms(1) wp_join_workers [OF assms(2)]
  by (auto simp: all_exited_def pool_ok_def list_all_length all_set_conv_all_nth)

lemma pool_step:
  assumes "dispatch_step P s s'" "pool_ok s"
  shows "pool_ok s'"
  using assms(1)
proof (cases rule: dispatch_step.cases)
  case (shutdown_join t policy pool')
  from joined_exited [OF assms(2) this(4)] have "all_exited s" .
  with shutdown_join assms(2) wp_join_workers(2) [of "d_workers (sy_d s)" pool'] show ?thesis
    by (simp add: pool_ok_def all_exited_def list_all_length)
next
  case (subscribe copyable callback_set options addr res d')
  then show ?thesis using assms(2) by (auto simp: pool_ok_def dest!: dispatcher_subscribe_fields)
next
  case (worker_exit t p q')
  then show ?thesis using assms(2) by (simp add: pool_ok_def worker_finished_def nth_list_update)
qed (use assms(2) in \<open>auto simp: pool_ok_def nth_list_update shutdown_begin_outcomes split: sum.splits\<close>)

lemma exited_stable: "dispatch_step P s s' \<Longrightarrow> all_exited s \<Longrightarrow> all_exited s'"
  by (cases rule: dispatch_step.cases) (auto simp: all_exited_def list_all_length)

lemma joined_step:
  assumes "dispatch_step P s s'" "pool_ok s" "joined s'"
  shows "joined s \<or> all_exited s"
  using assms(1)
proof (cases rule: dispatch_step.cases)
  case (shutdown_join t policy pool')
  with joined_exited [OF assms(2)] show ?thesis by blast
next
  case (shutdown_store t policy)
  then have "past_join (sy_shutdowns s ! t)" by (simp add: past_join_def)
  with shutdown_store(2) show ?thesis by (auto simp: joined_def list_ex_length)
next
  case (shutdown_drain t callbacks elapsed r')
  then have "past_join (sy_shutdowns s ! t)" by (simp add: past_join_def)
  with shutdown_drain(2) show ?thesis by (auto simp: joined_def list_ex_length)
next
  case (shutdown_discarded t)
  then have "past_join (sy_shutdowns s ! t)" by (simp add: past_join_def)
  with shutdown_discarded(2) show ?thesis by (auto simp: joined_def list_ex_length)
next
  case (subscribe copyable callback_set options addr res d')
  then show ?thesis using assms(3) by (auto simp: joined_def dest!: dispatcher_subscribe_fields)
qed (use assms(3) in \<open>auto simp: joined_def shutdown_begin_outcomes past_join_def dest!: list_ex_update
    split: sum.splits if_splits\<close>)

section \<open>With a queue that meets the contract\<close>

definition queue_log_of :: "('e, 'q) dispatch_system \<Rightarrow> 'e queue_log" where
  "queue_log_of s = \<lparr>ql_accepted = sy_accepted_log s, ql_popped = sy_popped_log s, ql_discarded = sy_discarded s\<rparr>"

text \<open>Once the queue is closed and empty it stays so.\<close>

definition finished :: "'e aqueue \<Rightarrow> bool" where
  "finished a = (aq_closed a \<and> aq_items a = [])"

lemma finished_push: "spec_push_result a c r a' \<Longrightarrow> finished a \<Longrightarrow> finished a'"
  by (auto simp: spec_push_result_def finished_def)

lemma finished_pop: "spec_pop_result a p a' \<Longrightarrow> finished a \<Longrightarrow> finished a'"
  by (auto simp: spec_pop_result_def finished_def)

lemma dispatcher_new_fields:
  assumes "dispatcher_new P config registry_this pool_this = Inr d"
  shows "qp_new P (dc_queue_capacity config) = Inr (d_events d) \<and> d_lifecycle d = running \<and> d_accepted d = 0 \<and>
    d_dropped d = 0 \<and> wp_workers (d_workers d) = replicate (unat (dc_worker_count config)) fresh_worker \<and>
    d_worker_count d = dc_worker_count config \<and> 0 < unat (dc_worker_count config)"
  using assms
  by (auto simp: dispatcher_new_def make_state_def wp_start_def wp_new_def start_workers wp_size_def
      d_worker_count_def unat_pos_iff split: sum.splits if_splits)

locale dispatcher_threads = dispatcher_queue P abs inv
  for P :: "('e, 'q) queue_policy" and abs :: "'q \<Rightarrow> 'e aqueue" and inv :: "'q \<Rightarrow> bool"
begin

lemma push_operation_abs:
  assumes "inv q" "push_operation P call q = Some (r, q')"
  shows "inv q' \<and> spec_push_result (abs q) (pushed_event call) r (abs q')"
proof (cases call)
  case (Try_push c)
  obtain r1 q1 where "qp_try_push P q c = Some (r1, q1)" "inv q1" "(r1, abs q1) = spec_try_push (abs q) c"
    using try_push_cases [OF assms(1), of c] .
  with assms(2) Try_push show ?thesis by (simp add: spec_push_resultI(1))
next
  case (Try_emplace c)
  obtain r1 q1 where "qp_try_emplace P q c = Some (r1, q1)" "inv q1" "(r1, abs q1) = spec_try_push (abs q) c"
    using try_emplace_cases [OF assms(1), of c] .
  with assms(2) Try_emplace show ?thesis by (simp add: spec_push_resultI(1))
next
  case (Wait_push c stop)
  with assms(2) wait_push_abs [OF assms(1), of c stop r q'] show ?thesis by (simp add: spec_push_resultI(2))
next
  case (Wait_push_until c stop expired)
  with assms(2) wait_push_until_abs [OF assms(1), of c stop expired r q'] show ?thesis
    by (simp add: spec_push_resultI(3))
qed (use assms(2) in simp_all)

lemma try_pop_abs:
  assumes "inv q" "qp_try_pop P q = Some (p, q')"
  shows "inv q' \<and> spec_pop_result (abs q) p (abs q')"
proof -
  obtain p1 q1 where "qp_try_pop P q = Some (p1, q1)" "inv q1" "(p1, abs q1) = spec_try_pop (abs q)"
    using try_pop_cases [OF assms(1)] .
  with assms(2) show ?thesis by (simp add: spec_pop_resultI(1))
qed

lemma wait_pop_result:
  assumes "inv q" "qp_wait_pop P q False = Some (p, q')"
  shows "inv q' \<and> spec_pop_result (abs q) p (abs q') \<and> (pr_status p \<in> {closed, stopped} \<longrightarrow> finished (abs q'))"
  using wait_pop_abs [OF assms] spec_pop_resultI(2) [OF wait_pop_abs(2) [OF assms]]
  by (auto simp: spec_wait_pop_def finished_def split: list.splits if_splits)

text \<open>The queue of the system, its log, and the exited workers.\<close>

definition queue_ok :: "('e, 'q) dispatch_system \<Rightarrow> bool" where
  "queue_ok s = (inv (d_events (sy_d s)) \<and> fifo_ok (abs (d_events (sy_d s))) (queue_log_of s))"

definition exits_ok :: "('e, 'q) dispatch_system \<Rightarrow> bool" where
  "exits_ok s = (\<forall>t < length (sy_workers s). sy_workers s ! t = W_exited \<longrightarrow> finished (abs (d_events (sy_d s))))"

lemma pop_log:
  assumes "fifo_ok (abs q) (queue_log_of s)" "spec_pop_result (abs q) p (abs q')" "pop_value p = Inr e"
  shows "fifo_ok (abs q') ((queue_log_of s)\<lparr>ql_popped := sy_popped_log s @ [e]\<rparr>)"
  using fifo_ok_log_pop [OF assms(1,2)] assms(3)
  by (auto simp: pop_value_def queue_log_of_def split: option.splits)

lemma no_pop_log:
  assumes "fifo_ok (abs q) l" "spec_pop_result (abs q) p (abs q')" "pr_status p \<noteq> success"
  shows "fifo_ok (abs q') l"
  using assms by (auto simp: spec_pop_result_def)

lemma push_log:
  assumes "fifo_ok (abs q) (queue_log_of s)" "spec_push_result (abs q) c (r, b) (abs q')"
  shows "fifo_ok (abs q') ((queue_log_of s)\<lparr>ql_accepted := sy_accepted_log s @ accepted_event r c\<rparr>)"
proof -
  have "(case (r, c) of (Inr success, Inr e) \<Rightarrow> (queue_log_of s)\<lparr>ql_accepted := ql_accepted (queue_log_of s) @ [e]\<rparr>
      | _ \<Rightarrow> queue_log_of s) = (queue_log_of s)\<lparr>ql_accepted := sy_accepted_log s @ accepted_event r c\<rparr>"
    by (cases "(r, c)" rule: accepted_event.cases) (auto simp: queue_log_of_def split: sum.splits queue_status.splits)
  with fifo_ok_log_push [OF assms] show ?thesis by simp
qed

lemma dispatch_queue_step:
  assumes "dispatch_step P s s'" "queue_ok s"
  shows "queue_ok s'"
proof -
  from assms(2) have inv: "inv (d_events (sy_d s))" and log: "fifo_ok (abs (d_events (sy_d s))) (queue_log_of s)"
    by (simp_all add: queue_ok_def)
  show ?thesis
    using assms(1)
  proof (cases rule: dispatch_step.cases)
    case (publish_push t c call r consumed q')
    with push_operation_abs [OF inv, of call] push_log [OF log] show ?thesis
      by (auto simp: queue_ok_def queue_log_of_def)
  next
    case (worker_pop t p q' e)
    with wait_pop_result [OF inv, of p q'] pop_log [OF log] show ?thesis
      by (auto simp: queue_ok_def queue_log_of_def)
  next
    case (worker_exit t p q')
    with wait_pop_result [OF inv, of p q'] no_pop_log [OF log] show ?thesis
      by (auto simp: queue_ok_def queue_log_of_def)
  next
    case (worker_fill_more t batch p q' e)
    with try_pop_abs [OF inv, of p q'] pop_log [OF log] show ?thesis
      by (auto simp: queue_ok_def queue_log_of_def)
  next
    case (worker_fill_stop t batch p q')
    with try_pop_abs [OF inv, of p q'] no_pop_log [OF log] show ?thesis
      by (auto simp: queue_ok_def queue_log_of_def)
  next
    case (shutdown_close_drain t q')
    obtain q1 where "qp_close P (d_events (sy_d s)) = Some q1" "inv q1" "abs q1 = spec_close (abs (d_events (sy_d s)))"
      using close_cases [OF inv] .
    with shutdown_close_drain fifo_ok_close [OF log] show ?thesis
      by (simp add: queue_ok_def queue_log_of_def spec_close_def)
  next
    case (shutdown_close_discard t n q')
    obtain n1 q1 where q1: "qp_close_and_discard P (d_events (sy_d s)) = Some (n1, q1)" "inv q1"
      "(n1, abs q1) = spec_close_and_discard (abs (d_events (sy_d s)))"
      using close_and_discard_cases [OF inv] .
    then have "unat n1 = length (aq_items (abs (d_events (sy_d s))))"
      using abs_ok [OF inv] by (auto simp: spec_close_and_discard_def aqueue_ok_def unat_of_nat_small)
    from fifo_ok_discard [OF log this] shutdown_close_discard q1 show ?thesis
      by (simp add: queue_ok_def queue_log_of_def spec_close_and_discard_def)
  next
    case (subscribe copyable callback_set options addr res d')
    then show ?thesis using assms(2) by (auto simp: queue_ok_def queue_log_of_def dest!: dispatcher_subscribe_fields)
  qed (use assms(2) in \<open>auto simp: queue_ok_def queue_log_of_def shutdown_begin_outcomes split: sum.splits\<close>)
qed

lemma finished_step:
  assumes "dispatch_step P s s'" "inv (d_events (sy_d s))" "finished (abs (d_events (sy_d s)))"
  shows "finished (abs (d_events (sy_d s')))"
  using assms(1)
proof (cases rule: dispatch_step.cases)
  case (publish_push t c call r consumed q')
  with push_operation_abs [OF assms(2), of call] finished_push [OF _ assms(3)] show ?thesis by simp blast
next
  case (worker_pop t p q' e)
  with wait_pop_result [OF assms(2), of p q'] finished_pop [OF _ assms(3)] show ?thesis by simp blast
next
  case (worker_exit t p q')
  with wait_pop_result [OF assms(2), of p q'] show ?thesis by auto
next
  case (worker_fill_more t batch p q' e)
  with try_pop_abs [OF assms(2), of p q'] finished_pop [OF _ assms(3)] show ?thesis by simp blast
next
  case (worker_fill_stop t batch p q')
  with try_pop_abs [OF assms(2), of p q'] finished_pop [OF _ assms(3)] show ?thesis by simp blast
next
  case (shutdown_close_drain t q')
  obtain q1 where "qp_close P (d_events (sy_d s)) = Some q1" "abs q1 = spec_close (abs (d_events (sy_d s)))"
    using close_cases [OF assms(2)] .
  with shutdown_close_drain assms(3) show ?thesis by (simp add: spec_close_def finished_def)
next
  case (shutdown_close_discard t n q')
  obtain n1 q1 where "qp_close_and_discard P (d_events (sy_d s)) = Some (n1, q1)"
    "(n1, abs q1) = spec_close_and_discard (abs (d_events (sy_d s)))"
    using close_and_discard_cases [OF assms(2)] .
  with shutdown_close_discard show ?thesis by (simp add: spec_close_and_discard_def finished_def)
next
  case (subscribe copyable callback_set options addr res d')
  then show ?thesis using assms(3) by (auto dest!: dispatcher_subscribe_fields)
qed (use assms(3) in \<open>simp_all add: shutdown_begin_outcomes split: sum.splits\<close>)

text \<open>A worker that exits in this step has seen the end of the queue.\<close>

lemma exits_step:
  assumes "dispatch_step P s s'" "inv (d_events (sy_d s))" "exits_ok s"
  shows "exits_ok s'"
proof (cases "\<exists>t < length (sy_workers s). sy_workers s ! t = W_exited")
  case True
  with assms(3) have "finished (abs (d_events (sy_d s)))" by (auto simp: exits_ok_def)
  from finished_step [OF assms(1,2) this] show ?thesis by (simp add: exits_ok_def)
next
  case False
  from assms(1) show ?thesis
  proof (cases rule: dispatch_step.cases)
    case (worker_exit t p q')
    with wait_pop_result [OF assms(2), of p q'] show ?thesis by (auto simp: exits_ok_def)
  qed (use False in \<open>auto simp: exits_ok_def nth_list_update\<close>)
qed

lemma counters_step:
  assumes "dispatch_step P s s'" "inv (d_events (sy_d s))" "counters_ok s"
  shows "counters_ok s'"
  using assms(1)
proof (cases rule: dispatch_step.cases)
  case (publish_push t c call r consumed q')
  then have "spec_push_result (abs (d_events (sy_d s))) c (r, consumed) (abs q')"
    using push_operation_abs [OF assms(2), of call] by simp
  then have "length (accepted_event r c) = counting_success (Pub_counting r :: 'e publisher_pc)"
    by (cases "Pub_counting r :: 'e publisher_pc" rule: counting_success.cases; cases c)
      (auto simp: spec_push_result_def spec_push_now_def)
  then have "(of_nat (length (accepted_event r c)) :: uint64_t) = of_nat (counting_success (Pub_counting r :: 'e publisher_pc))"
    by (rule arg_cong)
  moreover have "of_nat (length (sy_accepted_log s)) =
      d_accepted (sy_d s) + of_nat (tally counting_success (sy_publishers s))"
    using assms(3) by (simp add: counters_ok_def)
  ultimately show ?thesis using publish_push assms(3) by (simp add: counters_ok_def of_nat_tally_update)
next
  case (publish_count t r)
  then show ?thesis using assms(3)
    by (cases "Pub_counting r" rule: counting_success.cases)
      (auto simp: counters_ok_def of_nat_tally_update algebra_simps)
next
  case (subscribe copyable callback_set options addr res d')
  then show ?thesis using assms(3) by (auto simp: counters_ok_def dest!: dispatcher_subscribe_fields)
qed (use assms(3) in \<open>auto simp: counters_ok_def of_nat_tally_update algebra_simps shutdown_begin_outcomes\<close>)

text \<open>All of it, for every reachable state.\<close>

definition dispatch_inv :: "('e, 'q) dispatch_system \<Rightarrow> bool" where
  "dispatch_inv s = (queue_ok s \<and> exits_ok s \<and> counters_ok s \<and> held_ok s \<and> order_ok s \<and> policy_ok s \<and>
     exclusive_ok s \<and> pool_ok s \<and> (joined s \<longrightarrow> all_exited s))"

lemma dispatch_inv_step:
  assumes "dispatch_step P s s'" "dispatch_inv s"
  shows "dispatch_inv s'"
proof -
  from assms(2) have i: "queue_ok s" "exits_ok s" "counters_ok s" "held_ok s" "order_ok s" "policy_ok s"
    "pool_ok s" "joined s \<longrightarrow> all_exited s" "inv (d_events (sy_d s))" "exclusive_ok s"
    by (simp_all add: dispatch_inv_def queue_ok_def)
  note st = assms(1)
  have "joined s' \<longrightarrow> all_exited s'"
    using joined_step [OF st i(7)] exited_stable [OF st] i(8) by blast
  then show ?thesis
    unfolding dispatch_inv_def
    using dispatch_queue_step [OF st i(1)] exits_step [OF st i(9,2)] counters_step [OF st i(9,3)]
      held_step [OF st i(4)] order_step [OF st i(5)] shutdown_policy_step [OF st i(6)] pool_step [OF st i(7)]
      exclusive_step [OF st i(10)] by simp
qed

lemma dispatch_inv_start:
  assumes "dispatcher_new P config registry_this pool_this = Inr d"
  shows "dispatch_inv (dispatch_start publishers shutdowns d)"
proof -
  from dispatcher_new_fields [OF assms] have d: "qp_new P (dc_queue_capacity config) = Inr (d_events d)"
    "d_lifecycle d = running" "d_accepted d = 0" "d_dropped d = 0"
    "wp_workers (d_workers d) = replicate (unat (dc_worker_count config)) fresh_worker"
    "d_worker_count d = dc_worker_count config" "0 < unat (dc_worker_count config)"
    by auto
  then show ?thesis
    using new_ok [OF d(1)]
    by (auto simp: dispatch_inv_def dispatch_start_def queue_ok_def exits_ok_def counters_ok_def held_ok_def
        order_ok_def policy_ok_def exclusive_ok_def pool_ok_def joined_def queue_log_of_def fifo_ok_def
        tally_replicate held_by_workers_def gather_replicate list_all_iff list_ex_iff past_join_def stopping_def fresh_worker_def)
qed

lemma dispatch_reachable_inv: "dispatch_reachable P s \<Longrightarrow> dispatch_inv s"
  by (induction rule: dispatch_reachable.induct) (simp_all add: dispatch_inv_start dispatch_inv_step)

text \<open>What the invariant says of the events at any time, and when a call of \<open>shutdown\<close> has returned.\<close>

lemma conservation:
  assumes "dispatch_reachable P s"
  shows "\<exists>dropped. sy_accepted_log s = sy_popped_log s @ dropped @ aq_items (abs (d_events (sy_d s))) \<and>
      length dropped = sy_discarded s"
    and "mset (sy_popped_log s) = mset (sy_broadcast_log s) + held_by_workers (sy_workers s)"
    and "length (sy_workers s) = 1 \<Longrightarrow> sy_popped_log s = sy_broadcast_log s @ held (sy_workers s ! 0)"
    and "d_accepted (sy_d s) + of_nat (tally counting_success (sy_publishers s)) = of_nat (length (sy_accepted_log s))"
  using dispatch_reachable_inv [OF assms]
  by (auto simp: dispatch_inv_def queue_ok_def fifo_ok_def queue_log_of_def held_ok_def order_ok_def counters_ok_def)

lemma counting_dropped_none: "closing_policy pc = None \<Longrightarrow> counting_dropped pc = 0"
  by (cases pc) simp_all

lemma all_exited_held: "all_exited s \<Longrightarrow> held_by_workers (sy_workers s) = {#}"
  by (auto simp: all_exited_def held_by_workers_def gather_def list_all_iff)

lemma after_shutdown:
  assumes "dispatch_reachable P s" "Sd_returned \<in> set (sy_shutdowns s)"
  shows "d_lifecycle (sy_d s) = lifecycle_stopped" "all_exited s" "finished (abs (d_events (sy_d s)))"
    "d_dropped (sy_d s) = of_nat (sy_discarded s)" "mset (sy_popped_log s) = mset (sy_broadcast_log s)"
    "sy_policy s \<noteq> Some discard \<Longrightarrow> sy_discarded s = 0"
proof -
  note i = dispatch_reachable_inv [OF assms(1), unfolded dispatch_inv_def]
  from i assms(2) show stopped: "d_lifecycle (sy_d s) = lifecycle_stopped" by (simp add: exclusive_ok_def)
  with i show exited: "all_exited s" by (simp add: joined_def)
  with i show "finished (abs (d_events (sy_d s)))"
    by (auto simp: exits_ok_def pool_ok_def all_exited_def list_all_length)
  show "mset (sy_popped_log s) = mset (sy_broadcast_log s)"
    using conservation(2) [OF assms(1)] all_exited_held [OF exited] by simp
  have "tally carrying_out (sy_shutdowns s) = 0" using i stopped by (simp add: exclusive_ok_def stopping_def)
  then have "tally counting_dropped (sy_shutdowns s) = 0" using counting_dropped_none by (auto simp: tally_zero)
  with i show "d_dropped (sy_d s) = of_nat (sy_discarded s)" by (simp add: counters_ok_def)
  from i show "sy_policy s \<noteq> Some discard \<Longrightarrow> sy_discarded s = 0" by (auto simp: policy_ok_def)
qed

end

section \<open>The dispatcher over the mutex queue\<close>

interpretation mdt: dispatcher_threads mutex_queue_policy mq_abs mq_inv
  by (intro dispatcher_threads.intro dispatcher_queue.intro mq.concurrent_queue_axioms)

text \<open>Two complete runs with one publisher, one worker and one stopping thread: an event is published,
  then broadcast before a draining shutdown, or destroyed by a discarding one.\<close>

definition example_queue :: "nat option list \<Rightarrow> size_t \<Rightarrow> size_t \<Rightarrow> size_t \<Rightarrow> bool \<Rightarrow> nat bounded_mutex_queue" where
  "example_queue slots h t n c = \<lparr>mq_slots = slots, mq_head = h, mq_tail = t, mq_size = n, mq_closed = c\<rparr>"

definition example_parts ::
  "nat bounded_mutex_queue \<Rightarrow> lifecycle_state \<Rightarrow> uint64_t \<Rightarrow> uint64_t \<Rightarrow> worker_thread \<Rightarrow>
   (nat, nat bounded_mutex_queue) dispatcher" where
  "example_parts q l accepted dropped w = \<lparr>d_events = q, d_worker_batch_size = 1, d_subscribers = rg_new 1,
     d_lifecycle = l, d_accepted = accepted, d_rejected = 0, d_dropped = dropped,
     d_workers = \<lparr>wp_this = 2, wp_workers = [w]\<rparr>, d_shutdown_policy = drain\<rparr>"

definition example_system ::
  "(nat, nat bounded_mutex_queue) dispatcher \<Rightarrow> nat publisher_pc \<Rightarrow> nat worker_pc \<Rightarrow> shutdown_pc \<Rightarrow> nat list \<Rightarrow>
   nat list \<Rightarrow> nat list \<Rightarrow> nat \<Rightarrow> shutdown_policy option \<Rightarrow> (nat, nat bounded_mutex_queue) dispatch_system" where
  "example_system d p w sd accepted popped bcast n policy = \<lparr>sy_d = d, sy_publishers = [p], sy_workers = [w],
     sy_shutdowns = [sd], sy_accepted_log = accepted, sy_popped_log = popped, sy_broadcast_log = bcast,
     sy_errors = [], sy_discarded = n, sy_policy = policy\<rparr>"

lemmas example_defs = example_parts_def example_system_def

lemma replicate_two: "replicate 2 x = [x, x]"
  by (simp add: numeral_2_eq_2)

lemma example_queue_steps:
  "qp_new mutex_queue_policy 2 = Inr (example_queue [None, None] 0 0 0 False)"
  "qp_try_push mutex_queue_policy (example_queue [None, None] 0 0 0 False) (Inr 7) =
     Some ((Inr success, True), example_queue [Some 7, None] 0 1 1 False)"
  "qp_wait_pop mutex_queue_policy (example_queue [Some 7, None] 0 1 1 False) False =
     Some (pop_success 7, example_queue [None, None] 1 1 0 False)"
  "qp_close mutex_queue_policy (example_queue [None, None] 1 1 0 False) =
     Some (example_queue [None, None] 1 1 0 True)"
  "qp_wait_pop mutex_queue_policy (example_queue [None, None] 1 1 0 True) False =
     Some (pop_closed, example_queue [None, None] 1 1 0 True)"
  "qp_close_and_discard mutex_queue_policy (example_queue [Some 7, None] 0 1 1 False) =
     Some (1, example_queue [None, None] 1 1 0 True)"
  by (simp_all add: mutex_queue_policy_def example_queue_def mq_new_def mq_try_push_def mq_slots_size_def
      mq_push_and_notify_def mq_push_locked_def mq_increment_def mq_wait_pop_def mq_pop_locked_def
      cv_wait_def mq_close_def mq_close_and_discard_def mq_discard_loop.simps replicate_two)

abbreviation example_finished :: worker_thread where
  "example_finished \<equiv> fresh_worker\<lparr>wt_finished := True\<rparr>"

abbreviation example_joined :: worker_thread where
  "example_joined \<equiv> fresh_worker\<lparr>wt_finished := True, wt_joinable := False\<rparr>"

lemma example_stop_delivery: "rg_stop_delivery callbacks elapsed b (rg_new this) = Some (rg_new this)"
  "acquire_snapshot (rg_new this) = []"
  by (simp_all add: rg_stop_delivery_def acquire_snapshot_def rg_new_def)

lemma example_new: "dispatcher_new mutex_queue_policy \<lparr>dc_queue_capacity = 2, dc_worker_count = 1, dc_worker_batch_size = 1,
    dc_shutdown = drain\<rparr> 1 2 = Inr (example_parts (example_queue [None, None] 0 0 0 False) running 0 0 fresh_worker)"
  by (simp add: dispatcher_new_def make_state_def example_queue_steps example_parts_def wp_start_def wp_new_def)

lemma example_published:
  "dispatch_reachable mutex_queue_policy
     (example_system (example_parts (example_queue [Some 7, None] 0 1 1 False) running 1 0 fresh_worker)
        Pub_idle W_waiting Sd_idle [7] [] [] 0 None)"
proof -
  let ?d = "example_parts (example_queue [None, None] 0 0 0 False) running 0 0 fresh_worker"
  let ?q = "example_parts (example_queue [Some 7, None] 0 1 1 False) running 0 0 fresh_worker"
  have "dispatch_reachable mutex_queue_policy (dispatch_start 1 1 ?d)"
    using dispatch_reachable.start [OF example_new] .
  moreover have "dispatch_start 1 1 ?d = example_system ?d Pub_idle W_waiting Sd_idle [] [] [] 0 None"
    by (simp add: dispatch_start_def example_defs d_worker_count_def wp_size_def)
  ultimately have "dispatch_reachable mutex_queue_policy (example_system ?d Pub_idle W_waiting Sd_idle [] [] [] 0 None)"
    by simp
  then have "dispatch_reachable mutex_queue_policy
      (example_system ?d (Pub_checked (Inr 7)) W_waiting Sd_idle [] [] [] 0 None)"
    by (rule dispatch_reachable.step) (use dispatch_step.publish_check [of 0 "example_system ?d Pub_idle W_waiting
          Sd_idle [] [] [] 0 None"] in \<open>simp add: example_defs\<close>)
  then have "dispatch_reachable mutex_queue_policy
      (example_system ?q (Pub_counting (Inr success)) W_waiting Sd_idle [7] [] [] 0 None)"
    by (rule dispatch_reachable.step) (use dispatch_step.publish_push [of 0 "example_system ?d (Pub_checked (Inr 7))
          W_waiting Sd_idle [] [] [] 0 None" "Inr 7" "Try_push (Inr 7)" mutex_queue_policy] example_queue_steps
        in \<open>simp add: example_defs\<close>)
  then show ?thesis
    by (rule dispatch_reachable.step) (use dispatch_step.publish_count [of 0 "example_system ?q
          (Pub_counting (Inr success)) W_waiting Sd_idle [7] [] [] 0 None" "Inr success" mutex_queue_policy]
        in \<open>simp add: example_defs count_outcome_def\<close>)
qed

lemma example_drained:
  "dispatch_reachable mutex_queue_policy
     (example_system (example_parts (example_queue [None, None] 1 1 0 True) lifecycle_stopped 1 0 example_joined) Pub_idle W_exited Sd_returned
        [7] [7] [7] 0 (Some drain))"
proof -
  note simps = example_defs example_queue_steps example_stop_delivery shutdown_begin_outcomes worker_finished_def
    wp_join_def is_worker_thread_def
  from example_published have "dispatch_reachable mutex_queue_policy
      (example_system (example_parts (example_queue [None, None] 1 1 0 False) running 1 0 fresh_worker) Pub_idle (W_filling [7]) Sd_idle
        [7] [7] [] 0 None)"
    by (rule dispatch_reachable.step) (use dispatch_step.worker_pop [of 0 "example_system (example_parts (example_queue [Some 7, None] 0 1 1 False) running 1 0 fresh_worker) Pub_idle W_waiting Sd_idle
        [7] [] [] 0 None" mutex_queue_policy "pop_success 7"]
        in \<open>simp add: simps\<close>)
  then have "dispatch_reachable mutex_queue_policy
      (example_system (example_parts (example_queue [None, None] 1 1 0 False) running 1 0 fresh_worker) Pub_idle (W_filled [7]) Sd_idle
        [7] [7] [] 0 None)"
    by (rule dispatch_reachable.step) (use dispatch_step.worker_fill_full [of 0 "example_system (example_parts (example_queue [None, None] 1 1 0 False) running 1 0 fresh_worker) Pub_idle (W_filling [7]) Sd_idle
        [7] [7] [] 0 None" "[7]" mutex_queue_policy]
        in \<open>simp add: simps\<close>)
  then have "dispatch_reachable mutex_queue_policy
      (example_system (example_parts (example_queue [None, None] 1 1 0 False) running 1 0 fresh_worker) Pub_idle (W_broadcasting [] [] [7]) Sd_idle
        [7] [7] [] 0 None)"
    by (rule dispatch_reachable.step) (use dispatch_step.worker_snapshot [of 0 "example_system (example_parts (example_queue [None, None] 1 1 0 False) running 1 0 fresh_worker) Pub_idle (W_filled [7]) Sd_idle
        [7] [7] [] 0 None" "[7]" "[]" mutex_queue_policy]
        in \<open>simp add: simps\<close>)
  then have "dispatch_reachable mutex_queue_policy
      (example_system (example_parts (example_queue [None, None] 1 1 0 False) running 1 0 fresh_worker) Pub_idle (W_broadcasting [] [] []) Sd_idle
        [7] [7] [7] 0 None)"
    by (rule dispatch_reachable.step) (use dispatch_step.worker_event_done [of 0 "example_system (example_parts (example_queue [None, None] 1 1 0 False) running 1 0 fresh_worker) Pub_idle (W_broadcasting [] [] [7]) Sd_idle
        [7] [7] [] 0 None" "[]" 7 "[]" mutex_queue_policy]
        in \<open>simp add: simps\<close>)
  then have "dispatch_reachable mutex_queue_policy
      (example_system (example_parts (example_queue [None, None] 1 1 0 False) running 1 0 fresh_worker) Pub_idle W_waiting Sd_idle
        [7] [7] [7] 0 None)"
    by (rule dispatch_reachable.step) (use dispatch_step.worker_continue [of 0 "example_system (example_parts (example_queue [None, None] 1 1 0 False) running 1 0 fresh_worker) Pub_idle (W_broadcasting [] [] []) Sd_idle
        [7] [7] [7] 0 None" "[]" "[]" mutex_queue_policy]
        in \<open>simp add: simps\<close>)
  then have "dispatch_reachable mutex_queue_policy
      (example_system (example_parts (example_queue [None, None] 1 1 0 False) drain_stopping 1 0 fresh_worker) Pub_idle W_waiting (Sd_closing drain)
        [7] [7] [7] 0 (Some drain))"
    by (rule dispatch_reachable.step) (use dispatch_step.shutdown_proceed [of 0 "example_system (example_parts (example_queue [None, None] 1 1 0 False) running 1 0 fresh_worker) Pub_idle W_waiting Sd_idle
        [7] [7] [7] 0 None" drain _ mutex_queue_policy]
        in \<open>simp add: simps\<close>)
  then have "dispatch_reachable mutex_queue_policy
      (example_system (example_parts (example_queue [None, None] 1 1 0 True) drain_stopping 1 0 fresh_worker) Pub_idle W_waiting (Sd_joining drain)
        [7] [7] [7] 0 (Some drain))"
    by (rule dispatch_reachable.step) (use dispatch_step.shutdown_close_drain [of 0 "example_system (example_parts (example_queue [None, None] 1 1 0 False) drain_stopping 1 0 fresh_worker) Pub_idle W_waiting (Sd_closing drain)
        [7] [7] [7] 0 (Some drain)" mutex_queue_policy]
        in \<open>simp add: simps\<close>)
  then have "dispatch_reachable mutex_queue_policy
      (example_system (example_parts (example_queue [None, None] 1 1 0 True) drain_stopping 1 0 example_finished) Pub_idle W_exited (Sd_joining drain)
        [7] [7] [7] 0 (Some drain))"
    by (rule dispatch_reachable.step) (use dispatch_step.worker_exit [of 0 "example_system (example_parts (example_queue [None, None] 1 1 0 True) drain_stopping 1 0 fresh_worker) Pub_idle W_waiting (Sd_joining drain)
        [7] [7] [7] 0 (Some drain)" mutex_queue_policy]
        in \<open>simp add: simps\<close>)
  then have "dispatch_reachable mutex_queue_policy
      (example_system (example_parts (example_queue [None, None] 1 1 0 True) drain_stopping 1 0 example_joined) Pub_idle W_exited (Sd_joined drain)
        [7] [7] [7] 0 (Some drain))"
    by (rule dispatch_reachable.step) (use dispatch_step.shutdown_join [of 0 "example_system (example_parts (example_queue [None, None] 1 1 0 True) drain_stopping 1 0 example_finished) Pub_idle W_exited (Sd_joining drain)
        [7] [7] [7] 0 (Some drain)" drain "\<lparr>wp_this = 2, wp_workers = [example_joined]\<rparr>" mutex_queue_policy]
        in \<open>simp add: simps\<close>)
  then have "dispatch_reachable mutex_queue_policy
      (example_system (example_parts (example_queue [None, None] 1 1 0 True) drain_stopping 1 0 example_joined) Pub_idle W_exited (Sd_storing drain)
        [7] [7] [7] 0 (Some drain))"
    by (rule dispatch_reachable.step) (use dispatch_step.shutdown_drain [of 0 "example_system (example_parts (example_queue [None, None] 1 1 0 True) drain_stopping 1 0 example_joined) Pub_idle W_exited (Sd_joined drain)
        [7] [7] [7] 0 (Some drain)" "\<lambda>_ _ _. None" 0 "rg_new 1" mutex_queue_policy]
        in \<open>simp add: simps\<close>)
  then show ?thesis
    by (rule dispatch_reachable.step) (use dispatch_step.shutdown_store [of 0 "example_system (example_parts (example_queue [None, None] 1 1 0 True) drain_stopping 1 0 example_joined) Pub_idle W_exited (Sd_storing drain)
        [7] [7] [7] 0 (Some drain)" drain mutex_queue_policy]
        in \<open>simp add: simps\<close>)
qed

lemma example_discarded:
  "dispatch_reachable mutex_queue_policy
     (example_system (example_parts (example_queue [None, None] 1 1 0 True) lifecycle_stopped 1 1 example_joined) Pub_idle W_exited Sd_returned
        [7] [] [] 1 (Some discard))"
proof -
  note simps = example_defs example_queue_steps example_stop_delivery shutdown_begin_outcomes worker_finished_def
    wp_join_def is_worker_thread_def
  from example_published have "dispatch_reachable mutex_queue_policy
      (example_system (example_parts (example_queue [Some 7, None] 0 1 1 False) discard_stopping 1 0 fresh_worker) Pub_idle W_waiting (Sd_closing discard)
        [7] [] [] 0 (Some discard))"
    by (rule dispatch_reachable.step) (use dispatch_step.shutdown_proceed [of 0 "example_system (example_parts (example_queue [Some 7, None] 0 1 1 False) running 1 0 fresh_worker) Pub_idle W_waiting Sd_idle
        [7] [] [] 0 None" discard _ mutex_queue_policy]
        in \<open>simp add: simps\<close>)
  then have "dispatch_reachable mutex_queue_policy
      (example_system (example_parts (example_queue [None, None] 1 1 0 True) discard_stopping 1 0 fresh_worker) Pub_idle W_waiting (Sd_counting 1)
        [7] [] [] 1 (Some discard))"
    by (rule dispatch_reachable.step) (use dispatch_step.shutdown_close_discard [of 0 "example_system (example_parts (example_queue [Some 7, None] 0 1 1 False) discard_stopping 1 0 fresh_worker) Pub_idle W_waiting (Sd_closing discard)
        [7] [] [] 0 (Some discard)" mutex_queue_policy]
        in \<open>simp add: simps\<close>)
  then have "dispatch_reachable mutex_queue_policy
      (example_system (example_parts (example_queue [None, None] 1 1 0 True) discard_stopping 1 1 fresh_worker) Pub_idle W_waiting Sd_stopping
        [7] [] [] 1 (Some discard))"
    by (rule dispatch_reachable.step) (use dispatch_step.shutdown_count [of 0 "example_system (example_parts (example_queue [None, None] 1 1 0 True) discard_stopping 1 0 fresh_worker) Pub_idle W_waiting (Sd_counting 1)
        [7] [] [] 1 (Some discard)" 1 mutex_queue_policy]
        in \<open>simp add: simps\<close>)
  then have "dispatch_reachable mutex_queue_policy
      (example_system (example_parts (example_queue [None, None] 1 1 0 True) discard_stopping 1 1 fresh_worker) Pub_idle W_waiting (Sd_joining discard)
        [7] [] [] 1 (Some discard))"
    by (rule dispatch_reachable.step) (use dispatch_step.shutdown_stop [of 0 "example_system (example_parts (example_queue [None, None] 1 1 0 True) discard_stopping 1 1 fresh_worker) Pub_idle W_waiting Sd_stopping
        [7] [] [] 1 (Some discard)" "\<lambda>_ _ _. None" 0 "rg_new 1" mutex_queue_policy]
        in \<open>simp add: simps\<close>)
  then have "dispatch_reachable mutex_queue_policy
      (example_system (example_parts (example_queue [None, None] 1 1 0 True) discard_stopping 1 1 example_finished) Pub_idle W_exited (Sd_joining discard)
        [7] [] [] 1 (Some discard))"
    by (rule dispatch_reachable.step) (use dispatch_step.worker_exit [of 0 "example_system (example_parts (example_queue [None, None] 1 1 0 True) discard_stopping 1 1 fresh_worker) Pub_idle W_waiting (Sd_joining discard)
        [7] [] [] 1 (Some discard)" mutex_queue_policy]
        in \<open>simp add: simps\<close>)
  then have "dispatch_reachable mutex_queue_policy
      (example_system (example_parts (example_queue [None, None] 1 1 0 True) discard_stopping 1 1 example_joined) Pub_idle W_exited (Sd_joined discard)
        [7] [] [] 1 (Some discard))"
    by (rule dispatch_reachable.step) (use dispatch_step.shutdown_join [of 0 "example_system (example_parts (example_queue [None, None] 1 1 0 True) discard_stopping 1 1 example_finished) Pub_idle W_exited (Sd_joining discard)
        [7] [] [] 1 (Some discard)" discard "\<lparr>wp_this = 2, wp_workers = [example_joined]\<rparr>" mutex_queue_policy]
        in \<open>simp add: simps\<close>)
  then have "dispatch_reachable mutex_queue_policy
      (example_system (example_parts (example_queue [None, None] 1 1 0 True) discard_stopping 1 1 example_joined) Pub_idle W_exited (Sd_storing discard)
        [7] [] [] 1 (Some discard))"
    by (rule dispatch_reachable.step) (use dispatch_step.shutdown_discarded [of 0 "example_system (example_parts (example_queue [None, None] 1 1 0 True) discard_stopping 1 1 example_joined) Pub_idle W_exited (Sd_joined discard)
        [7] [] [] 1 (Some discard)" mutex_queue_policy]
        in \<open>simp add: simps\<close>)
  then show ?thesis
    by (rule dispatch_reachable.step) (use dispatch_step.shutdown_store [of 0 "example_system (example_parts (example_queue [None, None] 1 1 0 True) discard_stopping 1 1 example_joined) Pub_idle W_exited (Sd_storing discard)
        [7] [] [] 1 (Some discard)" discard mutex_queue_policy]
        in \<open>simp add: simps\<close>)
qed

text \<open>
  Property C5. Conservation and order at every moment, for any interleaving of publishers, workers and
  stopping threads over the mutex queue: the accepted events are, in queue order, those the workers
  took, then those a discarding shutdown destroyed, then those still queued; every event the workers
  took is broadcast once or in the batch of exactly one worker; and the accepted counter is the number of
  accepted events, less those whose publisher has not counted yet.
\<close>

theorem dispatch_conservation:
  assumes "dispatch_reachable mutex_queue_policy s"
  shows "(\<exists>dropped. sy_accepted_log s = sy_popped_log s @ dropped @ mq_items (d_events (sy_d s)) \<and>
      length dropped = sy_discarded s) \<and>
    mset (sy_popped_log s) = mset (sy_broadcast_log s) + held_by_workers (sy_workers s) \<and>
    d_accepted (sy_d s) + of_nat (tally counting_success (sy_publishers s)) = of_nat (length (sy_accepted_log s))"
  using mdt.conservation(1,2,4) [OF assms] by simp

theorem dispatch_conservation_witness:
  "\<exists>s :: (nat, nat bounded_mutex_queue) dispatch_system. dispatch_reachable mutex_queue_policy s \<and>
     sy_accepted_log s = [7] \<and> d_accepted (sy_d s) = 1 \<and>
     mset (sy_popped_log s) = mset (sy_broadcast_log s) + held_by_workers (sy_workers s)"
  using dispatch_conservation [OF example_drained] example_drained by (force simp: example_defs)

text \<open>
  Property C4. A draining shutdown loses nothing: when a call of \<open>shutdown\<close> has returned, the lifecycle is
  stopped, every worker has exited, the mutex queue is closed and empty, and if the policy was drain then
  every accepted event was broadcast exactly once and none was dropped.
\<close>

theorem drain_shutdown_complete:
  assumes "dispatch_reachable mutex_queue_policy s" "Sd_returned \<in> set (sy_shutdowns s)"
  shows "d_lifecycle (sy_d s) = lifecycle_stopped \<and> all_exited s \<and> mq_closed (d_events (sy_d s)) \<and>
    mq_items (d_events (sy_d s)) = [] \<and>
    (sy_policy s = Some drain \<longrightarrow>
       mset (sy_broadcast_log s) = mset (sy_accepted_log s) \<and> d_dropped (sy_d s) = 0)"
  using mdt.after_shutdown [OF assms] mdt.conservation(1) [OF assms(1)] by (auto simp: finished_def)

theorem drain_shutdown_complete_witness:
  "\<exists>s :: (nat, nat bounded_mutex_queue) dispatch_system. dispatch_reachable mutex_queue_policy s \<and>
     sy_policy s = Some drain \<and> sy_accepted_log s = [7] \<and> mset (sy_broadcast_log s) = {#7#} \<and>
     d_lifecycle (sy_d s) = lifecycle_stopped"
  using drain_shutdown_complete [OF example_drained] example_drained by (force simp: example_defs)

text \<open>
  Property C23. A discarding shutdown accounts for every event: when a call of \<open>shutdown\<close> has returned, the
  events that were broadcast are a prefix of the accepted ones (as a multiset, since several workers
  broadcast concurrently), the rest were dropped, and the dropped counter is their number.
\<close>

theorem discard_shutdown_accounts:
  assumes "dispatch_reachable mutex_queue_policy s" "Sd_returned \<in> set (sy_shutdowns s)"
  shows "\<exists>taken dropped. sy_accepted_log s = taken @ dropped \<and> mset (sy_broadcast_log s) = mset taken \<and>
    d_dropped (sy_d s) = of_nat (length dropped) \<and>
    length (sy_accepted_log s) = length (sy_broadcast_log s) + sy_discarded s"
proof -
  note a = mdt.after_shutdown [OF assms]
  from mdt.conservation(1) [OF assms(1)] a(3) obtain dropped where
    d: "sy_accepted_log s = sy_popped_log s @ dropped" "length dropped = sy_discarded s"
    by (auto simp: finished_def)
  with a(4,5) mset_eq_length [OF a(5)] show ?thesis
    by (intro exI [of _ "sy_popped_log s"] exI [of _ dropped]) simp
qed

theorem discard_shutdown_accounts_witness:
  "\<exists>s :: (nat, nat bounded_mutex_queue) dispatch_system. dispatch_reachable mutex_queue_policy s \<and>
     sy_accepted_log s = [7] \<and> sy_broadcast_log s = [] \<and>
     (\<exists>dropped. d_dropped (sy_d s) = of_nat (length dropped) \<and> sy_accepted_log s = [] @ dropped)"
  using discard_shutdown_accounts [OF example_discarded] example_discarded by (force simp: example_defs)

text \<open>
  Property C22. With one worker the events are broadcast in the order in which they were accepted: what was
  broadcast is a prefix of what was accepted, and all of it once a draining shutdown has returned.
\<close>

theorem single_worker_order:
  assumes "dispatch_reachable mutex_queue_policy s" "length (sy_workers s) = 1"
  shows "(\<exists>rest. sy_accepted_log s = sy_broadcast_log s @ rest) \<and>
    (Sd_returned \<in> set (sy_shutdowns s) \<and> sy_policy s = Some drain \<longrightarrow>
       sy_broadcast_log s = sy_accepted_log s)"
proof -
  from mdt.conservation(1) [OF assms(1)] obtain dropped where
    d: "sy_accepted_log s = sy_popped_log s @ dropped @ mq_items (d_events (sy_d s))" "length dropped = sy_discarded s"
    by auto
  note order = mdt.conservation(3) [OF assms]
  have "sy_broadcast_log s = sy_accepted_log s" if "Sd_returned \<in> set (sy_shutdowns s)" "sy_policy s = Some drain"
  proof -
    note a = mdt.after_shutdown [OF assms(1) that(1)]
    from a(6) that(2) d(2) have "dropped = []" by simp
    moreover have "mq_items (d_events (sy_d s)) = []" using a(3) by (simp add: finished_def)
    moreover have "held (sy_workers s ! 0) = []"
      using a(2) assms(2) by (simp add: all_exited_def list_all_length)
    ultimately show ?thesis using d(1) order by simp
  qed
  with d(1) order show ?thesis by simp
qed

theorem single_worker_order_witness:
  "\<exists>s :: (nat, nat bounded_mutex_queue) dispatch_system. dispatch_reachable mutex_queue_policy s \<and>
     sy_accepted_log s = [7] \<and> sy_broadcast_log s = sy_accepted_log s"
  using single_worker_order [OF example_drained] example_drained by (force simp: example_defs)

end
