(* ===== verification/Programs.thy ===== *)
theory Programs
  imports Dispatcher_Threads
begin

text \<open>
  Programs that use a dispatcher from their main thread: subscribe, publish, shut down, look at the
  counters. The main thread is interleaved with the dispatcher's workers and with the executors of
  isolated subscribers. Publishing, popping and the sections of \<open>shutdown\<close> are steps as in \<open>Dispatcher_Threads\<close>; a
  delivery of one event to one subscriber by a worker (\<open>try_invoke\<close> from \<open>begin_invocation\<close> to \<open>finish_invocation\<close>) is one step,
  and so is one round of an executor (take an event, run the callback, finish); what happens inside of these is the subject of
  \<open>Subscriber_Threads\<close>. The callbacks are fixed, they all take the same \<open>elapsed\<close> time, and the registry changes only through
  deliveries. The commands are those that the programs of \<open>src/examples/\<close> make, which are instances: the calls
  of \<open>lifecycle_usage.cpp\<close>, and the test of \<open>dispatcher_usage.cpp\<close> that leaves \<open>main\<close> when a publication failed.
\<close>

section \<open>Main threads\<close>

text \<open>\<open>try_publish\<close>, \<open>publish\<close> or \<open>publish_for\<close>, with the default stop token.\<close>

datatype publish_kind = Try | Block | Timed

datatype 'e main_command =
    Subscribe_call subscription_options
  | Publish_call publish_kind 'e
  | Return_unless_success nat
  | Shutdown_call

fun publish_call :: "publish_kind \<Rightarrow> bool \<Rightarrow> 'e \<Rightarrow> 'e queue_call" where
  "publish_call Try expired e = Try_push (Inr e)"
| "publish_call Block expired e = Wait_push (Inr e) False"
| "publish_call Timed expired e = Wait_push_until (Inr e) False expired"

text \<open>The results of the publications so far, and the code that \<open>main\<close> returns.\<close>

record 'e main_thread =
  mt_todo :: "'e main_command list"
  mt_statuses :: "queue_status list"
  mt_exit :: nat

text \<open>The sections of \<open>publish_with\<close> and of \<open>shutdown\<close>, as steps of the main thread, which is publisher 0 and
  stopping thread 0 of the system. \<open>expired\<close> says whether the deadline of a timed publication has passed. \<open>None\<close> waits,
  or is an exception out of \<open>main\<close>.\<close>

definition publish_move ::
  "('e, 'q) queue_policy \<Rightarrow> bool \<Rightarrow> publish_kind \<Rightarrow> 'e \<Rightarrow> ('e, 'q) dispatch_system \<Rightarrow>
   (queue_status option \<times> ('e, 'q) dispatch_system) option" where
  "publish_move P expired kind e s = (case sy_publishers s ! 0 of
       Pub_idle \<Rightarrow>
         (if d_lifecycle (sy_d s) = running
          then Some (None, s\<lparr>sy_publishers := (sy_publishers s)[0 := Pub_checked (Inr e)]\<rparr>)
          else Some (Some closed, s\<lparr>sy_d := (sy_d s)\<lparr>d_rejected := d_rejected (sy_d s) + 1\<rparr>\<rparr>))
     | Pub_checked c \<Rightarrow> (case push_operation P (publish_call kind expired e) (d_events (sy_d s)) of
           None \<Rightarrow> None
         | Some ((r, consumed), q') \<Rightarrow> Some (None, s\<lparr>sy_d := (sy_d s)\<lparr>d_events := q'\<rparr>,
             sy_publishers := (sy_publishers s)[0 := Pub_counting r],
             sy_accepted_log := sy_accepted_log s @ accepted_event r (Inr e)\<rparr>))
     | Pub_counting (Inr st) \<Rightarrow> Some (Some st, s\<lparr>sy_d := count_outcome st (sy_d s),
         sy_publishers := (sy_publishers s)[0 := Pub_idle]\<rparr>)
     | Pub_counting (Inl x) \<Rightarrow> None)"

definition shutdown_move ::
  "('e, 'q) queue_policy \<Rightarrow> 'e callbacks \<Rightarrow> int \<Rightarrow> ('e, 'q) dispatch_system \<Rightarrow> ('e, 'q) dispatch_system option" where
  "shutdown_move P callbacks elapsed s =
     (let policy = d_shutdown_policy (sy_d s);
          at = (\<lambda>pc s. s\<lparr>sy_shutdowns := (sy_shutdowns s)[0 := pc]\<rparr>) in
      case sy_shutdowns s ! 0 of
        Sd_idle \<Rightarrow> (case shutdown_begin policy None [] (sy_d s) of
            (Inr Shutdown_return, d') \<Rightarrow> Some ((at Sd_returned (s\<lparr>sy_d := d'\<rparr>)))
          | (Inr Shutdown_wait, d') \<Rightarrow> Some ((at Sd_waiting (s\<lparr>sy_d := d'\<rparr>)))
          | (Inr Shutdown_proceed, d') \<Rightarrow> Some ((at (Sd_closing policy) (s\<lparr>sy_d := d'\<rparr>))
                   \<lparr>sy_policy := Some policy\<rparr>)
          | (Inl x, d') \<Rightarrow> None)
      | Sd_closing drain \<Rightarrow> map_option (\<lambda>q'. (at (Sd_joining drain) (s\<lparr>sy_d := (sy_d s)\<lparr>d_events := q'\<rparr>\<rparr>)))
          (qp_close P (d_events (sy_d s)))
      | Sd_closing discard \<Rightarrow> map_option (\<lambda>(n, q'). (at (Sd_counting n) (s\<lparr>sy_d := (sy_d s)\<lparr>d_events := q'\<rparr>\<rparr>))
                   \<lparr>sy_discarded := sy_discarded s + unat n\<rparr>) (qp_close_and_discard P (d_events (sy_d s)))
      | Sd_counting n \<Rightarrow> Some ((at Sd_stopping (s\<lparr>sy_d := (sy_d s)\<lparr>d_dropped := d_dropped (sy_d s) + n\<rparr>\<rparr>)))
      | Sd_stopping \<Rightarrow> map_option (\<lambda>r'. (at (Sd_joining discard) (s\<lparr>sy_d := (sy_d s)\<lparr>d_subscribers := r'\<rparr>\<rparr>)))
          (rg_stop_delivery callbacks elapsed False (d_subscribers (sy_d s)))
      | Sd_joining p \<Rightarrow> (case wp_join None (d_workers (sy_d s)) of
            Some (Inr _, pool') \<Rightarrow> Some ((at (Sd_joined p) (s\<lparr>sy_d := (sy_d s)\<lparr>d_workers := pool'\<rparr>\<rparr>)))
          | _ \<Rightarrow> None)
      | Sd_joined drain \<Rightarrow> map_option (\<lambda>r'. (at (Sd_storing drain) (s\<lparr>sy_d := (sy_d s)\<lparr>d_subscribers := r'\<rparr>\<rparr>)))
          (rg_stop_delivery callbacks elapsed True (d_subscribers (sy_d s)))
      | Sd_joined discard \<Rightarrow> Some (at (Sd_storing discard) s)
      | Sd_storing p \<Rightarrow> Some ((at Sd_returned (s\<lparr>sy_d := (sy_d s)\<lparr>d_lifecycle := lifecycle_stopped\<rparr>\<rparr>)))
      | Sd_waiting \<Rightarrow> (if d_lifecycle (sy_d s) = lifecycle_stopped then Some (at Sd_returned s) else None)
      | Sd_returned \<Rightarrow> None)"

text \<open>One move of the main thread. \<open>addr\<close> is where a new subscriber is allocated.\<close>

definition main_move ::
  "('e, 'q) queue_policy \<Rightarrow> 'e callbacks \<Rightarrow> int \<Rightarrow> bool \<Rightarrow> nat \<Rightarrow> 'e main_thread \<times> ('e, 'q) dispatch_system \<Rightarrow>
   ('e main_thread \<times> ('e, 'q) dispatch_system) option" where
  "main_move P callbacks elapsed expired addr = (\<lambda>(m, s). case mt_todo m of
       [] \<Rightarrow> None
     | Subscribe_call options # todo \<Rightarrow>
         (case dispatcher_subscribe True True options addr (sy_d s) of
            (Inr p, d') \<Rightarrow> Some (m\<lparr>mt_todo := todo\<rparr>, s\<lparr>sy_d := d'\<rparr>)
          | (Inl x, d') \<Rightarrow> None)
     | Publish_call kind e # todo \<Rightarrow> (case publish_move P expired kind e s of
           None \<Rightarrow> None
         | Some (None, s') \<Rightarrow> Some (m, s')
         | Some (Some st, s') \<Rightarrow> Some (m\<lparr>mt_todo := todo, mt_statuses := mt_statuses m @ [st]\<rparr>, s'))
     | Return_unless_success code # todo \<Rightarrow> Some
         (if last (mt_statuses m) = success then m\<lparr>mt_todo := todo\<rparr> else m\<lparr>mt_todo := [], mt_exit := code\<rparr>, s)
     | Shutdown_call # todo \<Rightarrow>
         (if sy_shutdowns s ! 0 = Sd_returned then Some (m\<lparr>mt_todo := todo\<rparr>, s)
          else map_option (\<lambda>s'. (m, s')) (shutdown_move P callbacks elapsed s)))"

section \<open>Workers and executors\<close>

definition worker_move ::
  "('e, 'q) queue_policy \<Rightarrow> 'e callbacks \<Rightarrow> int \<Rightarrow> nat \<Rightarrow> ('e, 'q) dispatch_system \<Rightarrow>
   ('e, 'q) dispatch_system option" where
  "worker_move P callbacks elapsed t s =
     (let d = sy_d s; at = (\<lambda>pc s. s\<lparr>sy_workers := (sy_workers s)[t := pc]\<rparr>) in
      case sy_workers s ! t of
        W_waiting \<Rightarrow> (case qp_wait_pop P (d_events d) False of
            None \<Rightarrow> None
          | Some (p, q') \<Rightarrow>
              if pr_status p = success
              then (case pop_value p of
                  Inl x \<Rightarrow> None
                | Inr e \<Rightarrow> Some ((at (W_filling [e]) (s\<lparr>sy_d := d\<lparr>d_events := q'\<rparr>\<rparr>))
                   \<lparr>sy_popped_log := sy_popped_log s @ [e]\<rparr>))
              else if pr_status p \<in> {closed, stopped}
              then Some ((at W_exited (s\<lparr>sy_d := d\<lparr>d_events := q', d_workers := worker_finished t (d_workers d)\<rparr>\<rparr>)))
              else None)
      | W_filling batch \<Rightarrow>
          (if length batch < unat (d_worker_batch_size d)
           then (case qp_try_pop P (d_events d) of
               None \<Rightarrow> None
             | Some (p, q') \<Rightarrow>
                 if pr_status p = success
                 then (case pop_value p of
                     Inl x \<Rightarrow> None
                   | Inr e \<Rightarrow> Some ((at (W_filling (batch @ [e])) (s\<lparr>sy_d := d\<lparr>d_events := q'\<rparr>\<rparr>))
                   \<lparr>sy_popped_log := sy_popped_log s @ [e]\<rparr>))
                 else Some ((at (W_filled batch) (s\<lparr>sy_d := d\<lparr>d_events := q'\<rparr>\<rparr>))))
           else Some (at (W_filled batch) s))
      | W_filled batch \<Rightarrow> (let snapshot = acquire_snapshot (d_subscribers d) in
          Some (at (W_broadcasting snapshot snapshot batch) s))
      | W_broadcasting snapshot ps [] \<Rightarrow> Some (at W_waiting s)
      | W_broadcasting snapshot [] (e # es) \<Rightarrow>
          Some ((at (W_broadcasting snapshot snapshot es) s)\<lparr>sy_broadcast_log := sy_broadcast_log s @ [e]\<rparr>)
      | W_broadcasting snapshot (p # ps) (e # es) \<Rightarrow>
          (case deliver_to True callbacks elapsed [] e (Inr e) p (d_subscribers d) of
             None \<Rightarrow> None
           | Some (res, r') \<Rightarrow> Some ((at (W_broadcasting snapshot ps (e # es)) (s\<lparr>sy_d := d\<lparr>d_subscribers := r'\<rparr>\<rparr>))
                   \<lparr>sy_errors := sy_errors s @ (case res of Inl x \<Rightarrow> [x] | Inr _ \<Rightarrow> [])\<rparr>))
      | W_exited \<Rightarrow> None)"

text \<open>The executor of the isolated subscriber at \<open>p\<close> handles one event of its mailbox.\<close>

definition executor_move ::
  "'e callbacks \<Rightarrow> int \<Rightarrow> nat \<Rightarrow> ('e, 'q) dispatch_system \<Rightarrow> ('e, 'q) dispatch_system option" where
  "executor_move callbacks elapsed p s =
     (let d = sy_d s; r = d_subscribers d in
      case rg_heap r p of
        None \<Rightarrow> None
      | Some st \<Rightarrow>
          if \<not> is_isolated st \<or> \<not> ss_executor_joinable st then None
          else (case executor_next st of
            Some (Some e, st') \<Rightarrow> Some (s\<lparr>sy_d := d\<lparr>d_subscribers :=
              r\<lparr>rg_heap := (rg_heap r)(p \<mapsto> executor_deliver (callbacks p) elapsed e st')\<rparr>\<rparr>\<rparr>)
          | _ \<Rightarrow> None))"

text \<open>\<open>report_error\<close>: the handler may be empty, and what it throws is swallowed. A handler changes some state of
  the application, such as what is printed.\<close>

definition report_error :: "(exn \<Rightarrow> 'w \<Rightarrow> exn option \<times> 'w) option \<Rightarrow> exn \<Rightarrow> 'w \<Rightarrow> 'w" where
  "report_error on_error error w = (case on_error of None \<Rightarrow> w | Some handler \<Rightarrow> snd (handler error w))"

inductive program_step ::
  "('e, 'q) queue_policy \<Rightarrow> 'e callbacks \<Rightarrow> int \<Rightarrow> 'e main_thread \<times> ('e, 'q) dispatch_system \<Rightarrow>
   'e main_thread \<times> ('e, 'q) dispatch_system \<Rightarrow> bool" for P callbacks elapsed where
  main: "main_move P callbacks elapsed expired addr (m, s) = Some (m', s') \<Longrightarrow>
    rg_heap (d_subscribers (sy_d s)) addr = None \<Longrightarrow> program_step P callbacks elapsed (m, s) (m', s')"
| worker: "t < length (sy_workers s) \<Longrightarrow> worker_move P callbacks elapsed t s = Some s' \<Longrightarrow>
    program_step P callbacks elapsed (m, s) (m, s')"
| executor: "executor_move callbacks elapsed p s = Some s' \<Longrightarrow> program_step P callbacks elapsed (m, s) (m, s')"

definition main_start :: "'e main_command list \<Rightarrow> 'e main_thread" where
  "main_start commands = \<lparr>mt_todo = commands, mt_statuses = [], mt_exit = 0\<rparr>"

inductive program_reached ::
  "('e, 'q) queue_policy \<Rightarrow> 'e callbacks \<Rightarrow> int \<Rightarrow> dispatcher_config \<Rightarrow> 'e main_command list \<Rightarrow>
   'e main_thread \<times> ('e, 'q) dispatch_system \<Rightarrow> bool" for P callbacks elapsed config commands where
  start: "dispatcher_new P config registry_this pool_this = Inr d \<Longrightarrow>
    program_reached P callbacks elapsed config commands (main_start commands, dispatch_start 1 1 d)"
| step: "program_reached P callbacks elapsed config commands c \<Longrightarrow> program_step P callbacks elapsed c c' \<Longrightarrow>
    program_reached P callbacks elapsed config commands c'"

text \<open>A schedule that can be run.\<close>

datatype program_action = Main_move bool nat | Worker_move nat | Executor_move nat

fun program_act ::
  "('e, 'q) queue_policy \<Rightarrow> 'e callbacks \<Rightarrow> int \<Rightarrow> program_action \<Rightarrow> 'e main_thread \<times> ('e, 'q) dispatch_system \<Rightarrow>
   ('e main_thread \<times> ('e, 'q) dispatch_system) option" where
  "program_act P callbacks elapsed (Main_move expired addr) (m, s) =
     (if rg_heap (d_subscribers (sy_d s)) addr = None then main_move P callbacks elapsed expired addr (m, s) else None)"
| "program_act P callbacks elapsed (Worker_move t) (m, s) =
     (if t < length (sy_workers s) then map_option (Pair m) (worker_move P callbacks elapsed t s) else None)"
| "program_act P callbacks elapsed (Executor_move p) (m, s) = map_option (Pair m) (executor_move callbacks elapsed p s)"

fun program_run ::
  "('e, 'q) queue_policy \<Rightarrow> 'e callbacks \<Rightarrow> int \<Rightarrow> program_action list \<Rightarrow> 'e main_thread \<times> ('e, 'q) dispatch_system \<Rightarrow>
   ('e main_thread \<times> ('e, 'q) dispatch_system) option" where
  "program_run P callbacks elapsed [] c = Some c"
| "program_run P callbacks elapsed (a # as) c = (case program_act P callbacks elapsed a c of
     None \<Rightarrow> None
   | Some c' \<Rightarrow> program_run P callbacks elapsed as c')"

definition run_program ::
  "('e, 'q) queue_policy \<Rightarrow> 'e callbacks \<Rightarrow> int \<Rightarrow> dispatcher_config \<Rightarrow> 'e main_command list \<Rightarrow> program_action list \<Rightarrow>
   ('e main_thread \<times> ('e, 'q) dispatch_system) option" where
  "run_program P callbacks elapsed config commands as = (case dispatcher_new P config 1 2 of
     Inl x \<Rightarrow> None
   | Inr d \<Rightarrow> program_run P callbacks elapsed as (main_start commands, dispatch_start 1 1 d))"

lemma program_act_step: "program_act P callbacks elapsed a c = Some c' \<Longrightarrow> program_step P callbacks elapsed c c'"
  by (cases "(P, callbacks, elapsed, a, c)" rule: program_act.cases; cases c')
    (auto intro: program_step.intros split: if_splits)

lemma program_run_reached:
  "program_reached P callbacks elapsed config commands c \<Longrightarrow> program_run P callbacks elapsed as c = Some c' \<Longrightarrow>
     program_reached P callbacks elapsed config commands c'"
proof (induction as arbitrary: c)
  case (Cons a as)
  then obtain c1 where "program_act P callbacks elapsed a c = Some c1" "program_run P callbacks elapsed as c1 = Some c'"
    by (auto split: option.splits)
  with Cons.IH program_reached.step [OF Cons.prems(1) program_act_step] show ?case by blast
qed simp

lemma run_program_reached:
  "run_program P callbacks elapsed config commands as = Some c \<Longrightarrow> program_reached P callbacks elapsed config commands c"
  by (auto simp: run_program_def intro: program_run_reached program_reached.start split: sum.splits)

section \<open>Every move is a step of the dispatcher\<close>

lemma publish_move_step:
  assumes "publish_move P expired kind e s = Some (r, s')" "length (sy_publishers s) = 1"
    "\<And>c. sy_publishers s ! 0 = Pub_checked c \<Longrightarrow> c = Inr e"
  shows "dispatch_step P s s'"
proof (cases "sy_publishers s ! 0")
  case Pub_idle
  with assms(1,2) show ?thesis
    using dispatch_step.publish_check [of 0 s P "Inr e"] dispatch_step.publish_reject [of 0 s P]
    by (auto simp: publish_move_def split: if_splits)
next
  case (Pub_checked c)
  have "pushed_event (publish_call kind expired e) = Inr e" by (cases kind) simp_all
  with assms Pub_checked show ?thesis
    using dispatch_step.publish_push [of 0 s "Inr e" "publish_call kind expired e" P]
    by (auto simp: publish_move_def split: option.splits)
next
  case (Pub_counting x)
  with assms(1,2) show ?thesis using dispatch_step.publish_count [of 0 s x P]
    by (cases x) (auto simp: publish_move_def)
qed

lemma shutdown_move_step:
  assumes "shutdown_move P callbacks elapsed s = Some s'" "length (sy_shutdowns s) = 1"
  shows "dispatch_step P s s'"
proof (cases "sy_shutdowns s ! 0")
  case Sd_idle
  with assms show ?thesis
    using dispatch_step.shutdown_return [of 0 s "d_shutdown_policy (sy_d s)" _ P]
      dispatch_step.shutdown_wait [of 0 s "d_shutdown_policy (sy_d s)" _ P]
      dispatch_step.shutdown_proceed [of 0 s "d_shutdown_policy (sy_d s)" _ P]
    by (auto simp: shutdown_move_def Let_def split: prod.splits sum.splits shutdown_action.splits)
next
  case (Sd_closing p)
  with assms show ?thesis
    using dispatch_step.shutdown_close_drain [of 0 s P] dispatch_step.shutdown_close_discard [of 0 s P]
    by (cases p) (auto simp: shutdown_move_def Let_def)
next
  case (Sd_counting n)
  with assms show ?thesis using dispatch_step.shutdown_count [of 0 s n P] by (auto simp: shutdown_move_def Let_def)
next
  case Sd_stopping
  with assms show ?thesis using dispatch_step.shutdown_stop [of 0 s callbacks elapsed _ P]
    by (auto simp: shutdown_move_def Let_def)
next
  case (Sd_joining p)
  with assms show ?thesis using dispatch_step.shutdown_join [of 0 s p _ P]
    by (auto simp: shutdown_move_def Let_def split: option.splits sum.splits)
next
  case (Sd_joined p)
  with assms show ?thesis
    using dispatch_step.shutdown_drain [of 0 s callbacks elapsed _ P] dispatch_step.shutdown_discarded [of 0 s P]
    by (cases p) (auto simp: shutdown_move_def Let_def)
next
  case (Sd_storing p)
  with assms show ?thesis using dispatch_step.shutdown_store [of 0 s p P] by (auto simp: shutdown_move_def Let_def)
next
  case Sd_waiting
  with assms show ?thesis using dispatch_step.shutdown_awaited [of 0 s P]
    by (auto simp: shutdown_move_def Let_def split: if_splits)
qed (use assms in \<open>simp add: shutdown_move_def Let_def\<close>)

lemma worker_move_step:
  assumes "worker_move P callbacks elapsed t s = Some s'" "t < length (sy_workers s)"
  shows "dispatch_step P s s'"
proof (cases "sy_workers s ! t")
  case W_waiting
  with assms show ?thesis
    using dispatch_step.worker_pop [of t s P] dispatch_step.worker_exit [of t s P]
    by (auto simp: worker_move_def Let_def split: option.splits sum.splits if_splits)
next
  case (W_filling batch)
  with assms show ?thesis
    using dispatch_step.worker_fill_more [of t s batch P] dispatch_step.worker_fill_stop [of t s batch P]
      dispatch_step.worker_fill_full [of t s batch P]
    by (auto simp: worker_move_def Let_def split: option.splits sum.splits if_splits)
next
  case (W_filled batch)
  with assms show ?thesis using dispatch_step.worker_snapshot [of t s batch "acquire_snapshot (d_subscribers (sy_d s))" P]
    by (auto simp: worker_move_def Let_def)
next
  case (W_broadcasting snapshot ps es)
  with assms show ?thesis
    using dispatch_step.worker_continue [of t s snapshot ps P]
      dispatch_step.worker_event_done [of t s snapshot "hd es" "tl es" P]
      dispatch_step.worker_deliver [of t s snapshot "hd ps" "tl ps" "hd es" "tl es" True callbacks elapsed "Inr (hd es)"]
    by (cases es; cases ps) (auto simp: worker_move_def Let_def split: option.splits)
qed (use assms in \<open>simp add: worker_move_def Let_def\<close>)

lemma executor_move_step: "executor_move callbacks elapsed p s = Some s' \<Longrightarrow> dispatch_step P s s'"
  by (auto simp: executor_move_def Let_def intro: dispatch_step.registry_changes split: option.splits if_splits)

section \<open>What the main thread has done\<close>

fun published :: "'e main_command list \<Rightarrow> (publish_kind \<times> 'e) list" where
  "published [] = []"
| "published (Publish_call kind e # cs) = (kind, e) # published cs"
| "published (_ # cs) = published cs"

lemma published_append [simp]: "published (xs @ ys) = published xs @ published ys"
  by (induction xs rule: published.induct) simp_all

text \<open>The events whose publication succeeded.\<close>

fun sent :: "(publish_kind \<times> 'e) list \<Rightarrow> queue_status list \<Rightarrow> 'e list" where
  "sent ((kind, e) # ps) (st # sts) = (if st = success then e # sent ps sts else sent ps sts)"
| "sent _ _ = []"

lemma sent_append: "length ps = length sts \<Longrightarrow> sent (ps @ ps') (sts @ sts') = sent ps sts @ sent ps' sts'"
  by (induction ps sts rule: sent.induct) simp_all

lemma sent_length: "length ps = length sts \<Longrightarrow> length (sent ps sts) = length (filter ((=) success) sts)"
  by (induction ps sts rule: sent.induct) auto

text \<open>The results that an open queue can give to a publication whose stop token is never used.\<close>

fun status_fits :: "publish_kind \<times> 'e \<Rightarrow> queue_status \<Rightarrow> bool" where
  "status_fits (Try, e) st = (st \<in> {success, full})"
| "status_fits (Block, e) st = (st = success)"
| "status_fits (Timed, e) st = (st \<in> {success, timeout})"

fun publisher_fits :: "bool \<Rightarrow> 'e main_command list \<Rightarrow> 'e publisher_pc \<Rightarrow> 'e list \<Rightarrow> bool" where
  "publisher_fits room todo Pub_idle extra = (extra = [])"
| "publisher_fits room (Publish_call kind e # cs) (Pub_checked c) extra = (c = Inr e \<and> extra = [])"
| "publisher_fits room (Publish_call kind e # cs) (Pub_counting (Inr st)) extra =
     (status_fits (kind, e) st \<and> (room \<longrightarrow> st = success) \<and> extra = (if st = success then [e] else []))"
| "publisher_fits room _ _ _ = False"

text \<open>The shutdown is the last command, and a test of the last status follows a publication and returns an error code.\<close>

definition program_shape :: "'e main_command list \<Rightarrow> bool" where
  "program_shape commands = (\<exists>body. commands = body @ [Shutdown_call] \<and> Shutdown_call \<notin> set body \<and>
     (\<forall>pre code post. body = pre @ Return_unless_success code # post \<longrightarrow> published pre \<noteq> [] \<and> code \<noteq> 0))"

text \<open>All subscriptions come first, with options that satisfy \<open>ok\<close>; direct ones are not isolated.\<close>

definition subscribes_first :: "(subscription_options \<Rightarrow> bool) \<Rightarrow> 'e main_command list \<Rightarrow> bool" where
  "subscribes_first ok commands = (\<exists>os body. commands = map Subscribe_call os @ body \<and>
     (\<forall>options. Subscribe_call options \<notin> set body) \<and> (\<forall>options \<in> set os. ok options))"

abbreviation direct_program :: "'e main_command list \<Rightarrow> bool" where
  "direct_program \<equiv> subscribes_first (\<lambda>options. so_delivery options \<noteq> isolated)"

fun subscriptions :: "'e main_command list \<Rightarrow> nat" where
  "subscriptions [] = 0"
| "subscriptions (Subscribe_call options # cs) = Suc (subscriptions cs)"
| "subscriptions (_ # cs) = subscriptions cs"

text \<open>The program publishes no more events than the queue can hold.\<close>

definition roomy :: "dispatcher_config \<Rightarrow> 'e main_command list \<Rightarrow> bool" where
  "roomy config commands = (length (published commands) \<le> unat (dc_queue_capacity config))"

text \<open>
  The commands \<open>pre\<close> are done and their statuses recorded. \<open>extra\<close> is the event of a publication that has pushed
  and not yet returned.
\<close>

definition main_at ::
  "dispatcher_config \<Rightarrow> 'e main_command list \<Rightarrow> 'e main_thread \<Rightarrow> ('e, 'q) dispatch_system \<Rightarrow>
   'e publisher_pc \<Rightarrow> shutdown_pc \<Rightarrow> 'e main_command list \<Rightarrow> 'e list \<Rightarrow> bool" where
  "main_at config commands m s pc sd pre extra = (sy_publishers s = [pc] \<and> sy_shutdowns s = [sd] \<and>
     pre @ mt_todo m = commands \<and> list_all2 status_fits (published pre) (mt_statuses m) \<and>
     (roomy config commands \<longrightarrow> list_all ((=) success) (mt_statuses m)) \<and>
     publisher_fits (roomy config commands) (mt_todo m) pc extra \<and>
     sy_accepted_log s = sent (published pre) (mt_statuses m) @ extra \<and>
     (sd \<noteq> Sd_idle \<longrightarrow> mt_todo m \<in> {[Shutdown_call], []} \<and> sy_policy s = Some (dc_shutdown config)) \<and>
     (mt_todo m = [] \<longrightarrow> sd = Sd_returned) \<and>
     (sd = Sd_idle \<longrightarrow> d_lifecycle (sy_d s) = running) \<and>
     d_shutdown_policy (sy_d s) = dc_shutdown config \<and>
     d_rejected (sy_d s) = of_nat (length (filter ((\<noteq>) success) (mt_statuses m))))"

definition main_ok ::
  "dispatcher_config \<Rightarrow> 'e main_command list \<Rightarrow> 'e main_thread \<Rightarrow> ('e, 'q) dispatch_system \<Rightarrow> bool" where
  "main_ok config commands m s = (if mt_exit m \<noteq> 0 then mt_todo m = [] \<and> \<not> roomy config commands
     else (\<exists>pc sd pre extra. main_at config commands m s pc sd pre extra))"

text \<open>What the moves of workers and executors leave alone.\<close>

lemma worker_move_frame:
  assumes "worker_move P callbacks elapsed t s = Some s'"
  shows "sy_publishers s' = sy_publishers s" "sy_shutdowns s' = sy_shutdowns s" "sy_policy s' = sy_policy s"
    "sy_accepted_log s' = sy_accepted_log s" "d_lifecycle (sy_d s') = d_lifecycle (sy_d s)"
    "d_shutdown_policy (sy_d s') = d_shutdown_policy (sy_d s)" "d_rejected (sy_d s') = d_rejected (sy_d s)"
  using assms unfolding worker_move_def Let_def
  by (auto split: worker_pc.splits option.splits if_splits sum.splits list.splits)

lemma executor_move_frame:
  assumes "executor_move callbacks elapsed p s = Some s'"
  obtains r where "s' = s\<lparr>sy_d := (sy_d s)\<lparr>d_subscribers := r\<rparr>\<rparr>"
  using assms unfolding executor_move_def Let_def by (auto split: option.splits if_splits)

lemma main_ok_frame:
  assumes "main_ok config commands m s" "sy_publishers s' = sy_publishers s" "sy_shutdowns s' = sy_shutdowns s"
    "sy_policy s' = sy_policy s" "sy_accepted_log s' = sy_accepted_log s" "d_lifecycle (sy_d s') = d_lifecycle (sy_d s)"
    "d_shutdown_policy (sy_d s') = d_shutdown_policy (sy_d s)" "d_rejected (sy_d s') = d_rejected (sy_d s)"
  shows "main_ok config commands m s'"
  using assms(1) unfolding main_ok_def main_at_def assms(2-8) .

section \<open>The queue under a program\<close>

context dispatcher_threads
begin

lemma push_keeps: "spec_push_result a c r a' \<Longrightarrow> aq_cap a' = aq_cap a \<and> aq_closed a' = aq_closed a"
  by (auto simp: spec_push_result_def spec_push_now_def split: sum.splits)

lemma pop_keeps: "spec_pop_result a p a' \<Longrightarrow> aq_cap a' = aq_cap a \<and> aq_closed a' = aq_closed a"
  by (auto simp: spec_pop_result_def)

text \<open>A step never changes the capacity, and closes the queue only in a shutdown.\<close>

lemma queue_shape_step:
  assumes "dispatch_step P s s'" "inv (d_events (sy_d s))"
  shows "aq_cap (abs (d_events (sy_d s'))) = aq_cap (abs (d_events (sy_d s))) \<and>
    (aq_closed (abs (d_events (sy_d s'))) \<longrightarrow> aq_closed (abs (d_events (sy_d s))) \<or>
       (\<exists>policy. Sd_closing policy \<in> set (sy_shutdowns s)))"
  using assms(1)
proof (cases rule: dispatch_step.cases)
  case (publish_push t c call r consumed q')
  with push_operation_abs [OF assms(2), of call] push_keeps show ?thesis by force
next
  case (worker_pop t p q' e)
  with wait_pop_result [OF assms(2), of p q'] pop_keeps show ?thesis by force
next
  case (worker_exit t p q')
  with wait_pop_result [OF assms(2), of p q'] pop_keeps show ?thesis by force
next
  case (worker_fill_more t batch p q' e)
  with try_pop_abs [OF assms(2), of p q'] pop_keeps show ?thesis by force
next
  case (worker_fill_stop t batch p q')
  with try_pop_abs [OF assms(2), of p q'] pop_keeps show ?thesis by force
next
  case (shutdown_close_drain t q')
  obtain q1 where "qp_close P (d_events (sy_d s)) = Some q1" "abs q1 = spec_close (abs (d_events (sy_d s)))"
    using close_cases [OF assms(2)] .
  with shutdown_close_drain nth_mem [of t "sy_shutdowns s"] show ?thesis by (auto simp: spec_close_def)
next
  case (shutdown_close_discard t n q')
  obtain n1 q1 where "qp_close_and_discard P (d_events (sy_d s)) = Some (n1, q1)"
    "(n1, abs q1) = spec_close_and_discard (abs (d_events (sy_d s)))"
    using close_and_discard_cases [OF assms(2)] .
  with shutdown_close_discard nth_mem [of t "sy_shutdowns s"] show ?thesis by (auto simp: spec_close_and_discard_def)
next
  case (subscribe copyable callback_set options addr res d')
  then show ?thesis by (auto dest!: dispatcher_subscribe_fields)
qed (auto simp: shutdown_begin_outcomes split: sum.splits)

lemma idle_step:
  assumes "dispatch_step P s s'" "set (sy_shutdowns s') \<subseteq> {Sd_idle}"
  shows "sy_shutdowns s' = sy_shutdowns s"
proof -
  have no: "\<not> set ((sy_shutdowns s)[t := pc]) \<subseteq> {Sd_idle}" if "pc \<noteq> Sd_idle" "t < length (sy_shutdowns s)" for t pc
    using that set_update_memI [of t "sy_shutdowns s" pc] by blast
  show ?thesis using assms(1) by (cases rule: dispatch_step.cases) (use assms(2) no in auto)
qed

lemma reachable_open:
  assumes "dispatch_reachable P s" "set (sy_shutdowns s) \<subseteq> {Sd_idle}"
  shows "\<not> aq_closed (abs (d_events (sy_d s)))"
  using assms
proof (induction rule: dispatch_reachable.induct)
  case (start config registry_this pool_this d publishers shutdowns)
  with dispatcher_new_fields [OF start(1)] new_ok [of "dc_queue_capacity config" "d_events d"]
  show ?case by (simp add: dispatch_start_def)
next
  case (step s s')
  have "inv (d_events (sy_d s))" using dispatch_reachable_inv [OF step.hyps(1)] by (simp add: dispatch_inv_def queue_ok_def)
  with queue_shape_step [OF step.hyps(2) this] idle_step [OF step.hyps(2) step.prems] step.IH step.prems
  show ?case by auto
qed

text \<open>A publication on an open queue: the status fits, and is success when the queue has room.\<close>

lemma publish_operation_fits:
  assumes "inv q" "\<not> aq_closed (abs q)" "push_operation P (publish_call kind expired e) q = Some ((r, consumed), q')"
  obtains st where "r = Inr st" "status_fits (kind, e) st" "length (aq_items (abs q)) < aq_cap (abs q) \<longrightarrow> st = success"
proof (cases kind)
  case Try
  obtain r1 q1 where "qp_try_push P q (Inr e) = Some (r1, q1)" "(r1, abs q1) = spec_try_push (abs q) (Inr e)"
    using try_push_cases [OF assms(1), of "Inr e"] .
  with Try assms that show ?thesis by (auto simp: spec_try_push_def spec_push_now_def split: if_splits)
next
  case Block
  with assms that wait_push_abs [OF assms(1), of "Inr e" False "(r, consumed)" q'] show ?thesis
    by (auto simp: spec_wait_push_def spec_push_now_def split: if_splits)
next
  case Timed
  with assms that wait_push_until_abs [OF assms(1), of "Inr e" False expired "(r, consumed)" q'] show ?thesis
    by (auto simp: spec_wait_push_until_def spec_push_now_def split: if_splits)
qed

end

section \<open>The invariant of a program\<close>

lemma shutdown_last:
  assumes "program_shape commands" "pre @ Shutdown_call # todo = commands"
  shows "todo = []"
proof -
  from assms obtain body where "pre @ Shutdown_call # todo = body @ [Shutdown_call]" "Shutdown_call \<notin> set body"
    by (auto simp: program_shape_def)
  then show ?thesis by (cases todo rule: rev_cases) (auto simp: append_eq_append_conv2)
qed

lemma return_after_publish:
  assumes "program_shape commands" "pre @ Return_unless_success code # todo = commands"
  shows "published pre \<noteq> [] \<and> code \<noteq> 0"
proof -
  from assms(1) obtain body where body: "commands = body @ [Shutdown_call]"
    "\<forall>pre code post. body = pre @ Return_unless_success code # post \<longrightarrow> published pre \<noteq> [] \<and> code \<noteq> 0"
    by (auto simp: program_shape_def)
  with assms(2) have "body = pre @ Return_unless_success code # butlast todo"
    by (cases todo rule: rev_cases) auto
  with body(2) show ?thesis by blast
qed

lemma shutdown_move_frame:
  assumes "shutdown_move P callbacks elapsed s = Some s'"
  shows "sy_publishers s' = sy_publishers s" "sy_accepted_log s' = sy_accepted_log s"
    "d_shutdown_policy (sy_d s') = d_shutdown_policy (sy_d s)" "d_rejected (sy_d s') = d_rejected (sy_d s)"
    "\<exists>pc. sy_shutdowns s' = (sy_shutdowns s)[0 := pc] \<and> pc \<noteq> Sd_idle"
    "sy_shutdowns s ! 0 \<noteq> Sd_idle \<Longrightarrow> sy_policy s' = sy_policy s"
    "sy_shutdowns s ! 0 = Sd_idle \<Longrightarrow> d_lifecycle (sy_d s) = running \<Longrightarrow> sy_policy s' = Some (d_shutdown_policy (sy_d s))"
  using assms unfolding shutdown_move_def Let_def
  by (auto simp: shutdown_begin_outcomes shutdown_begin_def
      split: shutdown_pc.splits shutdown_policy.splits option.splits prod.splits sum.splits shutdown_action.splits if_splits)

text \<open>A command before the shutdown is not the last, and nothing is in hand at a command other than a publication.\<close>

lemma more_todo:
  assumes "program_shape commands" "pre @ c # todo = commands" "c \<noteq> Shutdown_call"
  shows "todo \<noteq> []"
  using assms by (auto simp: program_shape_def)

lemma publisher_idle:
  assumes "publisher_fits room todo pc extra" "\<forall>kind e cs. todo \<noteq> Publish_call kind e # cs"
  shows "pc = Pub_idle" "extra = []"
  using assms by (cases "(room, todo, pc, extra)" rule: publisher_fits.cases; simp)+

lemma main_ok_shutdown:
  assumes "program_shape commands" "main_at config commands m s pc sd pre extra" "mt_todo m = Shutdown_call # todo"
    "shutdown_move P callbacks elapsed s = Some s'"
  shows "\<exists>sd. main_at config commands m s' pc sd pre extra"
proof -
  note f = shutdown_move_frame [OF assms(4)]
  from f(5) assms(2) obtain sd' where sd': "sy_shutdowns s' = [sd']" "sd' \<noteq> Sd_idle" by (auto simp: main_at_def)
  have todo: "mt_todo m = [Shutdown_call]"
    using shutdown_last [OF assms(1), of pre todo] assms(2,3) by (simp add: main_at_def)
  have "sy_policy s' = Some (dc_shutdown config)" using f(6,7) assms(2) by (cases "sd = Sd_idle") (simp_all add: main_at_def)
  with f sd' todo assms(2) show ?thesis by (intro exI [of _ sd']) (simp add: main_at_def)
qed

lemma main_ok_subscribe:
  assumes "program_shape commands" "main_at config commands m s pc sd pre extra" "mt_todo m = Subscribe_call options # todo"
    "dispatcher_subscribe True True options addr (sy_d s) = (Inr p, d')"
  shows "main_at config commands (m\<lparr>mt_todo := todo\<rparr>) (s\<lparr>sy_d := d'\<rparr>) pc sd (pre @ [Subscribe_call options]) extra"
proof -
  from dispatcher_subscribe_fields [OF assms(4)] obtain r where d': "d' = (sy_d s)\<lparr>d_subscribers := r\<rparr>" by blast
  have idle: "pc = Pub_idle" "extra = []"
    using publisher_idle [of _ "mt_todo m" pc extra] assms(2,3) by (auto simp: main_at_def)
  have "todo \<noteq> []" using more_todo [OF assms(1), of pre "Subscribe_call options" todo] assms(2,3) by (simp add: main_at_def)
  with assms(2,3) idle d' show ?thesis by (auto simp: main_at_def)
qed

lemma main_ok_return:
  assumes "program_shape commands" "main_at config commands m s pc sd pre extra"
    "mt_todo m = Return_unless_success code # todo" "last (mt_statuses m) = success"
  shows "main_at config commands (m\<lparr>mt_todo := todo\<rparr>) s pc sd (pre @ [Return_unless_success code]) extra"
proof -
  have idle: "pc = Pub_idle" "extra = []"
    using publisher_idle [of _ "mt_todo m" pc extra] assms(2,3) by (auto simp: main_at_def)
  have "todo \<noteq> []" using more_todo [OF assms(1), of pre "Return_unless_success code" todo] assms(2,3) by (simp add: main_at_def)
  with assms(2,3) idle show ?thesis by (auto simp: main_at_def)
qed

text \<open>A test of the last status fails only in a program whose queue may be full.\<close>

lemma return_not_roomy:
  assumes "program_shape commands" "main_at config commands m s pc sd pre extra"
    "mt_todo m = Return_unless_success code # todo" "last (mt_statuses m) \<noteq> success"
  shows "\<not> roomy config commands"
proof -
  have "published pre \<noteq> []" using return_after_publish [OF assms(1), of pre code todo] assms(2,3) by (simp add: main_at_def)
  then have "mt_statuses m \<noteq> []" using assms(2) by (auto simp: main_at_def)
  then have "last (mt_statuses m) \<in> set (mt_statuses m)" by simp
  with assms(2,4) show ?thesis by (auto simp: main_at_def list_all_iff)
qed

context dispatcher_threads
begin

lemma reachable_queue: "dispatch_reachable P s \<Longrightarrow> inv (d_events (sy_d s))"
  using dispatch_reachable_inv by (auto simp: dispatch_inv_def queue_ok_def)

text \<open>A program that publishes no more than the capacity finds room for its next event.\<close>

lemma room_for_next:
  assumes "dispatch_reachable P s" "main_at config commands m s pc sd pre []" "roomy config commands"
    "mt_todo m = Publish_call kind e # todo" "aq_cap (abs (d_events (sy_d s))) = unat (dc_queue_capacity config)"
  shows "length (aq_items (abs (d_events (sy_d s)))) < aq_cap (abs (d_events (sy_d s)))"
proof -
  have at: "pre @ Publish_call kind e # todo = commands" "length (published pre) = length (mt_statuses m)"
    "sy_accepted_log s = sent (published pre) (mt_statuses m)"
    using assms(2,4) by (auto simp: main_at_def dest: list_all2_lengthD)
  from conservation(1) [OF assms(1)] obtain dropped where
    "sy_accepted_log s = sy_popped_log s @ dropped @ aq_items (abs (d_events (sy_d s)))" by blast
  then have "length (aq_items (abs (d_events (sy_d s)))) \<le> length (sent (published pre) (mt_statuses m))"
    using at(3) by (metis length_append le_add2 trans_le_add2)
  also have "\<dots> \<le> length (published pre)" using sent_length [OF at(2)] at(2) by simp
  also have "\<dots> < length (published commands)" unfolding at(1) [symmetric] by simp
  also have "\<dots> \<le> aq_cap (abs (d_events (sy_d s)))" using assms(3,5) by (simp add: roomy_def)
  finally show ?thesis .
qed

lemma main_ok_publish:
  assumes "program_shape commands" "dispatch_reachable P s" "main_at config commands m s pc sd pre extra"
    "aq_cap (abs (d_events (sy_d s))) = unat (dc_queue_capacity config)" "mt_todo m = Publish_call kind e # todo"
    "publish_move P expired kind e s = Some (res, s')"
  shows "\<exists>pc extra. (case res of
      None \<Rightarrow> main_at config commands m s' pc sd pre extra
    | Some st \<Rightarrow> main_at config commands (m\<lparr>mt_todo := todo, mt_statuses := mt_statuses m @ [st]\<rparr>) s' pc sd
        (pre @ [Publish_call kind e]) extra)"
proof -
  have sd: "sd = Sd_idle" and run: "d_lifecycle (sy_d s) = running" and pub: "sy_publishers s = [pc]"
    and len: "length (published pre) = length (mt_statuses m)"
    using assms(3,5) by (auto simp: main_at_def dest: list_all2_lengthD)
  have todo: "todo \<noteq> []" using more_todo [OF assms(1), of pre "Publish_call kind e" todo] assms(3,5) by (simp add: main_at_def)
  show ?thesis
  proof (cases pc)
    case Pub_idle
    with assms(3,5,6) run pub show ?thesis
      by (intro exI [of _ "Pub_checked (Inr e)"] exI [of _ "[]"]) (auto simp: publish_move_def main_at_def)
  next
    case (Pub_checked c)
    with assms(3,5) have c: "c = Inr e" "extra = []" by (auto simp: main_at_def)
    from assms(6) Pub_checked pub obtain r consumed q' where push: "push_operation P (publish_call kind expired e) (d_events (sy_d s)) =
        Some ((r, consumed), q')" "res = None" "s' = s\<lparr>sy_d := (sy_d s)\<lparr>d_events := q'\<rparr>,
        sy_publishers := [Pub_counting r], sy_accepted_log := sy_accepted_log s @ accepted_event r (Inr e)\<rparr>"
      by (auto simp: publish_move_def split: option.splits)
    have "\<not> aq_closed (abs (d_events (sy_d s)))" using reachable_open [OF assms(2)] assms(3) sd by (simp add: main_at_def)
    from publish_operation_fits [OF reachable_queue [OF assms(2)] this push(1)] obtain st where st: "r = Inr st"
      "status_fits (kind, e) st" "length (aq_items (abs (d_events (sy_d s)))) < aq_cap (abs (d_events (sy_d s))) \<longrightarrow> st = success"
      by blast
    have "roomy config commands \<Longrightarrow> st = success"
      using st(3) room_for_next [OF assms(2) _ _ assms(5,4)] assms(3) c(2) by blast
    moreover have "accepted_event (Inr st) (Inr e) = (if st = success then [e] else [])" by (cases st) simp_all
    ultimately show ?thesis using assms(3,5) push(2,3) st(1,2) c
      by (intro exI [of _ "Pub_counting r"] exI [of _ "if st = success then [e] else []"]) (auto simp: main_at_def)
  next
    case (Pub_counting r)
    with assms(3,5) obtain st where st: "r = Inr st" "status_fits (kind, e) st" "roomy config commands \<longrightarrow> st = success"
      "extra = (if st = success then [e] else [])" by (cases r) (auto simp: main_at_def)
    with assms(6) Pub_counting pub have s': "res = Some st"
      "s' = s\<lparr>sy_d := count_outcome st (sy_d s), sy_publishers := [Pub_idle]\<rparr>" by (auto simp: publish_move_def)
    then show ?thesis using assms(3,5) st todo len
      by (intro exI [of _ Pub_idle] exI [of _ "[]"])
        (auto simp: main_at_def count_outcome_def sent_append list_all2_appendI)
  qed
qed

text \<open>Every move of the main thread.\<close>

lemma main_move_ok:
  assumes shape: "program_shape commands" and reach: "dispatch_reachable P s" and ok: "main_ok config commands m s"
    and cap: "aq_cap (abs (d_events (sy_d s))) = unat (dc_queue_capacity config)"
    and move: "main_move P callbacks elapsed expired addr (m, s) = Some (m', s')"
  shows "(s' = s \<or> dispatch_step P s s') \<and> main_ok config commands m' s'"
proof -
  obtain c todo where todo: "mt_todo m = c # todo" using move by (cases "mt_todo m") (auto simp: main_move_def)
  then have exit0: "mt_exit m = 0" using ok by (cases "mt_exit m = 0") (simp_all add: main_ok_def)
  with ok obtain pc sd pre extra where at: "main_at config commands m s pc sd pre extra" by (auto simp: main_ok_def)
  show ?thesis
  proof (cases c)
    case (Subscribe_call options)
    with move todo obtain p d' where "dispatcher_subscribe True True options addr (sy_d s) = (Inr p, d')"
      "m' = m\<lparr>mt_todo := todo\<rparr>" "s' = s\<lparr>sy_d := d'\<rparr>" by (auto simp: main_move_def split: prod.splits sum.splits)
    with main_ok_subscribe [OF shape at] todo Subscribe_call exit0 dispatch_step.subscribe show ?thesis
      by (fastforce simp: main_ok_def)
  next
    case (Publish_call kind e)
    with move todo obtain res where res: "publish_move P expired kind e s = Some (res, s')"
      "m' = (case res of None \<Rightarrow> m | Some st \<Rightarrow> m\<lparr>mt_todo := todo, mt_statuses := mt_statuses m @ [st]\<rparr>)"
      by (auto simp: main_move_def split: option.splits)
    have "c' = Inr e" if "sy_publishers s ! 0 = Pub_checked c'" for c'
      using at todo Publish_call that by (simp add: main_at_def)
    then have "dispatch_step P s s'" using publish_move_step [OF res(1)] at by (simp add: main_at_def)
    moreover have "main_ok config commands m' s'"
      using main_ok_publish [OF shape reach at cap _ res(1)] todo Publish_call res(2) exit0
      by (cases res) (auto simp: main_ok_def)
    ultimately show ?thesis by blast
  next
    case (Return_unless_success code)
    have "code \<noteq> 0" using return_after_publish [OF shape, of pre code todo] at todo Return_unless_success
      by (simp add: main_at_def)
    with move todo Return_unless_success exit0 main_ok_return [OF shape at] return_not_roomy [OF shape at] show ?thesis
      by (auto simp: main_move_def main_ok_def split: if_splits)
  next
    case Shutdown_call
    have one: "length (sy_shutdowns s) = 1" using at by (simp add: main_at_def)
    have last: "todo = []" using shutdown_last [OF shape, of pre todo] at todo Shutdown_call by (simp add: main_at_def)
    show ?thesis
    proof (cases "sy_shutdowns s ! 0 = Sd_returned")
      case True
      have "pc = Pub_idle" "extra = []"
        using publisher_idle [of _ "mt_todo m" pc extra] at todo Shutdown_call by (auto simp: main_at_def)
      with at True todo last Shutdown_call have "main_at config commands (m\<lparr>mt_todo := []\<rparr>) s pc sd (pre @ [Shutdown_call]) extra"
        by (auto simp: main_at_def)
      with move True todo last Shutdown_call exit0 show ?thesis by (auto simp: main_move_def main_ok_def)
    next
      case False
      with move todo Shutdown_call have "shutdown_move P callbacks elapsed s = Some s'" "m' = m" by (auto simp: main_move_def)
      with main_ok_shutdown [OF shape at] shutdown_move_step [OF _ one] todo Shutdown_call exit0 show ?thesis
        by (fastforce simp: main_ok_def)
    qed
  qed
qed

definition program_ok ::
  "dispatcher_config \<Rightarrow> 'e main_command list \<Rightarrow> 'e main_thread \<times> ('e, 'q) dispatch_system \<Rightarrow> bool" where
  "program_ok config commands c = (dispatch_reachable P (snd c) \<and>
     aq_cap (abs (d_events (sy_d (snd c)))) = unat (dc_queue_capacity config) \<and>
     length (sy_workers (snd c)) = unat (dc_worker_count config) \<and> main_ok config commands (fst c) (snd c))"

lemma dispatch_step_workers: "dispatch_step P s s' \<Longrightarrow> length (sy_workers s') = length (sy_workers s)"
  by (induction rule: dispatch_step.induct) simp_all

lemma program_ok_step:
  assumes "program_step P callbacks elapsed c c'" "program_shape commands" "program_ok config commands c"
  shows "program_ok config commands c'"
proof -
  obtain m s m' s' where c: "c = (m, s)" "c' = (m', s')" by fastforce
  from assms(3) have ok: "dispatch_reachable P s" "aq_cap (abs (d_events (sy_d s))) = unat (dc_queue_capacity config)"
    "main_ok config commands m s" by (simp_all add: program_ok_def c)
  have "(s' = s \<or> dispatch_step P s s') \<and> main_ok config commands m' s'"
    using assms(1) unfolding c
  proof (cases rule: program_step.cases)
    case (main expired addr)
    from main_move_ok [OF assms(2) ok(1,3,2) main(1)] show ?thesis .
  next
    case (worker t)
    with worker_move_step main_ok_frame [OF ok(3) worker_move_frame [OF worker(3)]] show ?thesis by blast
  next
    case (executor p)
    obtain r where "s' = s\<lparr>sy_d := (sy_d s)\<lparr>d_subscribers := r\<rparr>\<rparr>" using executor_move_frame [OF executor(2)] .
    with executor executor_move_step [OF executor(2)] main_ok_frame [OF ok(3), of s'] show ?thesis by simp
  qed
  then show ?thesis using assms(3) ok dispatch_reachable.step [OF ok(1)] queue_shape_step [OF _ reachable_queue [OF ok(1)]]
      dispatch_step_workers [of s s'] by (auto simp: program_ok_def c)
qed

lemma program_reached_ok:
  assumes "program_reached P callbacks elapsed config commands c" "program_shape commands"
  shows "program_ok config commands c"
  using assms
proof (induction rule: program_reached.induct)
  case (start registry_this pool_this d)
  note d = dispatcher_new_fields [OF start(1)]
  have pol: "d_shutdown_policy d = dc_shutdown config" "d_rejected d = 0"
    using start(1) by (auto simp: dispatcher_new_def make_state_def split: sum.splits prod.splits if_splits)
  have "commands \<noteq> []" using start(2) by (auto simp: program_shape_def)
  then have "main_at config commands (main_start commands) (dispatch_start 1 1 d) Pub_idle Sd_idle [] []"
    using d pol by (simp add: main_at_def main_start_def dispatch_start_def)
  with d new_ok [of "dc_queue_capacity config" "d_events d"] dispatch_reachable.start [OF start(1), of 1 1] show ?case
    by (auto simp: program_ok_def main_ok_def main_start_def dispatch_start_def)
next
  case (step c c')
  with program_ok_step show ?case by blast
qed

text \<open>When \<open>main\<close> has come to its end.\<close>

lemma program_end:
  assumes "program_reached P callbacks elapsed config commands (m, s)" "program_shape commands" "mt_todo m = []"
    "mt_exit m = 0"
  shows "list_all2 status_fits (published commands) (mt_statuses m)"
    "sy_accepted_log s = sent (published commands) (mt_statuses m)" "Sd_returned \<in> set (sy_shutdowns s)"
    "sy_policy s = Some (dc_shutdown config)" "dispatch_reachable P s" "length (sy_workers s) = unat (dc_worker_count config)"
    "d_accepted (sy_d s) = of_nat (length (filter ((=) success) (mt_statuses m)))"
    "d_rejected (sy_d s) = of_nat (length (filter ((\<noteq>) success) (mt_statuses m)))"
    "roomy config commands \<Longrightarrow> list_all ((=) success) (mt_statuses m)"
proof -
  note ok = program_reached_ok [OF assms(1,2), unfolded program_ok_def, simplified]
  from ok assms(4) obtain pc sd pre extra where at: "main_at config commands m s pc sd pre extra" by (auto simp: main_ok_def)
  have idle: "pc = Pub_idle" "extra = []" using publisher_idle [of _ "mt_todo m" pc extra] at assms(3) by (auto simp: main_at_def)
  show st: "list_all2 status_fits (published commands) (mt_statuses m)"
    and acc: "sy_accepted_log s = sent (published commands) (mt_statuses m)" "Sd_returned \<in> set (sy_shutdowns s)"
    "sy_policy s = Some (dc_shutdown config)"
    "d_rejected (sy_d s) = of_nat (length (filter ((\<noteq>) success) (mt_statuses m)))"
    "roomy config commands \<Longrightarrow> list_all ((=) success) (mt_statuses m)"
    using at idle assms(3) by (auto simp: main_at_def)
  show r: "dispatch_reachable P s" "length (sy_workers s) = unat (dc_worker_count config)" using ok by simp_all
  have "tally counting_success (sy_publishers s) = 0" using at idle by (simp add: main_at_def tally_def)
  with conservation(4) [OF r(1)] acc(1) sent_length [OF list_all2_lengthD [OF st]]
  show "d_accepted (sy_d s) = of_nat (length (filter ((=) success) (mt_statuses m)))" by simp
qed

end

section \<open>What the workers still owe\<close>

text \<open>
  \<open>g qs e\<close> lists what delivering \<open>e\<close> to the subscribers \<open>qs\<close> brings about. A worker owes that for every event it
  holds: for the current one along the subscribers that are left, for the others along the whole
  snapshot \<open>ps\<close>.
\<close>

fun owed :: "(nat list \<Rightarrow> 'e \<Rightarrow> 'x list) \<Rightarrow> nat list \<Rightarrow> 'e worker_pc \<Rightarrow> 'x list" where
  "owed g ps (W_filling batch) = concat (map (g ps) batch)"
| "owed g ps (W_filled batch) = concat (map (g ps) batch)"
| "owed g ps (W_broadcasting snapshot qs (e # es)) = g qs e @ concat (map (g ps) es)"
| "owed g ps _ = []"

definition due :: "(nat list \<Rightarrow> 'e \<Rightarrow> 'x list) \<Rightarrow> nat list \<Rightarrow> ('e, 'q) dispatch_system \<Rightarrow> 'x multiset" where
  "due g ps s = mset (concat (map (g ps) (sy_popped_log s)))"

fun next_delivery :: "'e worker_pc \<Rightarrow> (nat \<times> 'e) option" where
  "next_delivery (W_broadcasting snapshot (p # qs) (e # es)) = Some (p, e)"
| "next_delivery _ = None"

fun snapshot_ok :: "nat list \<Rightarrow> 'e worker_pc \<Rightarrow> bool" where
  "snapshot_ok ps (W_broadcasting snapshot qs es) = (snapshot = ps \<and> set qs \<subseteq> set ps)"
| "snapshot_ok ps _ = True"

lemma owed_restart: "g [] e = [] \<Longrightarrow> owed g ps (W_broadcasting ps ps es) = owed g ps (W_broadcasting ps [] (e # es))"
  by (cases es) simp_all

text \<open>A move pays what it delivers, and popping an event owes it.\<close>

abbreviation paid :: "(nat list \<Rightarrow> 'e \<Rightarrow> 'x list) \<Rightarrow> 'e worker_pc \<Rightarrow> 'x list" where
  "paid g w \<equiv> (case next_delivery w of None \<Rightarrow> [] | Some (p, e) \<Rightarrow> g [p] e)"

lemma worker_move_pays:
  assumes "worker_move P callbacks elapsed t s = Some s'" "snapshot_ok ps (sy_workers s ! t)"
    "acquire_snapshot (d_subscribers (sy_d s)) = ps"
    and g: "\<And>e. g [] e = []" "\<And>p qs e. qs \<noteq> [] \<Longrightarrow> g (p # qs) e = g [p] e @ g qs e"
  shows "\<exists>w es. sy_workers s' = (sy_workers s)[t := w] \<and> sy_popped_log s' = sy_popped_log s @ es \<and> snapshot_ok ps w \<and>
    owed g ps (sy_workers s ! t) @ concat (map (g ps) es) = paid g (sy_workers s ! t) @ owed g ps w"
proof -
  have split: "g (p # qs) e = g [p] e @ g qs e" for p qs e using g by (cases "qs = []") simp_all
  have result: ?thesis if "sy_workers s' = (sy_workers s)[t := w]" "sy_popped_log s' = sy_popped_log s @ es" "snapshot_ok ps w"
    "owed g ps (sy_workers s ! t) @ concat (map (g ps) es) = paid g (sy_workers s ! t) @ owed g ps w" for w es
    using that by blast
  show ?thesis
  proof (cases "sy_workers s ! t")
    case W_waiting
    with assms(1) have "(\<exists>e. sy_workers s' = (sy_workers s)[t := W_filling [e]] \<and> sy_popped_log s' = sy_popped_log s @ [e]) \<or>
        sy_workers s' = (sy_workers s)[t := W_exited] \<and> sy_popped_log s' = sy_popped_log s"
      by (auto simp: worker_move_def Let_def split: option.splits sum.splits if_splits) blast+
    then show ?thesis using W_waiting result [of W_exited "[]"] result [of "W_filling [e]" "[e]" for e] by auto
  next
    case (W_filling batch)
    with assms(1) have "(\<exists>e. sy_workers s' = (sy_workers s)[t := W_filling (batch @ [e])] \<and>
          sy_popped_log s' = sy_popped_log s @ [e]) \<or>
        sy_workers s' = (sy_workers s)[t := W_filled batch] \<and> sy_popped_log s' = sy_popped_log s"
      by (auto simp: worker_move_def Let_def split: option.splits sum.splits if_splits) blast+
    then show ?thesis using W_filling result [of "W_filled batch" "[]"] result [of "W_filling (batch @ [e])" "[e]" for e] by auto
  next
    case (W_filled batch)
    have "owed g ps (W_broadcasting ps ps batch) = concat (map (g ps) batch)" by (cases batch) simp_all
    with W_filled assms(1,3) show ?thesis
      by (auto simp: worker_move_def Let_def intro!: exI [of _ "W_broadcasting ps ps batch"])
  next
    case (W_broadcasting snapshot qs es)
    with assms(2) have snap: "snapshot = ps" "set qs \<subseteq> set ps" by simp_all
    show ?thesis
    proof (cases es)
      case Nil
      with W_broadcasting assms(1) show ?thesis
        by (cases qs) (auto simp: worker_move_def Let_def intro!: exI [of _ W_waiting])
    next
      case (Cons e es')
      show ?thesis
      proof (cases qs)
        case Nil
        with Cons W_broadcasting assms(1) snap g(1) owed_restart [of g e ps es'] show ?thesis
          by (auto simp: worker_move_def Let_def intro!: exI [of _ "W_broadcasting ps ps es'"])
      next
        case (Cons p qs')
        with \<open>es = e # es'\<close> W_broadcasting assms(1) snap split [of p qs' e] show ?thesis
          by (auto simp: worker_move_def Let_def split: option.splits intro!: exI [of _ "W_broadcasting ps qs' (e # es')"])
      qed
    qed
  qed (use assms(1) in \<open>simp add: worker_move_def Let_def\<close>)
qed

lemma worker_move_owed:
  assumes "worker_move P callbacks elapsed t s = Some s'" "t < length (sy_workers s)"
    "list_all (snapshot_ok ps) (sy_workers s)" "acquire_snapshot (d_subscribers (sy_d s)) = ps"
    and g: "\<And>e. g [] e = []" "\<And>p qs e. qs \<noteq> [] \<Longrightarrow> g (p # qs) e = g [p] e @ g qs e"
  shows "due g ps s' + gather (owed g ps) (sy_workers s) =
      due g ps s + gather (owed g ps) (sy_workers s') + mset (paid g (sy_workers s ! t))"
    and "list_all (snapshot_ok ps) (sy_workers s')"
proof -
  have "snapshot_ok ps (sy_workers s ! t)" using assms(2,3) by (simp add: list_all_length)
  from worker_move_pays [OF assms(1) this assms(4), of g] g obtain w es where w:
    "sy_workers s' = (sy_workers s)[t := w]" "sy_popped_log s' = sy_popped_log s @ es" "snapshot_ok ps w"
    "owed g ps (sy_workers s ! t) @ concat (map (g ps) es) = paid g (sy_workers s ! t) @ owed g ps w" by blast
  obtain R where R: "gather (owed g ps) (sy_workers s) = R + mset (owed g ps (sy_workers s ! t))"
    "\<And>y. gather (owed g ps) ((sy_workers s)[t := y]) = R + mset (owed g ps y)"
    by (rule gather_split [OF assms(2), of "owed g ps"]) blast
  have "mset (owed g ps (sy_workers s ! t)) + mset (concat (map (g ps) es)) =
      mset (paid g (sy_workers s ! t)) + mset (owed g ps w)"
    using arg_cong [OF w(4), of mset] by simp
  then show "due g ps s' + gather (owed g ps) (sy_workers s) =
      due g ps s + gather (owed g ps) (sy_workers s') + mset (paid g (sy_workers s ! t))"
    unfolding w(1,2) R due_def by (simp add: add_ac)
  show "list_all (snapshot_ok ps) (sy_workers s')" unfolding w(1) using assms(3) w(3) by (rule list_all_update)
qed

section \<open>Deliveries to direct subscribers\<close>

definition all_direct :: "'e registry_core \<Rightarrow> bool" where
  "all_direct r = (distinct (rg_current r) \<and> dom (rg_heap r) = set (rg_current r) \<and>
     (\<forall>p \<in> set (rg_current r). direct_at r p \<and> subscribed_at r p))"

lemma all_direct_same:
  assumes "same_heap r r'" "all_direct r"
  shows "all_direct r'"
proof -
  have "rel_option same_subscriber (rg_heap r p) (rg_heap r' p)" for p using assms(1) by (simp add: same_heap_def)
  then have "(rg_heap r' p = None) = (rg_heap r p = None)" for p by (metis option.rel_distinct(1,2) option.exhaust)
  then have "dom (rg_heap r') = dom (rg_heap r)" by (auto simp: dom_def)
  with assms(2) show ?thesis by (simp add: all_direct_def same_heap_facts [OF assms(1)])
qed

abbreviation visits :: "nat \<Rightarrow> nat list \<Rightarrow> 'e \<Rightarrow> nat list" where
  "visits p qs e \<equiv> filter ((=) p) qs"

text \<open>
  What was delivered and what the workers still owe is what they took from the queue: one delivery per event and
  subscriber, and the exceptions of the callbacks.
\<close>

definition deliveries_ok :: "'e callbacks \<Rightarrow> ('e, 'q) dispatch_system \<Rightarrow> bool" where
  "deliveries_ok callbacks s = (let r = d_subscribers (sy_d s); ps = rg_current r in
     all_direct r \<and> list_all (snapshot_ok ps) (sy_workers s) \<and>
     (\<forall>p \<in> set ps. delivered_at r p + of_nat (size (gather (owed (visits p) ps) (sy_workers s))) =
        of_nat (length (sy_popped_log s))) \<and>
     mset (sy_errors s) + gather (owed (callback_errors callbacks r) ps) (sy_workers s) = due (callback_errors callbacks r) ps s)"

lemma due_visits: "p \<in> set ps \<Longrightarrow> distinct ps \<Longrightarrow> size (due (visits p) ps s) = length (sy_popped_log s)"
proof -
  assume "p \<in> set ps" "distinct ps"
  then have "length (filter ((=) p) ps) = 1" by (simp add: distinct_length_filter)
  then show ?thesis by (simp add: due_def length_concat comp_def sum_list_triv del: length_filter_conv_card)
qed

lemma deliveries_ok_frame:
  assumes "deliveries_ok callbacks s" "d_subscribers (sy_d s') = d_subscribers (sy_d s)" "sy_workers s' = sy_workers s"
    "sy_popped_log s' = sy_popped_log s" "sy_errors s' = sy_errors s"
  shows "deliveries_ok callbacks s'"
  using assms(1) unfolding deliveries_ok_def due_def assms(2-5) .

text \<open>A worker changes the registry only by a delivery.\<close>

lemma worker_move_registry:
  assumes "worker_move P callbacks elapsed t s = Some s'"
  shows "case next_delivery (sy_workers s ! t) of
      None \<Rightarrow> d_subscribers (sy_d s') = d_subscribers (sy_d s) \<and> sy_errors s' = sy_errors s
    | Some (p, e) \<Rightarrow> \<exists>res. deliver_to True callbacks elapsed [] e (Inr e) p (d_subscribers (sy_d s)) =
          Some (res, d_subscribers (sy_d s')) \<and> sy_errors s' = sy_errors s @ (case res of Inl x \<Rightarrow> [x] | Inr _ \<Rightarrow> [])"
  using assms
  by (cases "sy_workers s ! t" rule: next_delivery.cases)
    (auto simp: worker_move_def Let_def split: option.splits sum.splits if_splits list.splits)

lemma worker_move_deliveries:
  assumes "worker_move P callbacks elapsed t s = Some s'" "t < length (sy_workers s)" "deliveries_ok callbacks s"
  shows "deliveries_ok callbacks s'"
proof -
  let ?r = "d_subscribers (sy_d s)" and ?r' = "d_subscribers (sy_d s')" and ?w = "sy_workers s ! t"
  let ?ps = "rg_current ?r" and ?errs = "callback_errors callbacks (d_subscribers (sy_d s))"
  from assms(3) have ok: "all_direct ?r" "list_all (snapshot_ok ?ps) (sy_workers s)"
    "\<And>p. p \<in> set ?ps \<Longrightarrow> delivered_at ?r p + of_nat (size (gather (owed (visits p) ?ps) (sy_workers s))) =
       of_nat (length (sy_popped_log s))"
    "mset (sy_errors s) + gather (owed ?errs ?ps) (sy_workers s) = due ?errs ?ps s"
    by (simp_all add: deliveries_ok_def Let_def)
  have w: "snapshot_ok ?ps ?w" using ok(2) assms(2) by (simp add: list_all_length)
  have direct: "direct_at ?r p \<and> subscribed_at ?r p" if "next_delivery ?w = Some (p, e)" for p e
    using w ok(1) that by (cases ?w rule: next_delivery.cases) (auto simp: all_direct_def)
  have eff: "same_heap ?r ?r' \<and> mset (sy_errors s') = mset (sy_errors s) + mset (paid ?errs ?w) \<and>
      (\<forall>q. delivered_at ?r' q = delivered_at ?r q + of_nat (length (paid (visits q) ?w)))"
  proof (cases "next_delivery ?w")
    case None
    with worker_move_registry [OF assms(1)] show ?thesis by (simp add: same_heap_refl)
  next
    case (Some pe)
    obtain p e where pe: "pe = (p, e)" by fastforce
    with Some worker_move_registry [OF assms(1)] obtain res where
      "deliver_to True callbacks elapsed [] e (Inr e) p ?r = Some (res, ?r')"
      "sy_errors s' = sy_errors s @ (case res of Inl x \<Rightarrow> [x] | Inr _ \<Rightarrow> [])" by auto
    with deliver_direct [of ?r p True callbacks elapsed e "Inr e"] direct [of p e] Some pe show ?thesis by auto
  qed
  note same = same_heap_facts [of ?r ?r'] 
  have cur: "rg_current ?r' = ?ps" and ce: "callback_errors callbacks ?r' = ?errs"
    using eff same by (auto simp: fun_eq_iff)
  note snap = acquire_snapshot_def [of ?r]
  have dist: "distinct ?ps" using ok(1) by (simp add: all_direct_def)
  have "delivered_at ?r' p + of_nat (size (gather (owed (visits p) ?ps) (sy_workers s'))) =
      of_nat (length (sy_popped_log s'))" if p: "p \<in> set ?ps" for p
  proof -
    have "size (due (visits p) ?ps s') + size (gather (owed (visits p) ?ps) (sy_workers s)) =
        size (due (visits p) ?ps s) + size (gather (owed (visits p) ?ps) (sy_workers s')) + length (paid (visits p) ?w)"
    proof -
      have "due (visits p) ?ps s' + gather (owed (visits p) ?ps) (sy_workers s) =
          due (visits p) ?ps s + gather (owed (visits p) ?ps) (sy_workers s') + mset (paid (visits p) ?w)"
        by (rule worker_move_owed(1) [OF assms(1,2) ok(2) snap]) simp_all
      from arg_cong [OF this, of size] show ?thesis by (simp only: size_union size_mset)
    qed
    then have "of_nat (length (sy_popped_log s') + size (gather (owed (visits p) ?ps) (sy_workers s))) =
        (of_nat (length (sy_popped_log s) + size (gather (owed (visits p) ?ps) (sy_workers s')) +
          length (paid (visits p) ?w)) :: uint64_t)"
      using due_visits [OF p dist, of s] due_visits [OF p dist, of s'] by (simp only:)
    with ok(3) [OF p, symmetric] eff show ?thesis by (simp add: add_ac)
  qed
  moreover have "mset (sy_errors s') + gather (owed ?errs ?ps) (sy_workers s') = due ?errs ?ps s'"
  proof -
    have "due ?errs ?ps s' + gather (owed ?errs ?ps) (sy_workers s) =
        (mset (sy_errors s) + gather (owed ?errs ?ps) (sy_workers s)) + gather (owed ?errs ?ps) (sy_workers s') + mset (paid ?errs ?w)"
      unfolding ok(4) using callback_errors_Cons
      by (intro worker_move_owed(1) [OF assms(1,2) ok(2) snap]) (simp_all add: callback_errors_def map_filter_simps)
    with eff show ?thesis by (simp add: add_ac)
  qed
  moreover have "list_all (snapshot_ok ?ps) (sy_workers s')"
    using worker_move_owed(2) [OF assms(1,2) ok(2) snap, of "\<lambda>_ _. [] :: nat list"] by simp
  ultimately show ?thesis using all_direct_same [OF _ ok(1)] eff by (simp add: deliveries_ok_def Let_def cur ce)
qed

lemma deliver_to_current: "deliver_to copyable callbacks elapsed chain e c p r = Some (res, r') \<Longrightarrow> rg_current r' = rg_current r"
  by (auto simp: deliver_to_def split: option.splits)

lemma worker_move_current:
  assumes "worker_move P callbacks elapsed t s = Some s'"
  shows "rg_current (d_subscribers (sy_d s')) = rg_current (d_subscribers (sy_d s))"
proof (cases "next_delivery (sy_workers s ! t)")
  case None
  with worker_move_registry [OF assms(1)] show ?thesis by simp
next
  case (Some pe)
  with worker_move_registry [OF assms(1)] obtain res e p where
    "deliver_to True callbacks elapsed [] e (Inr e) p (d_subscribers (sy_d s)) = Some (res, d_subscribers (sy_d s'))"
    by (auto split: prod.splits)
  then show ?thesis by (rule deliver_to_current)
qed

text \<open>The other moves.\<close>

lemma publish_move_registry:
  assumes "publish_move P expired kind e s = Some (res, s')"
  shows "d_subscribers (sy_d s') = d_subscribers (sy_d s)" "sy_workers s' = sy_workers s"
    "sy_popped_log s' = sy_popped_log s" "sy_errors s' = sy_errors s"
  using assms unfolding publish_move_def
  by (auto simp: count_outcome_def split: publisher_pc.splits option.splits sum.splits if_splits)

lemma stop_delivery_direct: "all_direct r \<Longrightarrow> rg_stop_delivery callbacks elapsed draining r = Some r"
  unfolding rg_stop_delivery_def acquire_snapshot_def
  by (rule stop_snapshot_direct) (simp add: all_direct_def list_all_iff)

lemma shutdown_move_registry:
  assumes "shutdown_move P callbacks elapsed s = Some s'" "all_direct (d_subscribers (sy_d s))"
  shows "d_subscribers (sy_d s') = d_subscribers (sy_d s)" "sy_workers s' = sy_workers s"
    "sy_popped_log s' = sy_popped_log s" "sy_errors s' = sy_errors s"
  using assms(1) stop_delivery_direct [OF assms(2)] unfolding shutdown_move_def Let_def shutdown_begin_def
  by (auto split: shutdown_pc.splits shutdown_policy.splits option.splits sum.splits shutdown_action.splits if_splits)

lemma executor_move_direct:
  assumes "all_direct (d_subscribers (sy_d s))"
  shows "executor_move callbacks elapsed p s = None"
proof (cases "rg_heap (d_subscribers (sy_d s)) p")
  case (Some st)
  then have "p \<in> set (rg_current (d_subscribers (sy_d s)))" using assms by (auto simp: all_direct_def)
  with Some assms show ?thesis by (auto simp: executor_move_def direct_at_def all_direct_def)
qed (simp add: executor_move_def)

lemma subscribe_direct:
  assumes "dispatcher_subscribe True True options addr d = (Inr p, d')" "so_delivery options \<noteq> isolated"
    "rg_heap (d_subscribers d) addr = None" "all_direct (d_subscribers d)"
  shows "all_direct (d_subscribers d')" "rg_current (d_subscribers d') = rg_current (d_subscribers d) @ [addr]"
    "delivered_at (d_subscribers d') addr = 0" "\<And>q. q \<noteq> addr \<Longrightarrow> delivered_at (d_subscribers d') q = delivered_at (d_subscribers d) q"
proof -
  let ?r = "d_subscribers d" and ?n = "rg_next_id (d_subscribers d)"
  from assms(1) obtain st where st: "ss_new True addr ?n options (rg_this ?r) = Inr st"
    and d': "d' = d\<lparr>d_subscribers := ?r\<lparr>rg_next_id := ?n + 1, rg_heap := (rg_heap ?r)(addr \<mapsto> start_executor st),
      rg_current := filter (subscribed_at (?r\<lparr>rg_next_id := ?n + 1\<rparr>)) (rg_current ?r) @ [addr]\<rparr>\<rparr>"
    by (auto simp: dispatcher_subscribe_def rg_subscribe_def core_subscribe_def allocate_id_def Let_def
        split: if_splits sum.splits prod.splits)
  have "filter (subscribed_at (?r\<lparr>rg_next_id := ?n + 1\<rparr>)) (rg_current ?r) = rg_current ?r"
    using assms(4) by (auto simp: filter_id_conv all_direct_def subscribed_at_def)
  with d' have d'': "d' = d\<lparr>d_subscribers := ?r\<lparr>rg_next_id := ?n + 1, rg_heap := (rg_heap ?r)(addr \<mapsto> start_executor st),
      rg_current := rg_current ?r @ [addr]\<rparr>\<rparr>" by simp
  note f = ss_new_fields [OF st]
  have new: "\<not> is_isolated (start_executor st)" "sm_delivered (ss_metrics (start_executor st)) = 0"
    using st assms(2) by (auto simp: ss_new_def start_executor_def zero_metrics_def split: if_splits)
  have "addr \<notin> set (rg_current ?r)" using assms(3,4) by (auto simp: all_direct_def)
  with assms(4) f new show "all_direct (d_subscribers d')"
    by (auto simp: d'' all_direct_def direct_at_def subscribed_at_def)
  show "rg_current (d_subscribers d') = rg_current ?r @ [addr]" "delivered_at (d_subscribers d') addr = 0"
    "\<And>q. q \<noteq> addr \<Longrightarrow> delivered_at (d_subscribers d') q = delivered_at ?r q"
    using new by (simp_all add: d'' delivered_at_def)
qed

lemma subscribe_deliveries:
  assumes "dispatcher_subscribe True True options addr (sy_d s) = (Inr p, d')" "so_delivery options \<noteq> isolated"
    "rg_heap (d_subscribers (sy_d s)) addr = None" "deliveries_ok callbacks s"
    "list_all ((=) W_waiting) (sy_workers s)" "sy_popped_log s = []"
  shows "deliveries_ok callbacks (s\<lparr>sy_d := d'\<rparr>)"
proof -
  have nil: "gather (owed g ps) (sy_workers s) = {#}" for g :: "nat list \<Rightarrow> 'a \<Rightarrow> 'x list" and ps
    using assms(5) by (auto simp: gather_def list_all_iff)
  have snap: "list_all (snapshot_ok ps) (sy_workers s)" for ps using assms(5) by (auto simp: list_all_iff)
  have ok: "all_direct (d_subscribers (sy_d s))" "sy_errors s = []"
    "\<And>q. q \<in> set (rg_current (d_subscribers (sy_d s))) \<Longrightarrow> delivered_at (d_subscribers (sy_d s)) q = 0"
    using assms(4,6) by (auto simp: deliveries_ok_def Let_def nil due_def)
  note n = subscribe_direct [OF assms(1-3) ok(1)]
  have "delivered_at (d_subscribers d') q = 0" if "q \<in> set (rg_current (d_subscribers d'))" for q
    using that n(2-4) ok(3) by (cases "q = addr") auto
  with n(1) ok(2) assms(6) snap show ?thesis by (simp add: deliveries_ok_def Let_def nil due_def)
qed

context dispatcher_threads
begin

text \<open>Nothing moves before the first event is accepted.\<close>

lemma accepted_grows: "dispatch_step P s s' \<Longrightarrow> \<exists>es. sy_accepted_log s' = sy_accepted_log s @ es"
  by (induction rule: dispatch_step.induct) simp_all

lemma reachable_waiting:
  assumes "dispatch_reachable P s" "set (sy_shutdowns s) \<subseteq> {Sd_idle}" "sy_accepted_log s = []"
  shows "list_all ((=) W_waiting) (sy_workers s)"
  using assms
proof (induction rule: dispatch_reachable.induct)
  case (step s s')
  have before: "sy_accepted_log s = []" "set (sy_shutdowns s) \<subseteq> {Sd_idle}"
    using accepted_grows [OF step.hyps(2)] idle_step [OF step.hyps(2) step.prems(1)] step.prems by auto
  then have w: "list_all ((=) W_waiting) (sy_workers s)" using step.IH by blast
  have empty: "aq_items (abs (d_events (sy_d s))) = []" using conservation(1) [OF step.hyps(1)] before(1) by auto
  have none: "qp_wait_pop P (d_events (sy_d s)) False = None"
    using wait_pop_ref [OF reachable_queue [OF step.hyps(1)], of False] reachable_open [OF step.hyps(1) before(2)] empty
    by (simp add: spec_wait_pop_def)
  have pc: "sy_workers s ! t = W_waiting" if "t < length (sy_workers s)" for t using w that by (simp add: list_all_length)
  show ?case using step.hyps(2) by (cases rule: dispatch_step.cases) (use none pc w in auto)
qed (simp add: dispatch_start_def list_all_iff)

text \<open>In a program that subscribes first, subscribing finds nothing published.\<close>

lemma subscribing:
  assumes "main_at config commands m s pc sd pre extra" "subscribes_first ok commands"
    "mt_todo m = Subscribe_call options # todo" "dispatch_reachable P s"
  shows "ok options" "list_all ((=) W_waiting) (sy_workers s)" "sy_popped_log s = []"
proof -
  from assms(2) obtain os body where prog: "commands = map Subscribe_call os @ body"
    "\<forall>o'. Subscribe_call o' \<notin> set body" "\<forall>o' \<in> set os. ok o'" by (auto simp: subscribes_first_def)
  have at: "pre @ Subscribe_call options # todo = map Subscribe_call os @ body" using assms(1,3) prog(1) by (simp add: main_at_def)
  have "length pre < length os"
  proof (rule ccontr)
    assume "\<not> length pre < length os"
    moreover from this have "length pre - length os < length body" using arg_cong [OF at, of length] by simp
    ultimately have "Subscribe_call options = body ! (length pre - length os)" "length pre - length os < length body"
      using arg_cong [OF at, of "\<lambda>xs. xs ! length pre"] by (simp_all add: nth_append)
    with prog(2) nth_mem [of "length pre - length os" body] show False by metis
  qed
  then have pre: "pre = map Subscribe_call (take (length pre) os)" "options = os ! length pre"
    using arg_cong [OF at, of "take (length pre)"] arg_cong [OF at, of "\<lambda>xs. xs ! length pre"]
    by (simp_all add: nth_append take_map)
  then show "ok options" using prog(3) \<open>length pre < length os\<close> by simp
  have none: "published (map Subscribe_call xs :: 'e main_command list) = []" for xs by (induction xs) simp_all
  have "published pre = []" by (subst pre(1)) (rule none)
  then have acc: "sy_accepted_log s = []"
    using assms(1,3) publisher_idle [of _ "mt_todo m" pc extra] by (auto simp: main_at_def)
  have "set (sy_shutdowns s) \<subseteq> {Sd_idle}" using assms(1,3) by (auto simp: main_at_def)
  with reachable_waiting [OF assms(4) _ acc] conservation(1) [OF assms(4)] acc
  show "list_all ((=) W_waiting) (sy_workers s)" "sy_popped_log s = []" by auto
qed

lemma main_move_deliveries:
  assumes ok: "main_ok config commands m s" and direct: "direct_program commands" and reach: "dispatch_reachable P s"
    and del: "deliveries_ok callbacks s" and fresh: "rg_heap (d_subscribers (sy_d s)) addr = None"
    and move: "main_move P callbacks elapsed expired addr (m, s) = Some (m', s')"
  shows "deliveries_ok callbacks s'"
proof -
  obtain c todo where todo: "mt_todo m = c # todo" using move by (cases "mt_todo m") (auto simp: main_move_def)
  then have "mt_exit m = 0" using ok by (cases "mt_exit m = 0") (simp_all add: main_ok_def)
  with ok obtain pc sd pre extra where at: "main_at config commands m s pc sd pre extra" by (auto simp: main_ok_def)
  show ?thesis
  proof (cases c)
    case (Subscribe_call options)
    with move todo obtain p d' where d': "dispatcher_subscribe True True options addr (sy_d s) = (Inr p, d')"
      "s' = s\<lparr>sy_d := d'\<rparr>" by (auto simp: main_move_def split: prod.splits sum.splits)
    from subscribing [OF at direct _ reach] todo Subscribe_call subscribe_deliveries [OF d'(1) _ fresh del] d'(2)
    show ?thesis by simp
  next
    case (Publish_call kind e)
    with move todo obtain res where "publish_move P expired kind e s = Some (res, s')"
      by (auto simp: main_move_def split: option.splits)
    from deliveries_ok_frame [OF del publish_move_registry [OF this]] show ?thesis .
  next
    case (Return_unless_success code)
    with move todo del show ?thesis by (auto simp: main_move_def)
  next
    case Shutdown_call
    with move todo have "s' = s \<or> shutdown_move P callbacks elapsed s = Some s'"
      by (auto simp: main_move_def split: if_splits)
    with del deliveries_ok_frame [OF del shutdown_move_registry] show ?thesis by (auto simp: deliveries_ok_def Let_def)
  qed
qed

lemma program_deliveries:
  assumes "program_reached P callbacks elapsed config commands c" "program_shape commands" "direct_program commands"
  shows "deliveries_ok callbacks (snd c)"
  using assms
proof (induction rule: program_reached.induct)
  case (start registry_this pool_this d)
  have "d_subscribers d = rg_new registry_this"
    using start(1) by (auto simp: dispatcher_new_def make_state_def split: sum.splits prod.splits if_splits)
  then show ?case
    by (auto simp: deliveries_ok_def Let_def dispatch_start_def rg_new_def all_direct_def due_def gather_replicate list_all_iff)
next
  case (step c c')
  have ok: "program_ok config commands c" using program_reached_ok [OF step.hyps(1) step.prems(1)] .
  have del: "deliveries_ok callbacks (snd c)" using step by blast
  then have dir: "all_direct (d_subscribers (sy_d (snd c)))" by (simp add: deliveries_ok_def Let_def)
  show ?case using step.hyps(2)
  proof (cases rule: program_step.cases)
    case (main expired addr m s m' s')
    with ok del main_move_deliveries [of config commands m s callbacks addr elapsed expired m' s'] step.prems(2)
    show ?thesis by (simp add: program_ok_def)
  next
    case (worker t s s' m)
    with worker_move_deliveries [of P callbacks elapsed t s s'] del show ?thesis by simp
  next
    case (executor p s s' m)
    with executor_move_direct [of s callbacks elapsed p] dir show ?thesis by simp
  qed
qed

text \<open>Every subscription is in the list.\<close>

lemma subscribers_move:
  assumes "main_ok config commands m s" "program_shape commands" "direct_program commands" "dispatch_reachable P s"
    "all_direct (d_subscribers (sy_d s))" "rg_heap (d_subscribers (sy_d s)) addr = None"
    "main_move P callbacks elapsed expired addr (m, s) = Some (m', s')" "mt_exit m' = 0"
  shows "length (rg_current (d_subscribers (sy_d s'))) + subscriptions (mt_todo m') =
    length (rg_current (d_subscribers (sy_d s))) + subscriptions (mt_todo m) \<and> mt_exit m = 0"
proof -
  obtain c todo where todo: "mt_todo m = c # todo" using assms(7) by (cases "mt_todo m") (auto simp: main_move_def)
  then have e: "mt_exit m = 0" using assms(1) by (cases "mt_exit m = 0") (simp_all add: main_ok_def)
  with assms(1) obtain pc sd pre extra where at: "main_at config commands m s pc sd pre extra" by (auto simp: main_ok_def)
  show ?thesis
  proof (cases c)
    case (Subscribe_call options)
    with assms(7) todo obtain p d' where d': "dispatcher_subscribe True True options addr (sy_d s) = (Inr p, d')"
      "s' = s\<lparr>sy_d := d'\<rparr>" "m' = m\<lparr>mt_todo := todo\<rparr>" by (auto simp: main_move_def split: prod.splits sum.splits)
    from subscribe_direct(2) [OF d'(1) _ assms(6,5)] subscribing(1) [OF at assms(3) _ assms(4)] todo Subscribe_call d' e
    show ?thesis by simp
  next
    case (Publish_call kind ev)
    with assms(7) todo obtain res where "publish_move P expired kind ev s = Some (res, s')"
      "mt_todo m' = mt_todo m \<or> mt_todo m' = todo" by (auto simp: main_move_def split: option.splits)
    with publish_move_registry(1) [OF this(1)] todo Publish_call e show ?thesis by auto
  next
    case (Return_unless_success code)
    have "code \<noteq> 0" using return_after_publish [OF assms(2), of pre code todo] at todo Return_unless_success
      by (simp add: main_at_def)
    with assms(7,8) todo Return_unless_success e show ?thesis by (auto simp: main_move_def split: if_splits)
  next
    case Shutdown_call
    with assms(7) todo have "mt_todo m' = todo \<and> s' = s \<or> mt_todo m' = mt_todo m \<and> shutdown_move P callbacks elapsed s = Some s'"
      by (auto simp: main_move_def split: if_splits)
    with shutdown_move_registry(1) [OF _ assms(5)] todo Shutdown_call e show ?thesis by auto
  qed
qed

lemma program_subscribers:
  assumes "program_reached P callbacks elapsed config commands c" "program_shape commands" "direct_program commands"
    "mt_exit (fst c) = 0"
  shows "length (rg_current (d_subscribers (sy_d (snd c)))) + subscriptions (mt_todo (fst c)) = subscriptions commands"
  using assms
proof (induction rule: program_reached.induct)
  case (start registry_this pool_this d)
  have "d_subscribers d = rg_new registry_this"
    using start(1) by (auto simp: dispatcher_new_def make_state_def split: sum.splits prod.splits if_splits)
  then show ?case by (simp add: dispatch_start_def rg_new_def main_start_def)
next
  case (step c c')
  have ok: "program_ok config commands c" using program_reached_ok [OF step.hyps(1) step.prems(1)] .
  have del: "deliveries_ok callbacks (snd c)" using program_deliveries [OF step.hyps(1) step.prems(1,2)] .
  then have dir: "all_direct (d_subscribers (sy_d (snd c)))" by (simp add: deliveries_ok_def Let_def)
  show ?case using step.hyps(2)
  proof (cases rule: program_step.cases)
    case (main expired addr m s m' s')
    with ok dir step subscribers_move [of config commands m s addr callbacks elapsed expired m' s'] show ?thesis
      by (auto simp: program_ok_def)
  next
    case (worker t s s' m)
    have "rg_current (d_subscribers (sy_d s')) = rg_current (d_subscribers (sy_d s))"
      using worker_move_current [OF worker(4)] .
    with worker step show ?thesis by simp
  next
    case (executor p s s' m)
    with executor_move_direct [of s callbacks elapsed p] dir show ?thesis by simp
  qed
qed

text \<open>The two results, for any queue that meets the contract.\<close>

lemma program_drained:
  assumes "program_reached P callbacks elapsed config commands (m, s)" "program_shape commands"
    "dc_shutdown config = drain" "mt_todo m = []" "mt_exit m = 0"
  shows "list_all2 status_fits (published commands) (mt_statuses m) \<and>
    sy_accepted_log s = sent (published commands) (mt_statuses m) \<and>
    mset (sy_broadcast_log s) = mset (sy_accepted_log s) \<and>
    (dc_worker_count config = 1 \<longrightarrow> sy_broadcast_log s = sy_accepted_log s) \<and>
    d_metrics (sy_d s) = \<lparr>dm_accepted = of_nat (length (filter ((=) success) (mt_statuses m))),
      dm_rejected = of_nat (length (filter ((\<noteq>) success) (mt_statuses m))), dm_dropped = 0\<rparr> \<and>
    (roomy config commands \<longrightarrow> mt_statuses m = replicate (length (published commands)) success)"
proof -
  note e = program_end [OF assms(1,2,4,5)]
  note a = after_shutdown [OF e(5,3)]
  have none: "sy_discarded s = 0" using a(6) e(4) assms(3) by simp
  from conservation(1) [OF e(5)] none a(3) have pop: "sy_accepted_log s = sy_popped_log s" by (auto simp: finished_def)
  have "sy_broadcast_log s = sy_accepted_log s" if "dc_worker_count config = 1"
  proof -
    have one: "length (sy_workers s) = 1" using e(6) that by simp
    then have "held (sy_workers s ! 0) = []" using a(2) by (cases "sy_workers s") (auto simp: all_exited_def)
    with conservation(3) [OF e(5) one] pop show ?thesis by simp
  qed
  moreover have "mt_statuses m = replicate (length (published commands)) success" if "roomy config commands"
    using e(9) [OF that] list_all2_lengthD [OF e(1)] by (auto simp: list_all_iff intro!: replicate_eqI)
  ultimately show ?thesis using e(1,2,7,8) a(4,5) pop none by (simp add: d_metrics_def)
qed

lemma program_delivered:
  assumes "program_reached P callbacks elapsed config commands (m, s)" "program_shape commands"
    "direct_program commands" "dc_shutdown config = drain" "mt_todo m = []" "mt_exit m = 0"
  shows "length (acquire_snapshot (d_subscribers (sy_d s))) = subscriptions commands \<and>
    list_all (\<lambda>p. delivered_at (d_subscribers (sy_d s)) p = of_nat (length (sy_accepted_log s)))
      (acquire_snapshot (d_subscribers (sy_d s))) \<and>
    mset (sy_errors s) = mset (concat (map (callback_errors callbacks (d_subscribers (sy_d s))
      (acquire_snapshot (d_subscribers (sy_d s)))) (sy_accepted_log s)))"
proof -
  note e = program_end [OF assms(1,2,5,6)]
  note a = after_shutdown [OF e(5,3)]
  have none: "sy_discarded s = 0" using a(6) e(4) assms(4) by simp
  from conservation(1) [OF e(5)] none a(3) have pop: "sy_accepted_log s = sy_popped_log s" by (auto simp: finished_def)
  have nil: "gather (owed g ps) (sy_workers s) = {#}" for g :: "nat list \<Rightarrow> 'e \<Rightarrow> 'x list" and ps
    using a(2) by (auto simp: gather_def all_exited_def list_all_iff)
  have del: "deliveries_ok callbacks s" using program_deliveries [OF assms(1-3)] by simp
  have "length (rg_current (d_subscribers (sy_d s))) = subscriptions commands"
    using program_subscribers [OF assms(1-3)] assms(5,6) by simp
  with del pop show ?thesis by (simp add: deliveries_ok_def Let_def nil acquire_snapshot_def due_def list_all_iff)
qed

end

text \<open>Programs in the usual form.\<close>

lemma program_shapeI:
  assumes "Shutdown_call \<notin> set body" "\<And>code. Return_unless_success code \<notin> set body"
  shows "program_shape (body @ [Shutdown_call])"
proof -
  have "body \<noteq> pre @ Return_unless_success code # post" for pre code post using assms(2) [of code] by auto
  with assms(1) show ?thesis unfolding program_shape_def by blast
qed

lemma subscribes_firstI:
  assumes "\<forall>options \<in> set os. ok options" "\<And>options. Subscribe_call options \<notin> set body"
  shows "subscribes_first ok (map Subscribe_call os @ body)"
  unfolding subscribes_first_def using assms by blast

section \<open>Programs over the mutex queue\<close>

text \<open>Two events through a queue of two, with one worker that starts when both are published.\<close>

definition small_config :: dispatcher_config where
  "small_config = default_config\<lparr>dc_queue_capacity := 2\<rparr>"

definition small_program :: "nat main_command list" where
  "small_program = [Subscribe_call default_subscription_options, Publish_call Try 7, Publish_call Block 8, Shutdown_call]"

definition small_schedule :: "program_action list" where
  "small_schedule = Main_move False 5 # replicate 6 (Main_move False 6) @ replicate 12 (Worker_move 0) @
     replicate 2 (Main_move False 6) @ [Worker_move 0] @ replicate 4 (Main_move False 6)"

definition small_callbacks :: "nat callbacks" where
  "small_callbacks = (\<lambda>_ _ e. if e = 8 then Some (User_exception 1) else None)"

lemma small_run:
  "\<exists>m s. program_reached mutex_queue_policy small_callbacks 0 small_config small_program (m, s) \<and> mt_todo m = [] \<and>
     mt_exit m = 0 \<and> acquire_snapshot (d_subscribers (sy_d s)) = [5] \<and> sy_accepted_log s = [7, 8]"
proof -
  have "case run_program mutex_queue_policy small_callbacks 0 small_config small_program small_schedule of
      None \<Rightarrow> False
    | Some (m, s) \<Rightarrow> mt_todo m = [] \<and> mt_exit m = 0 \<and> acquire_snapshot (d_subscribers (sy_d s)) = [5] \<and>
        sy_accepted_log s = [7, 8]" by code_simp
  then show ?thesis using run_program_reached [of mutex_queue_policy small_callbacks 0 small_config small_program small_schedule]
    by (auto split: option.splits)
qed

lemma small_program_form: "program_shape small_program" "direct_program small_program" "dc_shutdown small_config = drain"
  using program_shapeI [of "butlast small_program"] subscribes_firstI [of "[default_subscription_options]" "\<lambda>options. so_delivery options \<noteq> isolated" "tl small_program"]
  by (auto simp: small_program_def small_config_def default_config_def default_subscription_options_def)

text \<open>
  Property C14. A program whose \<open>main\<close> publishes and then shuts down with the drain policy, for every interleaving with
  the workers and executors: when it has ended, every publication has a status that its kind allows
  (\<open>publish\<close> succeeds, \<open>try_publish\<close> may find the queue full, \<open>publish_for\<close> may time out), the accepted events are those with
  status success, in program order; every accepted event was broadcast once, in that order when there is one worker; the
  counters are the numbers of successes and failures, and nothing was dropped. When no more is published than the
  queue can hold, every publication succeeds.
\<close>

theorem program_outcome:
  assumes "program_reached mutex_queue_policy callbacks elapsed config commands (m, s)" "program_shape commands"
    "dc_shutdown config = drain" "mt_todo m = []" "mt_exit m = 0"
  shows "list_all2 status_fits (published commands) (mt_statuses m) \<and>
    sy_accepted_log s = sent (published commands) (mt_statuses m) \<and>
    mset (sy_broadcast_log s) = mset (sy_accepted_log s) \<and>
    (dc_worker_count config = 1 \<longrightarrow> sy_broadcast_log s = sy_accepted_log s) \<and>
    d_metrics (sy_d s) = \<lparr>dm_accepted = of_nat (length (filter ((=) success) (mt_statuses m))),
      dm_rejected = of_nat (length (filter ((\<noteq>) success) (mt_statuses m))), dm_dropped = 0\<rparr> \<and>
    (roomy config commands \<longrightarrow> mt_statuses m = replicate (length (published commands)) success)"
  using mdt.program_drained [OF assms] .

theorem program_outcome_witness:
  "\<exists>m s. program_reached mutex_queue_policy small_callbacks 0 small_config small_program (m, s) \<and>
     mt_statuses m = [success, success] \<and> sy_broadcast_log s = [7, 8] \<and> dm_accepted (d_metrics (sy_d s)) = 2"
proof -
  obtain m s where ms: "program_reached mutex_queue_policy small_callbacks 0 small_config small_program (m, s)"
    "mt_todo m = []" "mt_exit m = 0" "sy_accepted_log s = [7, 8]" using small_run by blast
  have cfg: "roomy small_config small_program" "dc_worker_count small_config = 1" "length (published small_program) = 2"
    by (simp_all add: roomy_def small_config_def small_program_def default_config_def)
  from program_outcome [OF ms(1) small_program_form(1,3) ms(2,3)] cfg
  have o: "sy_broadcast_log s = sy_accepted_log s" "mt_statuses m = replicate 2 success"
    "dm_accepted (d_metrics (sy_d s)) = of_nat (length (filter ((=) success) (mt_statuses m)))" by simp_all
  with ms show ?thesis by (intro exI [of _ m] exI [of _ s]) (simp add: replicate_two)
qed

text \<open>
  Property C13. The same programs with direct subscribers, all of them registered before the first publication, and any
  callbacks: when the program has ended, every subscription is registered, every subscriber was delivered every accepted event
  exactly once, and the error handler got exactly the exceptions that the callbacks throw for these events, whatever
  other callbacks threw and however the workers were scheduled.
\<close>

theorem program_delivers:
  assumes "program_reached mutex_queue_policy callbacks elapsed config commands (m, s)" "program_shape commands"
    "direct_program commands" "dc_shutdown config = drain" "mt_todo m = []" "mt_exit m = 0"
  shows "length (acquire_snapshot (d_subscribers (sy_d s))) = subscriptions commands \<and>
    list_all (\<lambda>p. delivered_at (d_subscribers (sy_d s)) p = of_nat (length (sy_accepted_log s)))
      (acquire_snapshot (d_subscribers (sy_d s))) \<and>
    mset (sy_errors s) = mset (concat (map (callback_errors callbacks (d_subscribers (sy_d s))
      (acquire_snapshot (d_subscribers (sy_d s)))) (sy_accepted_log s)))"
  using mdt.program_delivered [OF assms] .

theorem program_delivers_witness:
  "\<exists>m s. program_reached mutex_queue_policy small_callbacks 0 small_config small_program (m, s) \<and>
     delivered_at (d_subscribers (sy_d s)) 5 = 2 \<and> length (acquire_snapshot (d_subscribers (sy_d s))) = 1"
proof -
  obtain m s where ms: "program_reached mutex_queue_policy small_callbacks 0 small_config small_program (m, s)"
    "mt_todo m = []" "mt_exit m = 0" "acquire_snapshot (d_subscribers (sy_d s)) = [5]" "sy_accepted_log s = [7, 8]"
    using small_run by blast
  from program_delivers [OF ms(1) small_program_form ms(2,3)] ms show ?thesis by (intro exI [of _ m] exI [of _ s]) simp
qed

end
