(* ===== verification/Program_Metrics.thy ===== *)
theory Program_Metrics
  imports Programs
begin

text \<open>
  The metrics of every subscriber when a program of \<open>Programs\<close> has ended, also of isolated subscribers: the worker puts an
  event into the mailbox, the executor takes it out and runs the callback, and the draining shutdown waits for the
  executors after it has joined the workers.
\<close>

section \<open>Metrics from the events\<close>

text \<open>The metrics of a subscriber that was offered \<open>n\<close> events and whose callback has run for the events \<open>past\<close>.\<close>

definition is_slow :: "int \<Rightarrow> subscription_options \<Rightarrow> bool" where
  "is_slow elapsed options = (so_slow_callback_threshold options \<noteq> 0 \<and> so_slow_callback_threshold options \<le> elapsed)"

definition metrics_after :: "('e \<Rightarrow> bool) \<Rightarrow> bool \<Rightarrow> nat \<Rightarrow> 'e list \<Rightarrow> subscription_metrics" where
  "metrics_after throws slow n past = \<lparr>sm_offered = of_nat n, sm_delivered = of_nat (length past), sm_dropped = 0,
     sm_rejected = 0, sm_callback_errors = of_nat (length (filter throws past)),
     sm_slow_callbacks = of_nat (if slow then length past else 0)\<rparr>"

abbreviation throws_on :: "(invocation_context list \<Rightarrow> 'e \<Rightarrow> exn option) \<Rightarrow> 'e subscriber_state \<Rightarrow> 'e \<Rightarrow> bool" where
  "throws_on callback st e \<equiv> callback (enter_scope st []) e \<noteq> None"

definition counted ::
  "(invocation_context list \<Rightarrow> 'e \<Rightarrow> exn option) \<Rightarrow> int \<Rightarrow> 'e subscriber_state \<Rightarrow> nat \<Rightarrow> 'e list \<Rightarrow> bool" where
  "counted callback elapsed st n past = (ss_active st \<and>
     ss_metrics st = metrics_after (throws_on callback st) (is_slow elapsed (ss_options st)) n past)"

text \<open>An open mailbox accepts events for its executor; one that was drained is empty and has no executor.\<close>

definition mail_mode :: "bool \<Rightarrow> 'e subscriber_state \<Rightarrow> bool" where
  "mail_mode opened st = (if \<not> is_isolated st then ss_mailbox st = []
     else if opened then ss_mailbox_accepting st \<and> \<not> ss_executor_stopping st \<and> ss_drain_mailbox st \<and> ss_executor_joinable st
     else ss_mailbox st = [] \<and> \<not> ss_executor_joinable st)"

text \<open>\<open>H\<close> are the events that workers have handed over so far.\<close>

definition mail_ok ::
  "(invocation_context list \<Rightarrow> 'e \<Rightarrow> exn option) \<Rightarrow> int \<Rightarrow> bool \<Rightarrow> 'e subscriber_state \<Rightarrow> 'e multiset \<Rightarrow> bool" where
  "mail_ok callback elapsed opened st H = (mail_mode opened st \<and>
     (\<exists>past. counted callback elapsed st (size H) past \<and> mset past + mset (ss_mailbox st) = H))"

text \<open>What no operation of a running program changes.\<close>

definition same_kind :: "'e subscriber_state \<Rightarrow> 'e subscriber_state \<Rightarrow> bool" where
  "same_kind st st' = (ss_options st' = ss_options st \<and> enter_scope st' [] = enter_scope st [])"

lemma metrics_after_fields [simp]:
  "sm_offered (metrics_after throws slow n past) = of_nat n" "sm_delivered (metrics_after throws slow n past) = of_nat (length past)"
  "sm_dropped (metrics_after throws slow n past) = 0" "sm_rejected (metrics_after throws slow n past) = 0"
  "sm_slow_callbacks (metrics_after throws slow n past) = of_nat (if slow then length past else 0)"
  by (simp_all add: metrics_after_def)

lemma execute_counted:
  assumes "execute_callback callback elapsed [] e st = (x, st')" "counted callback elapsed st n past"
  shows "counted callback elapsed st' n (past @ [e])" "same_kind st st'" "ss_mailbox st' = ss_mailbox st"
    "ss_mailbox_accepting st' = ss_mailbox_accepting st" "ss_executor_stopping st' = ss_executor_stopping st"
    "ss_drain_mailbox st' = ss_drain_mailbox st" "ss_executor_joinable st' = ss_executor_joinable st"
  using assms
  by (auto simp: counted_def metrics_after_def is_slow_def same_kind_def enter_scope_def execute_callback_def invoke_callback_def
      finish_section_def finish_counters_def count_defs Let_def split: option.splits if_splits)

lemma counted_offered: "counted callback elapsed st n past \<Longrightarrow> counted callback elapsed (count_offered st) (Suc n) past"
  by (simp add: counted_def count_offered_def metrics_after_def enter_scope_def)

lemma counted_cong:
  assumes "counted callback elapsed st n past" "ss_metrics st' = ss_metrics st" "ss_active st' = ss_active st"
    "same_kind st st'"
  shows "counted callback elapsed st' n past"
  using assms by (simp add: counted_def same_kind_def)

lemma same_kind_trans: "same_kind a b \<Longrightarrow> same_kind b c \<Longrightarrow> same_kind a c"
  by (simp add: same_kind_def)

text \<open>A worker hands an event over.\<close>

lemma try_invoke_mail:
  assumes "try_invoke True callback elapsed [] e (Inr e) st = Some (res, st')" "mail_ok callback elapsed opened st H"
    "is_isolated st \<Longrightarrow> opened \<and> (so_guarantee (ss_options st) = lossless \<or> size H < unat (so_mailbox_capacity (ss_options st)))"
  shows "mail_ok callback elapsed opened st' (add_mset e H) \<and> same_kind st st'"
proof -
  from assms(2) obtain past where m: "mail_mode opened st" "counted callback elapsed st (size H) past"
    "mset past + mset (ss_mailbox st) = H" by (auto simp: mail_ok_def)
  let ?s = "count_offered st"
  have off: "counted callback elapsed ?s (size (add_mset e H)) past" using counted_offered [OF m(2)] by simp
  have kind: "same_kind st ?s" by (simp add: same_kind_def count_offered_def enter_scope_def)
  show ?thesis
  proof (cases "is_isolated st")
    case True
    have len: "length (ss_mailbox st) \<le> size H" using m(3) by auto
    have room: "of_nat (length (ss_mailbox st)) \<noteq> so_mailbox_capacity (ss_options st)"
      if "so_guarantee (ss_options st) \<noteq> lossless"
    proof
      assume "of_nat (length (ss_mailbox st)) = so_mailbox_capacity (ss_options st)"
      moreover have "length (ss_mailbox st) < unat (so_mailbox_capacity (ss_options st))"
        using that assms(3) [OF True] len by simp
      moreover have "unat (of_nat (length (ss_mailbox st)) :: size_t) \<le> length (ss_mailbox st)"
        by (simp add: unat_of_nat take_bit_nat_less_eq_self)
      ultimately show False by simp
    qed
    have acc: "ss_mailbox_accepting st" using m(1) True assms(3) by (simp add: mail_mode_def)
    have st': "st' = ?s\<lparr>ss_mailbox := ss_mailbox ?s @ [e]\<rparr>"
      using assms(1) True room acc
      by (auto simp: try_invoke_def enqueue_isolated_def cv_wait_def Let_def split: if_splits option.splits)
    have "counted callback elapsed st' (size (add_mset e H)) past"
      by (rule counted_cong [OF off]) (simp_all add: st' same_kind_def enter_scope_def)
    moreover have "mail_mode opened st'" using m(1) by (auto simp: st' mail_mode_def count_offered_def True assms(3))
    ultimately show ?thesis using m(3) kind
      by (auto simp: mail_ok_def st' same_kind_def enter_scope_def intro!: exI [of _ past])
  next
    case False
    let ?s1 = "?s\<lparr>ss_in_flight := ss_in_flight ?s + 1\<rparr>"
    obtain x s2 where x: "execute_callback callback elapsed [] e ?s1 = (x, s2)" by fastforce
    have "counted callback elapsed ?s1 (size (add_mset e H)) past"
      by (rule counted_cong [OF off]) (simp_all add: same_kind_def enter_scope_def)
    note c = execute_counted [OF x this]
    have "st' = s2" using assms(1) False x off
      by (auto simp: try_invoke_def begin_invocation_def counted_def Let_def split: option.splits)
    moreover have "ss_mailbox st = []" using m(1) False by (simp add: mail_mode_def)
    moreover have "same_kind st s2" using kind c(2) by (simp add: same_kind_def enter_scope_def)
    ultimately show ?thesis using c(1,3) m(3) False
      by (auto simp: mail_ok_def mail_mode_def same_kind_def intro!: exI [of _ "past @ [e]"])
  qed
qed

text \<open>The executor runs the callback for an event of the mailbox.\<close>

lemma executor_deliver_counted:
  assumes "counted callback elapsed st n past" "ss_mailbox st = e # es"
  shows "counted callback elapsed (executor_deliver callback elapsed e (st\<lparr>ss_mailbox := es\<rparr>)) n (past @ [e])"
    "same_kind st (executor_deliver callback elapsed e (st\<lparr>ss_mailbox := es\<rparr>))"
    "ss_mailbox_accepting (executor_deliver callback elapsed e (st\<lparr>ss_mailbox := es\<rparr>)) = ss_mailbox_accepting st"
    "ss_executor_stopping (executor_deliver callback elapsed e (st\<lparr>ss_mailbox := es\<rparr>)) = ss_executor_stopping st"
    "ss_drain_mailbox (executor_deliver callback elapsed e (st\<lparr>ss_mailbox := es\<rparr>)) = ss_drain_mailbox st"
    "ss_executor_joinable (executor_deliver callback elapsed e (st\<lparr>ss_mailbox := es\<rparr>)) = ss_executor_joinable st"
proof -
  let ?s1 = "st\<lparr>ss_mailbox := es, ss_in_flight := ss_in_flight st + 1\<rparr>"
  obtain x s2 where x: "execute_callback callback elapsed [] e ?s1 = (x, s2)" by fastforce
  have "counted callback elapsed ?s1 n past"
    by (rule counted_cong [OF assms(1)]) (simp_all add: same_kind_def enter_scope_def)
  note c = execute_counted [OF x this]
  have "executor_deliver callback elapsed e (st\<lparr>ss_mailbox := es\<rparr>) = s2"
    using assms(1) x by (simp add: executor_deliver_def begin_invocation_def counted_def)
  with c show "counted callback elapsed (executor_deliver callback elapsed e (st\<lparr>ss_mailbox := es\<rparr>)) n (past @ [e])"
    "same_kind st (executor_deliver callback elapsed e (st\<lparr>ss_mailbox := es\<rparr>))"
    "ss_mailbox_accepting (executor_deliver callback elapsed e (st\<lparr>ss_mailbox := es\<rparr>)) = ss_mailbox_accepting st"
    "ss_executor_stopping (executor_deliver callback elapsed e (st\<lparr>ss_mailbox := es\<rparr>)) = ss_executor_stopping st"
    "ss_drain_mailbox (executor_deliver callback elapsed e (st\<lparr>ss_mailbox := es\<rparr>)) = ss_drain_mailbox st"
    "ss_executor_joinable (executor_deliver callback elapsed e (st\<lparr>ss_mailbox := es\<rparr>)) = ss_executor_joinable st"
    by (auto simp: same_kind_def enter_scope_def)
qed

lemma executor_mail:
  assumes "executor_next st = Some (Some e, st1)" "mail_ok callback elapsed opened st H" "is_isolated st" "ss_executor_joinable st"
  shows "mail_ok callback elapsed opened (executor_deliver callback elapsed e st1) H \<and>
    same_kind st (executor_deliver callback elapsed e st1)"
proof -
  from assms(2) obtain past where m: "mail_mode opened st" "counted callback elapsed st (size H) past"
    "mset past + mset (ss_mailbox st) = H" by (auto simp: mail_ok_def)
  have o: opened using m(1) assms(3,4) by (simp add: mail_mode_def split: if_splits)
  obtain es where es: "ss_mailbox st = e # es" "st1 = st\<lparr>ss_mailbox := es\<rparr>"
    using assms(1) m(1) o assms(3) by (cases "ss_mailbox st") (auto simp: executor_next_def cv_wait_def mail_mode_def split: if_splits)
  note c = executor_deliver_counted [OF m(2) es(1)]
  have "mset (past @ [e]) + mset es = H" using m(3) es(1) by simp
  with c m(1) o assms(3) show ?thesis unfolding es(2)
    by (auto simp: mail_ok_def mail_mode_def same_kind_def intro!: exI [of _ "past @ [e]"])
qed

text \<open>The executor empties a mailbox that is being drained.\<close>

lemma executor_loop_counted:
  assumes "ss_executor_stopping st" "ss_drain_mailbox st" "counted callback elapsed st n past"
  shows "\<exists>st'. executor_loop callback elapsed st = Some st' \<and> counted callback elapsed st' n (past @ ss_mailbox st) \<and>
    same_kind st st' \<and> ss_mailbox st' = []"
  using assms
proof (induction "ss_mailbox st" arbitrary: st past)
  case Nil
  then show ?case
    by (intro exI [of _ st]) (simp add: executor_loop.simps [of _ _ st] executor_next_def cv_wait_def same_kind_def)
next
  case (Cons e es)
  let ?s2 = "executor_deliver callback elapsed e (st\<lparr>ss_mailbox := es\<rparr>)"
  note c = executor_deliver_counted [OF Cons.prems(3) Cons.hyps(2) [symmetric]]
  have step: "executor_loop callback elapsed st = executor_loop callback elapsed ?s2"
    using Cons.hyps(2) [symmetric] Cons.prems(2) by (simp add: executor_loop.simps [of _ _ st] executor_next_def cv_wait_def)
  from Cons.hyps(1) [of ?s2 "past @ [e]"] c Cons.prems obtain st' where
    "executor_loop callback elapsed ?s2 = Some st'" "counted callback elapsed st' n ((past @ [e]) @ es)"
    "same_kind ?s2 st'" "ss_mailbox st' = []" by auto
  with step c(2) Cons.hyps(2) [symmetric] same_kind_trans [OF c(2)] show ?case by auto
qed

lemma stop_delivery_mail:
  assumes "mail_ok callback elapsed True st H"
  shows "\<exists>st'. stop_delivery callback elapsed False True st = Some st' \<and> mail_ok callback elapsed False st' H \<and> same_kind st st'"
proof (cases "is_isolated st")
  case True
  from assms obtain past where m: "mail_mode True st" "counted callback elapsed st (size H) past"
    "mset past + mset (ss_mailbox st) = H" by (auto simp: mail_ok_def)
  let ?s1 = "stop_section True st"
  have f: "ss_executor_stopping ?s1" "ss_drain_mailbox ?s1" "ss_mailbox ?s1 = ss_mailbox st" "ss_executor_joinable ?s1" "same_kind st ?s1"
    using m(1) True by (simp_all add: stop_section_def mail_mode_def same_kind_def enter_scope_def Let_def)
  have "counted callback elapsed ?s1 (size H) past"
    by (rule counted_cong [OF m(2) _ _ f(5)]) (simp_all add: stop_section_def Let_def)
  from executor_loop_counted [OF f(1,2) this] f(3) obtain s2 where s2: "executor_loop callback elapsed ?s1 = Some s2"
    "counted callback elapsed s2 (size H) (past @ ss_mailbox st)" "same_kind ?s1 s2" "ss_mailbox s2 = []" by auto
  let ?s3 = "s2\<lparr>ss_executor_joinable := False\<rparr>"
  have "counted callback elapsed ?s3 (size H) (past @ ss_mailbox st)"
    by (rule counted_cong [OF s2(2)]) (simp_all add: same_kind_def enter_scope_def)
  moreover have "same_kind st ?s3" using same_kind_trans [OF f(5) s2(3)] by (simp add: same_kind_def enter_scope_def)
  ultimately show ?thesis using s2 f True m(3)
    by (intro exI [of _ ?s3])
      (auto simp: stop_delivery_def Let_def mail_ok_def mail_mode_def same_kind_def intro!: exI [of _ "past @ ss_mailbox st"])
next
  case False
  with assms show ?thesis by (auto simp: stop_delivery_def mail_ok_def mail_mode_def same_kind_def)
qed

section \<open>All subscribers of a running program\<close>

lemma list_all2_map_eq: "list_all2 (\<lambda>x y. f x = g y) xs ys = (map f xs = map g ys)"
  by (induction xs arbitrary: ys) (auto simp: list_all2_Cons1 Cons_eq_map_conv)

text \<open>The options with which the members of the list were registered.\<close>

definition registered_options :: "'e registry_core \<Rightarrow> subscription_options option list" where
  "registered_options r = map (\<lambda>p. map_option ss_options (rg_heap r p)) (rg_current r)"

lemma registered_options_update:
  "rg_heap r p = Some st \<Longrightarrow> ss_options st' = ss_options st \<Longrightarrow>
     registered_options (r\<lparr>rg_heap := (rg_heap r)(p \<mapsto> st')\<rparr>) = registered_options r"
  by (simp add: registered_options_def)

text \<open>What delivering an event to the subscribers \<open>qs\<close> hands to the subscriber \<open>p\<close>.\<close>

abbreviation handing :: "nat \<Rightarrow> nat list \<Rightarrow> 'e \<Rightarrow> 'e list" where
  "handing p qs e \<equiv> map (\<lambda>_. e) (filter ((=) p) qs)"

text \<open>A mailbox is large enough for \<open>n\<close> events, or the worker waits for room.\<close>

definition mailbox_fits :: "nat \<Rightarrow> subscription_options \<Rightarrow> bool" where
  "mailbox_fits n options = (so_delivery options = isolated \<longrightarrow>
     so_guarantee options = lossless \<or> n \<le> unat (so_mailbox_capacity options))"

definition settled ::
  "'e callbacks \<Rightarrow> int \<Rightarrow> nat \<Rightarrow> bool \<Rightarrow> ('e, 'q) dispatch_system \<Rightarrow> nat \<Rightarrow> bool" where
  "settled callbacks elapsed n opened s p = (let r = d_subscribers (sy_d s) in
     \<exists>st H. rg_heap r p = Some st \<and> mail_ok (callbacks p) elapsed opened st H \<and> mailbox_fits n (ss_options st) \<and>
       H + gather (owed (handing p) (rg_current r)) (sy_workers s) = mset (sy_popped_log s))"

definition mailing_ok :: "'e callbacks \<Rightarrow> int \<Rightarrow> nat \<Rightarrow> bool \<Rightarrow> ('e, 'q) dispatch_system \<Rightarrow> bool" where
  "mailing_ok callbacks elapsed n opened s = (let r = d_subscribers (sy_d s); ps = rg_current r in
     distinct ps \<and> dom (rg_heap r) = set ps \<and> list_all (snapshot_ok ps) (sy_workers s) \<and>
     (\<not> opened \<longrightarrow> all_exited s) \<and> (\<forall>p \<in> set ps. settled callbacks elapsed n opened s p))"

lemma due_handing:
  fixes s :: "('e, 'q) dispatch_system"
  assumes "p \<in> set ps" "distinct ps"
  shows "due (handing p) ps s = mset (sy_popped_log s)"
proof -
  have "length (filter ((=) p) ps) = 1" using assms by (simp add: distinct_length_filter)
  then have "handing p ps = (\<lambda>e :: 'e. [e])" by (cases "filter ((=) p) ps") simp_all
  then show ?thesis by (simp only: due_def concat_map_singleton list.map_ident)
qed

lemma mailing_frame:
  assumes "mailing_ok callbacks elapsed n opened s" "d_subscribers (sy_d s') = d_subscribers (sy_d s)" "sy_workers s' = sy_workers s"
    "sy_popped_log s' = sy_popped_log s"
  shows "mailing_ok callbacks elapsed n opened s'"
  using assms(1) unfolding mailing_ok_def settled_def all_exited_def assms(2-4) .

text \<open>A worker hands one event to one subscriber.\<close>

lemma worker_move_mailing:
  assumes "worker_move P callbacks elapsed t s = Some s'" "t < length (sy_workers s)" "mailing_ok callbacks elapsed n opened s"
    "length (sy_popped_log s') \<le> n"
  shows "mailing_ok callbacks elapsed n opened s'"
proof -
  let ?r = "d_subscribers (sy_d s)" and ?r' = "d_subscribers (sy_d s')" and ?w = "sy_workers s ! t"
  let ?ps = "rg_current ?r"
  from assms(3) have ok: "distinct ?ps" "dom (rg_heap ?r) = set ?ps" "list_all (snapshot_ok ?ps) (sy_workers s)"
    "\<not> opened \<longrightarrow> all_exited s" "\<And>p. p \<in> set ?ps \<Longrightarrow> settled callbacks elapsed n opened s p"
    by (auto simp: mailing_ok_def Let_def)
  have opened
    using assms(1,2) ok(4) by (cases opened) (auto simp: all_exited_def list_all_length worker_move_def)
  have cur: "rg_current ?r' = ?ps" using worker_move_current [OF assms(1)] .
  note snap = acquire_snapshot_def [of ?r]
  have handed: "H + mset (paid (handing p) ?w) + gather (owed (handing p) ?ps) (sy_workers s') = mset (sy_popped_log s')"
    if "p \<in> set ?ps" "H + gather (owed (handing p) ?ps) (sy_workers s) = mset (sy_popped_log s)" for p H
  proof -
    have "mset (sy_popped_log s') + gather (owed (handing p) ?ps) (sy_workers s) =
        (H + gather (owed (handing p) ?ps) (sy_workers s)) + gather (owed (handing p) ?ps) (sy_workers s') + mset (paid (handing p) ?w)"
      unfolding that(2) due_handing [OF that(1) ok(1), symmetric]
      by (rule worker_move_owed(1) [OF assms(1,2) ok(3) snap]) simp_all
    then show ?thesis by (simp add: add_ac)
  qed
  have "dom (rg_heap ?r') = set ?ps \<and> (\<forall>p \<in> set ?ps. settled callbacks elapsed n opened s' p)"
  proof (cases "next_delivery ?w")
    case None
    with worker_move_registry [OF assms(1)] have r': "?r' = ?r" by simp
    have "settled callbacks elapsed n opened s' p" if "p \<in> set ?ps" for p
      using ok(5) [OF that] handed [OF that] None by (fastforce simp: settled_def Let_def r')
    then show ?thesis using ok(2) r' by simp
  next
    case (Some pe)
    then obtain q e where q: "next_delivery ?w = Some (q, e)" by (cases pe) auto
    with worker_move_registry [OF assms(1)] obtain res where
      "deliver_to True callbacks elapsed [] e (Inr e) q ?r = Some (res, ?r')" by auto
    then obtain st st' where st: "rg_heap ?r q = Some st" "try_invoke True (callbacks q) elapsed [] e (Inr e) st = Some (res, st')"
      "?r' = ?r\<lparr>rg_heap := (rg_heap ?r)(q \<mapsto> st')\<rparr>" by (auto simp: deliver_to_def split: option.splits)
    have "settled callbacks elapsed n opened s' p" if p: "p \<in> set ?ps" for p
    proof (cases "p = q")
      case True
      from ok(5) [OF p] True st(1) obtain H where H: "mail_ok (callbacks q) elapsed opened st H" "mailbox_fits n (ss_options st)"
        "H + gather (owed (handing q) ?ps) (sy_workers s) = mset (sy_popped_log s)" by (auto simp: settled_def Let_def)
      have sum: "add_mset e H + gather (owed (handing q) ?ps) (sy_workers s') = mset (sy_popped_log s')"
        using handed [of q H] H(3) p True q by simp
      have "size H < length (sy_popped_log s')" using arg_cong [OF sum, of size] by simp
      then have "is_isolated st \<Longrightarrow> opened \<and> (so_guarantee (ss_options st) = lossless \<or> size H < unat (so_mailbox_capacity (ss_options st)))"
        using H(2) assms(4) \<open>opened\<close> by (auto simp: mailbox_fits_def)
      from try_invoke_mail [OF st(2) H(1) this] sum H(2) True st(3) show ?thesis
        by (auto simp: settled_def Let_def same_kind_def)
    next
      case False
      from ok(5) [OF p] handed [OF p] False q st(3) show ?thesis by (fastforce simp: settled_def Let_def)
    qed
    moreover have "dom (rg_heap ?r') = set ?ps" using st ok(2) by auto
    ultimately show ?thesis by blast
  qed
  moreover have "list_all (snapshot_ok ?ps) (sy_workers s')"
    using worker_move_owed(2) [OF assms(1,2) ok(3) snap, of "\<lambda>_ _. [] :: nat list"] by simp
  ultimately show ?thesis using ok(1) \<open>opened\<close> by (simp add: mailing_ok_def Let_def cur)
qed

lemma try_invoke_options:
  "try_invoke copyable callback elapsed chain e c st = Some (res, st') \<Longrightarrow> ss_options st' = ss_options st"
  by (auto simp: try_invoke_def enqueue_isolated_def begin_invocation_def cv_wait_def count_defs Let_def
      dest!: execute_callback_fields(2) split: if_splits option.splits sum.splits prod.splits bool.splits)

lemma worker_move_options:
  assumes "worker_move P callbacks elapsed t s = Some s'"
  shows "registered_options (d_subscribers (sy_d s')) = registered_options (d_subscribers (sy_d s))"
proof (cases "next_delivery (sy_workers s ! t)")
  case None
  with worker_move_registry [OF assms] show ?thesis by simp
next
  case (Some pe)
  with worker_move_registry [OF assms] obtain res e p where
    "deliver_to True callbacks elapsed [] e (Inr e) p (d_subscribers (sy_d s)) = Some (res, d_subscribers (sy_d s'))"
    by (auto split: prod.splits)
  then obtain st st' where "rg_heap (d_subscribers (sy_d s)) p = Some st" "ss_options st' = ss_options st"
    "d_subscribers (sy_d s') = (d_subscribers (sy_d s))\<lparr>rg_heap := (rg_heap (d_subscribers (sy_d s)))(p \<mapsto> st')\<rparr>"
    by (auto simp: deliver_to_def dest!: try_invoke_options split: option.splits)
  then show ?thesis by (simp add: registered_options_update)
qed

text \<open>An executor runs one callback.\<close>

lemma executor_deliver_options: "ss_options (executor_deliver callback elapsed e st) = ss_options st"
  by (simp add: executor_deliver_def begin_invocation_def execute_callback_fields(2) [OF surjective_pairing])

lemma executor_move_mailing:
  assumes "executor_move callbacks elapsed p s = Some s'" "mailing_ok callbacks elapsed n opened s"
  shows "mailing_ok callbacks elapsed n opened s' \<and>
    registered_options (d_subscribers (sy_d s')) = registered_options (d_subscribers (sy_d s))"
proof -
  let ?r = "d_subscribers (sy_d s)"
  from assms(1) obtain st e st1 where st: "rg_heap ?r p = Some st" "is_isolated st" "ss_executor_joinable st"
    "executor_next st = Some (Some e, st1)"
    "s' = s\<lparr>sy_d := (sy_d s)\<lparr>d_subscribers := ?r\<lparr>rg_heap := (rg_heap ?r)(p \<mapsto> executor_deliver (callbacks p) elapsed e st1)\<rparr>\<rparr>\<rparr>"
    by (auto simp: executor_move_def Let_def split: option.splits if_splits prod.splits)
  have "settled callbacks elapsed n opened s' q" if "settled callbacks elapsed n opened s q" for q
  proof (cases "q = p")
    case True
    from that st(1) True obtain H where H: "mail_ok (callbacks p) elapsed opened st H" "mailbox_fits n (ss_options st)"
      "H + gather (owed (handing p) (rg_current ?r)) (sy_workers s) = mset (sy_popped_log s)" by (auto simp: settled_def Let_def)
    from executor_mail [OF st(4) H(1) st(2,3)] H(2,3) True st(5) show ?thesis
      by (auto simp: settled_def Let_def same_kind_def)
  qed (use that st(5) in \<open>auto simp: settled_def Let_def\<close>)
  then have "mailing_ok callbacks elapsed n opened s'"
    using assms(2) st(1,5) by (auto simp: mailing_ok_def Let_def all_exited_def)
  moreover have "ss_options (executor_deliver (callbacks p) elapsed e st1) = ss_options st"
    using st(4) by (auto simp: executor_deliver_options executor_next_def split: option.splits if_splits)
  ultimately show ?thesis using st(1,5) by (simp add: registered_options_update)
qed

text \<open>The draining stop of all subscribers.\<close>

lemma stop_snapshot_mail:
  assumes "distinct ps" "\<forall>p \<in> set ps. \<exists>st. rg_heap r p = Some st \<and> mail_ok (callbacks p) elapsed True st (H p)"
  shows "\<exists>r'. stop_snapshot callbacks elapsed True ps r = Some r' \<and> rg_current r' = rg_current r \<and>
    dom (rg_heap r') = dom (rg_heap r) \<and> (\<forall>p. p \<notin> set ps \<longrightarrow> rg_heap r' p = rg_heap r p) \<and>
    (\<forall>p \<in> set ps. \<exists>st st'. rg_heap r p = Some st \<and> rg_heap r' p = Some st' \<and>
       mail_ok (callbacks p) elapsed False st' (H p) \<and> same_kind st st')"
  using assms
proof (induction ps arbitrary: r)
  case (Cons p ps)
  from Cons.prems obtain st where st: "rg_heap r p = Some st" "mail_ok (callbacks p) elapsed True st (H p)" by auto
  from stop_delivery_mail [OF st(2)] obtain st' where st': "stop_delivery (callbacks p) elapsed False True st = Some st'"
    "mail_ok (callbacks p) elapsed False st' (H p)" "same_kind st st'" by blast
  let ?r1 = "r\<lparr>rg_heap := (rg_heap r)(p \<mapsto> st')\<rparr>"
  have "\<forall>q \<in> set ps. \<exists>st. rg_heap ?r1 q = Some st \<and> mail_ok (callbacks q) elapsed True st (H q)" using Cons.prems by auto
  moreover have "distinct ps" using Cons.prems(1) by simp
  ultimately obtain r' where r': "stop_snapshot callbacks elapsed True ps ?r1 = Some r'"
    "rg_current r' = rg_current ?r1" "dom (rg_heap r') = dom (rg_heap ?r1)" "\<forall>q. q \<notin> set ps \<longrightarrow> rg_heap r' q = rg_heap ?r1 q"
    "\<forall>q \<in> set ps. \<exists>st st'. rg_heap ?r1 q = Some st \<and> rg_heap r' q = Some st' \<and>
       mail_ok (callbacks q) elapsed False st' (H q) \<and> same_kind st st'" using Cons.IH [of ?r1] by blast
  have dom: "dom (rg_heap ?r1) = dom (rg_heap r)" using st(1) by auto
  show ?case
    using r' st st' Cons.prems(1) dom by (intro exI [of _ r']) (auto, metis)
qed (simp)

lemma rg_stop_mailing:
  assumes "mailing_ok callbacks elapsed n True s" "all_exited s" "sy_workers s' = sy_workers s" "sy_popped_log s' = sy_popped_log s"
    "rg_stop_delivery callbacks elapsed True (d_subscribers (sy_d s)) = Some (d_subscribers (sy_d s'))"
  shows "mailing_ok callbacks elapsed n False s' \<and>
    registered_options (d_subscribers (sy_d s')) = registered_options (d_subscribers (sy_d s))"
proof -
  let ?r = "d_subscribers (sy_d s)" and ?r' = "d_subscribers (sy_d s')"
  from assms(1) have ok: "distinct (rg_current ?r)" "dom (rg_heap ?r) = set (rg_current ?r)"
    "list_all (snapshot_ok (rg_current ?r)) (sy_workers s)"
    "\<forall>p \<in> set (rg_current ?r). settled callbacks elapsed n True s p" by (simp_all add: mailing_ok_def Let_def)
  then have "\<forall>p \<in> set (rg_current ?r). \<exists>H. \<exists>st. rg_heap ?r p = Some st \<and> mail_ok (callbacks p) elapsed True st H \<and>
      mailbox_fits n (ss_options st) \<and>
      H + gather (owed (handing p) (rg_current ?r)) (sy_workers s) = mset (sy_popped_log s)"
    unfolding settled_def Let_def by blast
  then obtain H where H: "\<forall>p \<in> set (rg_current ?r). \<exists>st. rg_heap ?r p = Some st \<and> mail_ok (callbacks p) elapsed True st (H p) \<and>
      mailbox_fits n (ss_options st) \<and>
      H p + gather (owed (handing p) (rg_current ?r)) (sy_workers s) = mset (sy_popped_log s)"
    unfolding bchoice_iff by blast
  then have "\<forall>p \<in> set (rg_current ?r). \<exists>st. rg_heap ?r p = Some st \<and> mail_ok (callbacks p) elapsed True st (H p)" by blast
  from stop_snapshot_mail [OF ok(1) this] assms(5)
  have r': "rg_current ?r' = rg_current ?r" "dom (rg_heap ?r') = dom (rg_heap ?r)"
    "\<forall>p \<in> set (rg_current ?r). \<exists>st st'. rg_heap ?r p = Some st \<and> rg_heap ?r' p = Some st' \<and>
       mail_ok (callbacks p) elapsed False st' (H p) \<and> same_kind st st'"
    by (auto simp: rg_stop_delivery_def acquire_snapshot_def)
  have "settled callbacks elapsed n False s' p" if "p \<in> set (rg_current ?r)" for p
    using bspec [OF H that] bspec [OF r'(3) that]
    by (fastforce simp: settled_def Let_def assms(3,4) r'(1) same_kind_def)
  moreover have "registered_options ?r' = registered_options ?r"
    using r'(1,3) by (fastforce simp: registered_options_def same_kind_def)
  ultimately show ?thesis using ok assms(2,3) r' by (simp add: mailing_ok_def Let_def all_exited_def)
qed

text \<open>The mailboxes are open until the joined shutdown has drained them.\<close>

definition shutdown_phase :: "bool \<Rightarrow> shutdown_pc \<Rightarrow> bool" where
  "shutdown_phase opened pc = (if opened then pc \<in> {Sd_idle, Sd_closing drain, Sd_joining drain, Sd_joined drain}
     else pc \<in> {Sd_storing drain, Sd_returned})"

lemma shutdown_move_mailing:
  assumes move: "shutdown_move P callbacks elapsed s = Some s'" and ok: "mailing_ok callbacks elapsed n opened s"
    and sd: "sy_shutdowns s = [pc]" "shutdown_phase opened pc"
    and policy: "d_shutdown_policy (sy_d s) = drain" "pc = Sd_idle \<Longrightarrow> d_lifecycle (sy_d s) = running"
    and exited: "pc = Sd_joined drain \<Longrightarrow> all_exited s"
  shows "\<exists>opened'. mailing_ok callbacks elapsed n opened' s' \<and> shutdown_phase opened' (sy_shutdowns s' ! 0) \<and>
    registered_options (d_subscribers (sy_d s')) = registered_options (d_subscribers (sy_d s))"
proof (cases "pc = Sd_joined drain")
  case True
  then have o: opened using sd(2) by (simp add: shutdown_phase_def split: if_splits)
  from move True sd(1) obtain r' where r': "rg_stop_delivery callbacks elapsed True (d_subscribers (sy_d s)) = Some r'"
    "s' = s\<lparr>sy_d := (sy_d s)\<lparr>d_subscribers := r'\<rparr>, sy_shutdowns := [Sd_storing drain]\<rparr>"
    by (auto simp: shutdown_move_def Let_def)
  have "mailing_ok callbacks elapsed n False s' \<and>
      registered_options (d_subscribers (sy_d s')) = registered_options (d_subscribers (sy_d s))"
    using ok o r'(1) by (intro rg_stop_mailing exited True) (simp_all add: r'(2))
  then show ?thesis by (auto simp: r'(2) shutdown_phase_def)
next
  case False
  with move sd policy have s': "d_subscribers (sy_d s') = d_subscribers (sy_d s)" "sy_workers s' = sy_workers s"
    "sy_popped_log s' = sy_popped_log s" "shutdown_phase opened (sy_shutdowns s' ! 0)"
    unfolding shutdown_move_def Let_def shutdown_phase_def
    by (auto simp: shutdown_begin_def is_worker_thread_def callback_active_on_this_thread_def
        split: option.splits sum.splits if_splits)
  with mailing_frame [OF ok s'(1-3)] show ?thesis by auto
qed

text \<open>A new subscriber, while no event is on its way.\<close>

lemma new_subscriber_mail:
  assumes "ss_new True addr ident options tag = Inr st"
  shows "mail_ok callback elapsed True (start_executor st) {#}" "ss_options (start_executor st) = options"
  using assms
  by (auto simp: ss_new_def start_executor_def mail_ok_def mail_mode_def counted_def metrics_after_def zero_metrics_def split: if_splits)

lemma subscribe_mailing:
  assumes "dispatcher_subscribe True True options addr (sy_d s) = (Inr p, d')" "mailbox_fits n options"
    "rg_heap (d_subscribers (sy_d s)) addr = None" "mailing_ok callbacks elapsed n True s"
    "list_all ((=) W_waiting) (sy_workers s)" "sy_popped_log s = []"
  shows "mailing_ok callbacks elapsed n True (s\<lparr>sy_d := d'\<rparr>) \<and>
    registered_options (d_subscribers d') = registered_options (d_subscribers (sy_d s)) @ [Some options]"
proof -
  let ?r = "d_subscribers (sy_d s)" and ?n = "rg_next_id (d_subscribers (sy_d s))"
  from assms(4) have ok: "distinct (rg_current ?r)" "dom (rg_heap ?r) = set (rg_current ?r)"
    "\<forall>q \<in> set (rg_current ?r). settled callbacks elapsed n True s q" by (simp_all add: mailing_ok_def Let_def)
  have nil: "gather (owed g ps) (sy_workers s) = {#}" for g :: "nat list \<Rightarrow> 'a \<Rightarrow> 'x list" and ps
    using assms(5) by (auto simp: gather_def list_all_iff)
  have snap: "list_all (snapshot_ok ps) (sy_workers s)" for ps using assms(5) by (auto simp: list_all_iff)
  have old: "\<exists>st. rg_heap ?r q = Some st \<and> mail_ok (callbacks q) elapsed True st {#} \<and> mailbox_fits n (ss_options st)"
    if "q \<in> set (rg_current ?r)" for q
    using bspec [OF ok(3) that] by (auto simp: settled_def Let_def nil assms(6))
  then have "\<forall>q \<in> set (rg_current ?r). subscribed_at (?r\<lparr>rg_next_id := ?n + 1\<rparr>) q"
    by (fastforce simp: subscribed_at_def mail_ok_def counted_def)
  then have same: "filter (subscribed_at (?r\<lparr>rg_next_id := ?n + 1\<rparr>)) (rg_current ?r) = rg_current ?r" by (simp add: filter_id_conv)
  from assms(1) obtain st where st: "ss_new True addr ?n options (rg_this ?r) = Inr st"
    and d': "d' = (sy_d s)\<lparr>d_subscribers := ?r\<lparr>rg_next_id := ?n + 1, rg_heap := (rg_heap ?r)(addr \<mapsto> start_executor st),
      rg_current := filter (subscribed_at (?r\<lparr>rg_next_id := ?n + 1\<rparr>)) (rg_current ?r) @ [addr]\<rparr>\<rparr>"
    by (auto simp: dispatcher_subscribe_def rg_subscribe_def core_subscribe_def allocate_id_def Let_def
        split: if_splits sum.splits prod.splits)
  have addr: "addr \<notin> set (rg_current ?r)" using assms(3) ok(2) by auto
  have "settled callbacks elapsed n True (s\<lparr>sy_d := d'\<rparr>) q" if "q \<in> set (rg_current ?r @ [addr])" for q
    using that old [of q] new_subscriber_mail [OF st] addr assms(2)
    by (cases "q = addr") (auto simp: settled_def Let_def nil assms(6) d')
  moreover have "registered_options (d_subscribers d') = registered_options ?r @ [Some options]"
    using addr new_subscriber_mail(2) [OF st] by (auto simp: registered_options_def d' same)
  ultimately show ?thesis using ok(1,2) addr snap by (simp add: mailing_ok_def Let_def d' same)
qed

fun options_of :: "'e main_command list \<Rightarrow> subscription_options list" where
  "options_of [] = []"
| "options_of (Subscribe_call options # cs) = options # options_of cs"
| "options_of (_ # cs) = options_of cs"

lemma publisher_extra: "publisher_fits room todo pc extra \<Longrightarrow> length extra \<le> length (published todo)"
  by (cases "(room, todo, pc, extra)" rule: publisher_fits.cases) auto

section \<open>The whole program\<close>

context dispatcher_threads
begin

lemma popped_bound:
  assumes "main_at config commands m s pc sd pre extra" "dispatch_reachable P s"
  shows "length (sy_popped_log s) \<le> length (published commands)"
proof -
  from assms(1) have at: "pre @ mt_todo m = commands" "list_all2 status_fits (published pre) (mt_statuses m)"
    "publisher_fits (roomy config commands) (mt_todo m) pc extra"
    "sy_accepted_log s = sent (published pre) (mt_statuses m) @ extra" by (simp_all add: main_at_def)
  have "length (sent (published pre) (mt_statuses m)) \<le> length (published pre)"
    using sent_length [OF list_all2_lengthD [OF at(2)]] list_all2_lengthD [OF at(2)] by simp
  then have "length (sy_accepted_log s) \<le> length (published commands)"
    using publisher_extra [OF at(3)] at(1,4) by auto
  then show ?thesis using conservation(1) [OF assms(2)] by auto
qed

definition program_mailing ::
  "'e callbacks \<Rightarrow> int \<Rightarrow> 'e main_command list \<Rightarrow> 'e main_thread \<times> ('e, 'q) dispatch_system \<Rightarrow> bool" where
  "program_mailing callbacks elapsed commands c = (\<exists>opened.
     mailing_ok callbacks elapsed (length (published commands)) opened (snd c) \<and>
     shutdown_phase opened (sy_shutdowns (snd c) ! 0) \<and>
     registered_options (d_subscribers (sy_d (snd c))) @ map Some (options_of (mt_todo (fst c))) = map Some (options_of commands))"

lemma program_mailingE:
  assumes "program_mailing callbacks elapsed commands (m, s)"
  obtains opened where "mailing_ok callbacks elapsed (length (published commands)) opened s"
    "shutdown_phase opened (sy_shutdowns s ! 0)"
    "registered_options (d_subscribers (sy_d s)) @ map Some (options_of (mt_todo m)) = map Some (options_of commands)"
  using assms by (auto simp: program_mailing_def)

lemma main_move_mailing:
  assumes ok: "main_at config commands m s pc sd pre extra" and exit: "mt_exit m = 0" "mt_exit m' = 0"
    and shape: "program_shape commands" "subscribes_first (mailbox_fits (length (published commands))) commands"
    and policy: "dc_shutdown config = drain" and reach: "dispatch_reachable P s"
    and mail: "program_mailing callbacks elapsed commands (m, s)" and fresh: "rg_heap (d_subscribers (sy_d s)) addr = None"
    and move: "main_move P callbacks elapsed expired addr (m, s) = Some (m', s')"
  shows "program_mailing callbacks elapsed commands (m', s')"
proof -
  from mail obtain opened where o: "mailing_ok callbacks elapsed (length (published commands)) opened s"
    "shutdown_phase opened (sy_shutdowns s ! 0)"
    "registered_options (d_subscribers (sy_d s)) @ map Some (options_of (mt_todo m)) = map Some (options_of commands)"
    by (rule program_mailingE)
  obtain c todo where todo: "mt_todo m = c # todo" using move by (cases "mt_todo m") (auto simp: main_move_def)
  have sd: "sy_shutdowns s = [sd]" "d_shutdown_policy (sy_d s) = drain" "sd = Sd_idle \<Longrightarrow> d_lifecycle (sy_d s) = running"
    "sd \<noteq> Sd_idle \<Longrightarrow> mt_todo m = [Shutdown_call]" using ok policy todo by (auto simp: main_at_def)
  show ?thesis
  proof (cases c)
    case (Subscribe_call options)
    with move todo obtain p d' where d': "dispatcher_subscribe True True options addr (sy_d s) = (Inr p, d')"
      "s' = s\<lparr>sy_d := d'\<rparr>" "m' = m\<lparr>mt_todo := todo\<rparr>" by (auto simp: main_move_def split: prod.splits sum.splits)
    note first = subscribing [OF ok shape(2) todo [unfolded Subscribe_call] reach]
    have opened using o(2) sd(1,4) todo Subscribe_call by (auto simp: shutdown_phase_def split: if_splits)
    with subscribe_mailing [OF d'(1) first(1) fresh _ first(2,3)] o d'(2,3) todo Subscribe_call show ?thesis
      by (auto simp: program_mailing_def intro!: exI [of _ True])
  next
    case (Publish_call kind e)
    with move todo obtain res where res: "publish_move P expired kind e s = Some (res, s')"
      "mt_todo m' = mt_todo m \<or> mt_todo m' = todo" by (auto simp: main_move_def split: option.splits)
    note r = publish_move_registry [OF res(1)]
    have "sy_shutdowns s' = sy_shutdowns s"
      using res(1) by (auto simp: publish_move_def split: publisher_pc.splits option.splits sum.splits if_splits)
    with mailing_frame [OF o(1) r(1-3)] o r(1) res(2) todo Publish_call show ?thesis
      by (auto simp: program_mailing_def)
  next
    case (Return_unless_success code)
    have "code \<noteq> 0" using return_after_publish [OF shape(1), of pre code todo] ok todo Return_unless_success
      by (simp add: main_at_def)
    with move todo Return_unless_success exit o show ?thesis
      by (auto simp: main_move_def program_mailing_def split: if_splits)
  next
    case Shutdown_call
    with move todo consider "mt_todo m' = todo" "s' = s"
      | "mt_todo m' = mt_todo m" "shutdown_move P callbacks elapsed s = Some s'" by (auto simp: main_move_def split: if_splits)
    then show ?thesis
    proof cases
      case 1
      with o todo Shutdown_call show ?thesis by (auto simp: program_mailing_def)
    next
      case 2
      have exited: "all_exited s" if "sd = Sd_joined drain"
        using dispatch_reachable_inv [OF reach] sd(1) that
        by (simp add: dispatch_inv_def joined_def list_ex_iff past_join_def)
      have "shutdown_phase opened sd" using o(2) sd(1) by simp
      from shutdown_move_mailing [OF 2(2) o(1) sd(1) this sd(2,3) exited] 2(1) o(3) show ?thesis
        by (auto simp: program_mailing_def)
    qed
  qed
qed

lemma program_reached_mailing:
  assumes "program_reached P callbacks elapsed config commands c" "program_shape commands"
    "subscribes_first (mailbox_fits (length (published commands))) commands" "dc_shutdown config = drain" "mt_exit (fst c) = 0"
  shows "program_mailing callbacks elapsed commands c"
  using assms
proof (induction rule: program_reached.induct)
  case (start registry_this pool_this d)
  have "d_subscribers d = rg_new registry_this"
    using start(1) by (auto simp: dispatcher_new_def make_state_def split: sum.splits prod.splits if_splits)
  then show ?case
    by (auto simp: program_mailing_def mailing_ok_def Let_def dispatch_start_def main_start_def rg_new_def shutdown_phase_def
        registered_options_def list_all_iff intro!: exI [of _ True])
next
  case (step c c')
  obtain m s m' s' where c: "c = (m, s)" "c' = (m', s')" by fastforce
  have exit: "mt_exit m = 0"
  proof (rule ccontr)
    assume e: "mt_exit m \<noteq> 0"
    then have t: "mt_todo m = []"
      using program_reached_ok [OF step.hyps(1) step.prems(1)] by (auto simp: program_ok_def main_ok_def c)
    show False using step.hyps(2)
      by (cases rule: program_step.cases) (use e t step.prems(4) in \<open>auto simp: c main_move_def\<close>)
  qed
  then have mail: "program_mailing callbacks elapsed commands (m, s)" using step by (simp add: c)
  from mail obtain opened where o: "mailing_ok callbacks elapsed (length (published commands)) opened s"
    "shutdown_phase opened (sy_shutdowns s ! 0)"
    "registered_options (d_subscribers (sy_d s)) @ map Some (options_of (mt_todo m)) = map Some (options_of commands)"
    by (rule program_mailingE)
  have ok: "program_ok config commands (m, s)" "program_ok config commands (m', s')"
    using program_reached_ok [OF step.hyps(1) step.prems(1)] program_reached_ok [OF program_reached.step [OF step.hyps] step.prems(1)]
    by (simp_all add: c)
  then obtain pc sd pre extra where at: "main_at config commands m s pc sd pre extra" "dispatch_reachable P s"
    using exit by (auto simp: program_ok_def main_ok_def)
  have bound: "length (sy_popped_log s') \<le> length (published commands)"
    using ok(2) step.prems(4) popped_bound by (auto simp: program_ok_def main_ok_def c)
  have "program_step P callbacks elapsed (m, s) (m', s')" using step.hyps(2) by (simp add: c)
  then have "program_mailing callbacks elapsed commands (m', s')"
  proof (cases rule: program_step.cases)
    case (main expired addr)
    with main_move_mailing [OF at(1) exit _ step.prems(1-3) at(2) mail] step.prems(4) show ?thesis by (simp add: c)
  next
    case (worker t)
    note w = worker_move_frame(2) [OF worker(3)] worker_move_options [OF worker(3)] worker_move_mailing [OF worker(3,2) o(1) bound]
    show ?thesis using w o(2,3) worker(1) by (auto simp: program_mailing_def)
  next
    case (executor p)
    have "sy_shutdowns s' = sy_shutdowns s"
      using executor(2) by (auto simp: executor_move_def Let_def split: option.splits if_splits prod.splits)
    with executor_move_mailing [OF executor(2) o(1)] o(2,3) executor(1) show ?thesis by (auto simp: program_mailing_def)
  qed
  then show ?case by (simp add: c)
qed

lemma program_metrics:
  assumes "program_reached P callbacks elapsed config commands (m, s)" "program_shape commands"
    "subscribes_first (mailbox_fits (length (published commands))) commands" "dc_shutdown config = drain"
    "mt_todo m = []" "mt_exit m = 0"
  shows "list_all2 (\<lambda>p options. \<exists>st. rg_heap (d_subscribers (sy_d s)) p = Some st \<and> ss_options st = options \<and>
        ss_mailbox st = [] \<and> ss_metrics st = metrics_after (throws_on (callbacks p) st) (is_slow elapsed options)
          (length (sy_accepted_log s)) (sy_accepted_log s))
      (acquire_snapshot (d_subscribers (sy_d s))) (options_of commands)"
proof -
  note e = program_end [OF assms(1,2,5,6)]
  note a = after_shutdown [OF e(5,3)]
  have none: "sy_discarded s = 0" using a(6) e(4) assms(4) by simp
  from conservation(1) [OF e(5)] none a(3) have pop: "sy_popped_log s = sy_accepted_log s" by (auto simp: finished_def)
  have nil: "gather (owed g ps) (sy_workers s) = {#}" for g :: "nat list \<Rightarrow> 'e \<Rightarrow> 'x list" and ps
    using a(2) by (auto simp: gather_def all_exited_def list_all_iff)
  have "program_mailing callbacks elapsed commands (m, s)" using program_reached_mailing [OF assms(1-4)] assms(6) by simp
  then obtain opened where o: "mailing_ok callbacks elapsed (length (published commands)) opened s"
    "shutdown_phase opened (sy_shutdowns s ! 0)"
    "registered_options (d_subscribers (sy_d s)) @ map Some (options_of (mt_todo m)) = map Some (options_of commands)"
    by (rule program_mailingE)
  have "length (sy_shutdowns s) = 1"
    using program_reached_ok [OF assms(1,2)] assms(6) by (auto simp: program_ok_def main_ok_def main_at_def)
  with e(3) have "sy_shutdowns s = [Sd_returned]" by (cases "sy_shutdowns s") auto
  with o(2) have shut: "\<not> opened" by (auto simp: shutdown_phase_def split: if_splits)
  have "\<exists>st. rg_heap (d_subscribers (sy_d s)) p = Some st \<and> ss_mailbox st = [] \<and>
      ss_metrics st = metrics_after (throws_on (callbacks p) st) (is_slow elapsed (ss_options st))
        (length (sy_accepted_log s)) (sy_accepted_log s)" if p: "p \<in> set (rg_current (d_subscribers (sy_d s)))" for p
  proof -
    from o(1) p have "settled callbacks elapsed (length (published commands)) opened s p" by (simp add: mailing_ok_def Let_def)
    then obtain st where st: "rg_heap (d_subscribers (sy_d s)) p = Some st"
      "mail_ok (callbacks p) elapsed False st (mset (sy_accepted_log s))"
      using shut by (auto simp: settled_def Let_def nil pop)
    then have box: "ss_mailbox st = []" by (auto simp: mail_ok_def mail_mode_def split: if_splits)
    with st obtain past where past: "counted (callbacks p) elapsed st (length (sy_accepted_log s)) past"
      "mset past = mset (sy_accepted_log s)" by (auto simp: mail_ok_def)
    have "length past = length (sy_accepted_log s)" "length (filter Q past) = length (filter Q (sy_accepted_log s))" for Q
      using past(2) by (metis size_mset, metis mset_filter size_mset)
    then have "metrics_after throws slow k past = metrics_after throws slow k (sy_accepted_log s)" for throws slow k
      by (simp add: metrics_after_def)
    with st(1) box past(1) show ?thesis by (auto simp: counted_def)
  qed
  moreover have "list_all2 (\<lambda>p options. map_option ss_options (rg_heap (d_subscribers (sy_d s)) p) = Some options)
      (rg_current (d_subscribers (sy_d s))) (options_of commands)"
    using o(3) assms(5) unfolding list_all2_map_eq registered_options_def by simp
  ultimately show ?thesis unfolding acquire_snapshot_def by (elim list.rel_mono_strong) fastforce
qed

end

section \<open>Over the mutex queue\<close>

text \<open>Two events for an isolated lossless subscriber with a mailbox of one entry: the worker has to wait for the
  executor.\<close>

definition mail_program :: "nat main_command list" where
  "mail_program = [Subscribe_call \<lparr>so_delivery = isolated, so_guarantee = lossless, so_mailbox_capacity = 1,
     so_slow_callback_threshold = 3\<rparr>, Publish_call Try 7, Publish_call Block 8, Shutdown_call]"

definition mail_schedule :: "program_action list" where
  "mail_schedule = Main_move False 5 # replicate 6 (Main_move False 6) @ replicate 6 (Worker_move 0) @ [Executor_move 5] @
     replicate 6 (Worker_move 0) @ replicate 2 (Main_move False 6) @ [Worker_move 0] @ replicate 4 (Main_move False 6)"

lemma mail_run:
  "\<exists>m s. program_reached mutex_queue_policy small_callbacks 4 small_config mail_program (m, s) \<and> mt_todo m = [] \<and>
     mt_exit m = 0 \<and> acquire_snapshot (d_subscribers (sy_d s)) = [5] \<and> sy_accepted_log s = [7, 8]"
proof -
  have "case run_program mutex_queue_policy small_callbacks 4 small_config mail_program mail_schedule of
      None \<Rightarrow> False
    | Some (m, s) \<Rightarrow> mt_todo m = [] \<and> mt_exit m = 0 \<and> acquire_snapshot (d_subscribers (sy_d s)) = [5] \<and>
        sy_accepted_log s = [7, 8]" by code_simp
  then show ?thesis using run_program_reached [of mutex_queue_policy small_callbacks 4 small_config mail_program mail_schedule]
    by (auto split: option.splits)
qed

text \<open>
  Property C12. What a subscriber's \<open>metrics()\<close> returns at the end of a program that subscribes, publishes and
  shuts down with the drain policy, for every interleaving of \<open>main\<close>, workers and executors, with direct and isolated
  subscribers together, when each isolated one is lossless or has a mailbox for as many events as are published. The subscribers are
  registered in program order with their options; each was offered and delivered every accepted event, its mailbox is empty, nothing was dropped or rejected, its
  callback errors are the accepted events for which its callback throws, and every callback counts as slow
  exactly when a threshold is set and reached.
\<close>

theorem program_subscriber_metrics:
  assumes "program_reached mutex_queue_policy callbacks elapsed config commands (m, s)" "program_shape commands"
    "subscribes_first (mailbox_fits (length (published commands))) commands" "dc_shutdown config = drain"
    "mt_todo m = []" "mt_exit m = 0"
  shows "list_all2 (\<lambda>p options. \<exists>st. rg_heap (d_subscribers (sy_d s)) p = Some st \<and> ss_options st = options \<and>
        ss_mailbox st = [] \<and> ss_metrics st = metrics_after (throws_on (callbacks p) st) (is_slow elapsed options)
          (length (sy_accepted_log s)) (sy_accepted_log s))
      (acquire_snapshot (d_subscribers (sy_d s))) (options_of commands)"
  using mdt.program_metrics [OF assms] .

lemma mail_program_form: "program_shape mail_program"
  "subscribes_first (mailbox_fits (length (published mail_program))) mail_program" "dc_shutdown small_config = drain"
proof -
  let ?options = "\<lparr>so_delivery = isolated, so_guarantee = lossless, so_mailbox_capacity = 1, so_slow_callback_threshold = 3\<rparr>"
  show "subscribes_first (mailbox_fits (length (published mail_program))) mail_program"
    using subscribes_firstI [of "[?options]" "mailbox_fits (Suc (Suc 0))" "tl mail_program"] by (auto simp: mail_program_def mailbox_fits_def)
  show "program_shape mail_program" "dc_shutdown small_config = drain"
    using program_shapeI [of "butlast mail_program"] by (auto simp: mail_program_def small_config_def default_config_def)
qed

theorem program_subscriber_metrics_witness:
  "\<exists>m s st. program_reached mutex_queue_policy small_callbacks 4 small_config mail_program (m, s) \<and>
     rg_heap (d_subscribers (sy_d s)) 5 = Some st \<and> sm_delivered (ss_metrics st) = 2 \<and>
     sm_callback_errors (ss_metrics st) = 1"
proof -
  obtain m s where ms: "program_reached mutex_queue_policy small_callbacks 4 small_config mail_program (m, s)"
    "mt_todo m = []" "mt_exit m = 0" "acquire_snapshot (d_subscribers (sy_d s)) = [5]" "sy_accepted_log s = [7, 8]"
    using mail_run by blast
  from program_subscriber_metrics [OF ms(1) mail_program_form ms(2,3)] ms obtain st slow where
    "rg_heap (d_subscribers (sy_d s)) 5 = Some st"
    "ss_metrics st = metrics_after (throws_on (small_callbacks 5) st) slow 2 [7, 8]"
    by (auto simp: numeral_2_eq_2 mail_program_def)
  then show ?thesis using ms(1) by (intro exI [of _ m] exI [of _ s] exI [of _ st]) (simp add: metrics_after_def small_callbacks_def)
qed

end
