(* ===== verification/Subscription.thy ===== *)
theory Subscription
  imports Registry
begin

text \<open>
  The RAII token \<open>subscription\<close> (\<open>subscription/subscription.hpp\<close>, \<open>subscription/subscription.cpp\<close>) and
  the type-erased interface \<open>subscription_control\<close> it uses.

  The interface is a record of operations on a world \<open>'h\<close> in which control blocks are addressed;
  the token holds an address or nothing. The locale states what a control block promises, the
  lemmas about the token are proved from it, and the registry's subscribers are an interpretation.
\<close>

section \<open>Control blocks and tokens\<close>

record 'h subscription_control =
  sc_unsubscribe :: "nat \<Rightarrow> 'h \<Rightarrow> 'h option"
  sc_subscribed :: "nat \<Rightarrow> 'h \<Rightarrow> bool"
  sc_metrics :: "nat \<Rightarrow> 'h \<Rightarrow> subscription_metrics"

type_synonym subscription = "nat option"

definition token_default :: subscription where
  "token_default = None"

definition token_of :: "nat \<Rightarrow> subscription" where
  "token_of control = Some control"

text \<open>The move constructor leaves its source empty: the new token, then the source.\<close>

definition token_move :: "subscription \<Rightarrow> subscription \<times> subscription" where
  "token_move other = (other, None)"

definition token_reset :: "'h subscription_control \<Rightarrow> subscription \<Rightarrow> 'h \<Rightarrow> (subscription \<times> 'h) option" where
  "token_reset V tok h = (case tok of
       None \<Rightarrow> Some (None, h)
     | Some p \<Rightarrow> (case sc_unsubscribe V p h of None \<Rightarrow> None | Some h' \<Rightarrow> Some (None, h')))"

text \<open>Move assignment, with \<open>same\<close> for \<open>this == &other\<close>: this token, the source, the world.\<close>

definition token_assign ::
  "'h subscription_control \<Rightarrow> bool \<Rightarrow> subscription \<Rightarrow> subscription \<Rightarrow> 'h \<Rightarrow>
   (subscription \<times> subscription \<times> 'h) option" where
  "token_assign V same this other h =
     (if same then Some (this, other, h)
      else (case token_reset V this h of
          None \<Rightarrow> None
        | Some (_, h') \<Rightarrow> Some (other, None, h')))"

definition token_destroy :: "'h subscription_control \<Rightarrow> subscription \<Rightarrow> 'h \<Rightarrow> 'h option" where
  "token_destroy V tok h = map_option snd (token_reset V tok h)"

definition token_subscribed :: "'h subscription_control \<Rightarrow> subscription \<Rightarrow> 'h \<Rightarrow> bool" where
  "token_subscribed V tok h = (case tok of None \<Rightarrow> False | Some p \<Rightarrow> sc_subscribed V p h)"

definition token_metrics :: "'h subscription_control \<Rightarrow> subscription \<Rightarrow> 'h \<Rightarrow> subscription_metrics" where
  "token_metrics V tok h = (case tok of None \<Rightarrow> zero_metrics | Some p \<Rightarrow> sc_metrics V p h)"

section \<open>What a control block promises\<close>

locale control_block =
  fixes V :: "'h subscription_control"
    and valid :: "nat \<Rightarrow> 'h \<Rightarrow> bool"
    and inv :: "'h \<Rightarrow> bool"
  assumes unsubscribe_law: "inv h \<Longrightarrow> valid p h \<Longrightarrow>
      \<exists>h'. sc_unsubscribe V p h = Some h' \<and> inv h' \<and> \<not> sc_subscribed V p h' \<and>
        (\<forall>q. valid q h' = valid q h) \<and>
        (\<forall>q. q \<noteq> p \<longrightarrow> sc_subscribed V q h' = sc_subscribed V q h \<and> sc_metrics V q h' = sc_metrics V q h)"
begin

definition token_valid :: "subscription \<Rightarrow> 'h \<Rightarrow> bool" where
  "token_valid tok h = (case tok of None \<Rightarrow> True | Some p \<Rightarrow> valid p h)"

lemma reset_law:
  assumes "inv h" "token_valid tok h"
  shows "\<exists>h'. token_reset V tok h = Some (None, h') \<and> inv h' \<and> \<not> token_subscribed V tok h' \<and>
    (\<forall>q. Some q \<noteq> tok \<longrightarrow> sc_subscribed V q h' = sc_subscribed V q h \<and> sc_metrics V q h' = sc_metrics V q h) \<and>
    (\<forall>q. valid q h' = valid q h)"
proof (cases tok)
  case None
  with assms show ?thesis by (simp add: token_reset_def token_subscribed_def)
next
  case (Some p)
  with assms(2) have "valid p h" by (simp add: token_valid_def)
  with unsubscribe_law [OF assms(1) this] Some show ?thesis
    by (auto simp: token_reset_def token_subscribed_def)
qed

text \<open>Move assignment retires what the token held before and then owns the source's registration.\<close>

lemma assign_law:
  assumes "inv h" "token_valid this h" "token_valid other h" "this \<noteq> other \<or> this = None"
  shows "\<exists>h'. token_assign V False this other h = Some (other, None, h') \<and> inv h' \<and>
    \<not> token_subscribed V this h' \<and> token_subscribed V other h' = token_subscribed V other h \<and>
    token_metrics V other h' = token_metrics V other h"
proof -
  obtain h' where h': "token_reset V this h = Some (None, h')" "inv h'" "\<not> token_subscribed V this h'"
    "\<forall>q. Some q \<noteq> this \<longrightarrow> sc_subscribed V q h' = sc_subscribed V q h \<and> sc_metrics V q h' = sc_metrics V q h"
    using reset_law [OF assms(1,2)] by auto
  have "token_subscribed V other h' = token_subscribed V other h"
    "token_metrics V other h' = token_metrics V other h"
    using h'(4) assms(4) by (cases other; auto simp: token_subscribed_def token_metrics_def)+
  with h' show ?thesis by (simp add: token_assign_def)
qed

end

section \<open>The registry's subscribers as control blocks\<close>

definition registry_control ::
  "'e callbacks \<Rightarrow> int \<Rightarrow> invocation_context list \<Rightarrow> 'e registry_core subscription_control" where
  "registry_control callbacks elapsed chain = \<lparr>
     sc_unsubscribe = rg_unsubscribe callbacks elapsed chain,
     sc_subscribed = (\<lambda>p r. subscribed_at r p),
     sc_metrics = (\<lambda>p r. case rg_heap r p of None \<Rightarrow> zero_metrics | Some s \<Rightarrow> ss_metrics s)\<rparr>"

definition control_at :: "nat \<Rightarrow> 'e registry_core \<Rightarrow> bool" where
  "control_at p r = (rg_heap r p \<noteq> None)"

interpretation registry_token: control_block "registry_control callbacks elapsed chain" control_at rg_inv
  for callbacks :: "'e callbacks" and elapsed :: int and chain
proof
  fix r :: "'e registry_core" and p :: nat
  assume inv: "rg_inv r" and "control_at p r"
  then obtain s where s: "rg_heap r p = Some s" by (auto simp: control_at_def)
  obtain r' where r': "rg_unsubscribe callbacks elapsed chain p r = Some r'" "rg_inv r'"
    "\<not> subscribed_at r' p" "\<forall>q. q \<noteq> p \<longrightarrow> rg_heap r' q = rg_heap r q" "rg_heap r' p \<noteq> None"
    using rg_unsubscribe_ok [OF inv s, of callbacks elapsed chain] by auto
  have valid: "control_at q r' = control_at q r" for q
    using r'(4,5) s by (cases "q = p") (auto simp: control_at_def)
  have others: "subscribed_at r' q = subscribed_at r q \<and> rg_heap r' q = rg_heap r q" if "q \<noteq> p" for q
    using r'(4) that by (simp add: subscribed_at_def)
  show "\<exists>r'. sc_unsubscribe (registry_control callbacks elapsed chain) p r = Some r' \<and> rg_inv r' \<and>
      \<not> sc_subscribed (registry_control callbacks elapsed chain) p r' \<and>
      (\<forall>q. control_at q r' = control_at q r) \<and>
      (\<forall>q. q \<noteq> p \<longrightarrow> sc_subscribed (registry_control callbacks elapsed chain) q r' =
          sc_subscribed (registry_control callbacks elapsed chain) q r \<and>
        sc_metrics (registry_control callbacks elapsed chain) q r' =
          sc_metrics (registry_control callbacks elapsed chain) q r)"
    using r'(1-3) valid others by (intro exI [of _ r']) (simp add: registry_control_def)
qed

text \<open>
  Property C33. Move assignment of a token: \<open>a = std::move(b)\<close> first ends the registration \<open>a\<close> held and
  then owns the one of \<open>b\<close>, whose subscriber stays exactly as active as it was; \<open>b\<close> is left empty.
  The registry drops exactly the old subscriber of \<open>a\<close> from its list.
\<close>

theorem token_assign_transfers:
  assumes "rg_reachable r" "rg_heap r p = Some s" "rg_heap r q = Some s'" "p \<noteq> q"
  shows "\<exists>r'. token_assign (registry_control callbacks elapsed chain) False (Some p) (Some q) r =
      Some (Some q, None, r') \<and> rg_reachable r' \<and>
    \<not> token_subscribed (registry_control callbacks elapsed chain) (Some p) r' \<and>
    token_subscribed (registry_control callbacks elapsed chain) (Some q) r' = ss_active s' \<and>
    acquire_snapshot r' = filter (\<lambda>x. x \<noteq> p) (acquire_snapshot r)"
proof -
  let ?V = "registry_control callbacks elapsed chain"
  have inv: "rg_inv r" using rg_reachable_inv assms(1) .
  have valid: "registry_token.token_valid (Some p) r" "registry_token.token_valid (Some q) r"
    using assms(2,3) by (simp_all add: registry_token.token_valid_def control_at_def)
  obtain r' where r': "token_assign ?V False (Some p) (Some q) r = Some (Some q, None, r')"
    "\<not> token_subscribed ?V (Some p) r'" "token_subscribed ?V (Some q) r' = token_subscribed ?V (Some q) r"
    using registry_token.assign_law [OF inv valid, of callbacks elapsed chain] assms(4) by auto
  have unsub: "rg_unsubscribe callbacks elapsed chain p r = Some r'"
    using r'(1) by (auto simp: token_assign_def token_reset_def registry_control_def split: option.splits)
  moreover have "rg_current r' = filter (\<lambda>x. x \<noteq> p) (rg_current r)"
    using rg_unsubscribe_ok [OF inv assms(2), of callbacks elapsed chain] unsub by auto
  moreover have "token_subscribed ?V (Some q) r = ss_active s'"
    using assms(3) by (simp add: token_subscribed_def registry_control_def subscribed_at_def)
  ultimately show ?thesis
    using r' rg_reachable.unsubscribed [OF assms(1) unsub] by (simp add: acquire_snapshot_def)
qed

definition registry_two :: "nat registry_core" where
  "registry_two = snd (rg_subscribe True True default_subscription_options 6 registry_one)"

lemma registry_two_ok: "rg_reachable registry_two" "\<exists>s. rg_heap registry_two 5 = Some s"
  "\<exists>s. rg_heap registry_two 6 = Some s" "rg_current registry_two = [5, 6]"
proof -
  show "rg_reachable registry_two"
    unfolding registry_two_def
    by (rule rg_reachable.registered [OF registry_one_ok(1) _ surjective_pairing])
      (simp add: registry_one_def rg_subscribe_def core_subscribe_def allocate_id_def rg_new_def
        ss_new_def default_subscription_options_def Let_def)
  show "\<exists>s. rg_heap registry_two 5 = Some s" "\<exists>s. rg_heap registry_two 6 = Some s"
    "rg_current registry_two = [5, 6]"
    by (simp_all add: registry_two_def registry_one_def rg_subscribe_def core_subscribe_def
        allocate_id_def rg_new_def ss_new_def default_subscription_options_def subscribed_at_def
        start_executor_def Let_def)
qed

theorem token_assign_transfers_witness:
  "\<exists>r'. token_assign (registry_control (\<lambda>_ _ _. None) 0 []) False (Some 5) (Some 6) registry_two =
      Some (Some 6, None, r') \<and> acquire_snapshot r' = [6]"
proof -
  obtain s s' where s: "rg_heap registry_two 5 = Some s" "rg_heap registry_two 6 = Some s'"
    using registry_two_ok(2,3) by blast
  from token_assign_transfers [OF registry_two_ok(1) s, of "\<lambda>_ _ _. None" 0 "[]"] show ?thesis
    using registry_two_ok(4) by (auto simp: acquire_snapshot_def)
qed

text \<open>
  \<open>reset\<close>, and with it the destructor, of a token of a reachable registry returns, leaves
  the token empty and its subscriber inactive; a second \<open>reset\<close> does nothing, and an empty token
  reports zero metrics.
\<close>

lemma token_reset_ends_registration:
  assumes "rg_reachable r" "rg_heap r p = Some s"
  shows "\<exists>r'. token_reset (registry_control callbacks elapsed chain) (Some p) r = Some (None, r') \<and>
    token_destroy (registry_control callbacks elapsed chain) (Some p) r = Some r' \<and>
    \<not> subscribed_at r' p \<and> p \<notin> set (acquire_snapshot r') \<and>
    token_reset (registry_control callbacks elapsed chain) None r' = Some (None, r') \<and>
    token_metrics (registry_control callbacks elapsed chain) None r' = zero_metrics"
proof -
  let ?V = "registry_control callbacks elapsed chain"
  have inv: "rg_inv r" using rg_reachable_inv assms(1) .
  have "registry_token.token_valid (Some p) r"
    using assms(2) by (simp add: registry_token.token_valid_def control_at_def)
  from registry_token.reset_law [OF inv this, of callbacks elapsed chain] obtain r' where
    r': "token_reset ?V (Some p) r = Some (None, r')" "rg_inv r'" "\<not> token_subscribed ?V (Some p) r'"
    by auto
  then have "\<not> subscribed_at r' p" by (simp add: token_subscribed_def registry_control_def)
  moreover from this rg_inv_D(2) [OF r'(2)] have "p \<notin> set (acquire_snapshot r')"
    by (simp add: acquire_snapshot_def)
  ultimately show ?thesis
    using r'(1) by (simp add: token_destroy_def token_reset_def [of _ None] token_metrics_def)
qed

end
