(* ===== verification/Examples.thy ===== *)
theory Examples
  imports Program_Metrics Subscription
begin

text \<open>
  The programs of \<open>src/examples/\<close>. Three of them run in one thread and are functions: \<open>queue_usage\<close>, \<open>registry_usage\<close>
  and \<open>configuration\<close> give the lines they print. The six that use a dispatcher are a configuration and the commands
  of \<open>main\<close>, to be run by \<open>Programs\<close> under every schedule; what \<open>main\<close> prints after the shutdown is a function of the statuses
  and counters it reads. What callbacks print is not part of the state; their executions are visible in the counters.
\<close>

section \<open>Printing\<close>

text \<open>\<open>operator<<\<close> of an unsigned integer: its decimal digits.\<close>

fun show_nat :: "nat \<Rightarrow> string" where
  "show_nat n = (if n < 10 then [''0123456789'' ! n] else show_nat (n div 10) @ [''0123456789'' ! (n mod 10)])"

declare show_nat.simps [simp del]

definition show_word :: "64 word \<Rightarrow> string" where
  "show_word w = show_nat (unat w)"

definition configuration :: "32 word \<Rightarrow> string list" where
  "configuration detected = (let config = hardware_concurrency_defaults detected in
     [''event-dispatcher: workers='' @ show_word (dc_worker_count config) @
      '', worker-batch='' @ show_word (dc_worker_batch_size config) @
      '', queue-capacity='' @ show_word (dc_queue_capacity config)])"

section \<open>A queue alone\<close>

text \<open>The consuming loop; \<open>value()\<close> would throw on an empty result.\<close>

partial_function (option) receive_all ::
  "string bounded_mutex_queue \<Rightarrow> string list \<Rightarrow> (exn + string list) option" where
  "receive_all q out = (case mq_wait_pop q False of
     None \<Rightarrow> None
   | Some (result, _, q') \<Rightarrow>
       if pr_status result = closed then Some (Inr out)
       else (case pop_value result of
         Inl x \<Rightarrow> Some (Inl x)
       | Inr e \<Rightarrow> receive_all q' (out @ [''received: '' @ e])))"

text \<open>The returned code, standard output and standard error; an exception leaves \<open>main\<close>. \<open>moved_from\<close> is
  what a string holds after its contents were moved away.\<close>

definition queue_usage :: "string \<Rightarrow> (exn + nat \<times> string list \<times> string list) option" where
  "queue_usage moved_from = (case mq_new 2 of
     Inl x \<Rightarrow> Some (Inl x)
   | Inr q0 \<Rightarrow> (case mq_try_push q0 (Inr ''connected'') of
       ((Inl x, _), _, _) \<Rightarrow> Some (Inl x)
     | ((Inr st1, _), _, q1) \<Rightarrow>
         if st1 \<noteq> success then Some (Inr (1, [], [''unexpected publication failure'']))
         else (case mq_try_push q1 (Inr ''data-ready'') of
             ((Inl x, _), _, _) \<Rightarrow> Some (Inl x)
           | ((Inr st2, _), _, q2) \<Rightarrow>
               if st2 \<noteq> success then Some (Inr (1, [], [''unexpected publication failure'']))
               else (case mq_try_push q2 (Inr ''retry-later'') of
                   ((Inl x, _), _, _) \<Rightarrow> Some (Inl x)
                 | ((Inr st3, consumed), _, q3) \<Rightarrow>
                     (let retryable = (if consumed then moved_from else ''retry-later'');
                          out = (if st3 = full then [''queue full; retained event: '' @ retryable] else []);
                          q4 = snd (mq_close q3)
                      in map_option (map_sum id (\<lambda>lines. (0, lines, []))) (receive_all q4 out))))))"

section \<open>A registry alone\<close>

text \<open>
  Offering one event along a snapshot. The callback prints the event whenever it is entered, which for this
  subscriber is when \<open>try_invoke\<close> returns true; \<open>report_skipped\<close> is the second loop, which prints a line for false.
\<close>

fun offer_each ::
  "bool \<Rightarrow> string \<Rightarrow> nat list \<Rightarrow> string list \<times> string registry_core \<Rightarrow> (exn + string list \<times> string registry_core) option" where
  "offer_each report_skipped event [] w = Some (Inr w)"
| "offer_each report_skipped event (p # ps) (out, r) =
     (case deliver_to True (\<lambda>_ _ _. None) 0 [] event (Inr event) p r of
        None \<Rightarrow> None
      | Some (Inl x, r') \<Rightarrow> Some (Inl x)
      | Some (Inr taken, r') \<Rightarrow> offer_each report_skipped event ps
          (out @ (if taken then [''subscriber received: '' @ event]
                  else if report_skipped then [''old snapshot safely skipped inactive subscriber''] else []), r'))"

text \<open>\<open>this\<close> and \<open>addr\<close> are the addresses of the registry and of its subscriber.\<close>

definition registry_usage :: "nat \<Rightarrow> nat \<Rightarrow> (exn + string list \<times> string registry_core) option" where
  "registry_usage this addr = (case rg_subscribe True True default_subscription_options addr (rg_new this) of
     (Inl x, _) \<Rightarrow> Some (Inl x)
   | (Inr p, r1) \<Rightarrow> (let subscription = token_of p; old_snapshot = acquire_snapshot r1 in
       case offer_each False ''connected'' old_snapshot ([], r1) of
         None \<Rightarrow> None
       | Some (Inl x) \<Rightarrow> Some (Inl x)
       | Some (Inr (out, r2)) \<Rightarrow> (case token_reset (registry_control (\<lambda>_ _ _. None) 0 []) subscription r2 of
             None \<Rightarrow> None
           | Some (_, r3) \<Rightarrow> offer_each True ''must-not-run'' old_snapshot (out, r3))))"

section \<open>Programs with a dispatcher\<close>

type_synonym 'e program = "dispatcher_config \<times> 'e main_command list"

definition dispatcher_usage :: "int program" where
  "dispatcher_usage = (default_config\<lparr>dc_queue_capacity := 256, dc_worker_count := 2\<rparr>,
     [Subscribe_call default_subscription_options, Subscribe_call default_subscription_options,
      Publish_call Block 42, Return_unless_success 1, Shutdown_call])"

definition error_handling :: "int program" where
  "error_handling = (default_config,
     [Subscribe_call default_subscription_options, Subscribe_call default_subscription_options,
      Publish_call Block 7, Shutdown_call])"

text \<open>The callbacks of the two subscribers, and the handler, which prints \<open>what()\<close> of a \<open>std::exception\<close>; anything
  else leaves the handler. \<open>bad_access\<close> is the library's own message.\<close>

definition error_handling_callbacks :: "nat \<Rightarrow> int callbacks" where
  "error_handling_callbacks failing = (\<lambda>p _ _.
     if p = failing then Some (Runtime_error ''subscriber could not process event'') else None)"

fun what_of :: "string \<Rightarrow> exn \<Rightarrow> string option" where
  "what_of bad_access (Invalid_argument w) = Some w"
| "what_of bad_access (Logic_error w) = Some w"
| "what_of bad_access (Overflow_error w) = Some w"
| "what_of bad_access (Runtime_error w) = Some w"
| "what_of bad_access Bad_optional_access = Some bad_access"
| "what_of bad_access (User_exception n) = None"

definition error_handling_handler :: "string \<Rightarrow> exn \<Rightarrow> string list \<Rightarrow> exn option \<times> string list" where
  "error_handling_handler bad_access error err = (case what_of bad_access error of
     None \<Rightarrow> (Some error, err)
   | Some w \<Rightarrow> (None, err @ [''callback error: '' @ w]))"

definition lifecycle_usage :: "int program" where
  "lifecycle_usage = (default_config\<lparr>dc_queue_capacity := 64, dc_worker_count := 1, dc_shutdown := drain\<rparr>,
     [Subscribe_call default_subscription_options, Publish_call Try 1, Publish_call Block 2, Publish_call Timed 3,
      Shutdown_call])"

definition lifecycle_report :: "dispatcher_metrics \<Rightarrow> string" where
  "lifecycle_report metrics = ''accepted='' @ show_word (dm_accepted metrics) @ '', rejected='' @
     show_word (dm_rejected metrics) @ '', dropped='' @ show_word (dm_dropped metrics)"

definition object_subscriber :: "string program" where
  "object_subscriber = (default_config,
     [Subscribe_call default_subscription_options, Publish_call Block ''connected'', Shutdown_call])"

definition isolated_subscriber :: "int program" where
  "isolated_subscriber = (default_config,
     Subscribe_call \<lparr>so_delivery = isolated, so_guarantee = best_effort, so_mailbox_capacity = 16,
       so_slow_callback_threshold = 5000000\<rparr> #
     map (Publish_call Block) [1, 2, 3, 4, 5] @ [Shutdown_call])"

definition isolated_report :: "subscription_metrics \<Rightarrow> string" where
  "isolated_report metrics = ''delivered='' @ show_word (sm_delivered metrics) @ '', dropped='' @
     show_word (sm_dropped metrics) @ '', slow='' @ show_word (sm_slow_callbacks metrics)"

definition backpressure :: "nat program" where
  "backpressure = (default_config\<lparr>dc_queue_capacity := 1\<rparr>,
     Subscribe_call default_subscription_options # map (Publish_call Timed) [0..<10] @ [Shutdown_call])"

definition backpressure_output :: "queue_status list \<Rightarrow> dispatcher_metrics \<Rightarrow> string list" where
  "backpressure_output statuses counters =
     map (\<lambda>(event, _). ''timed out publishing '' @ show_nat event)
       (filter (\<lambda>(event, result). result = timeout) (zip [0..<10] statuses)) @
     [''accepted='' @ show_word (dm_accepted counters) @ '', rejected='' @ show_word (dm_rejected counters)]"

section \<open>What they do\<close>

lemma receive_all_closed:
  assumes "mq_inv q" "mq_closed q"
  shows "receive_all q out = Some (Inr (out @ map ((@) ''received: '') (mq_items q)))"
  using assms
proof (induction "mq_items q" arbitrary: q out)
  case Nil
  then have "mq_size q = 0" by (metis length_mq_items list.size(3) unat_eq_0)
  with Nil show ?case by (simp add: receive_all.simps mq_wait_pop_def cv_wait_def)
next
  case (Cons e es)
  have "map_option (\<lambda>(p, ns, q'). (p, mq_abs q')) (mq_wait_pop q False) = Some (pop_success e, (mq_abs q)\<lparr>aq_items := es\<rparr>)"
    using mq_wait_pop_ref(1) [OF Cons.prems(1), of False] Cons.hyps(2) [symmetric]
    by (simp add: spec_wait_pop_def mq_abs_def)
  then obtain ns q' where q': "mq_wait_pop q False = Some (pop_success e, ns, q')" "mq_abs q' = (mq_abs q)\<lparr>aq_items := es\<rparr>"
    by auto
  then have "mq_inv q'" "mq_closed q'" "mq_items q' = es"
    using mq_wait_pop_ref(2) [OF Cons.prems(1) q'(1)] Cons.prems(2) by (simp_all add: mq_abs_def)
  with Cons.hyps(1) [of q' "out @ [''received: '' @ e]"] q'(1) Cons.hyps(2) [symmetric] show ?case
    by (simp add: receive_all.simps [of q])
qed

text \<open>
  \<open>queue_usage\<close> returns 0 and prints exactly its three lines: a full queue refuses the third event and leaves it
  with the caller, whatever a moved-from string would hold, and after \<open>close\<close> the accepted events come out in order until
  the queue reports \<open>closed\<close>.
\<close>

lemma queue_usage_output:
  "queue_usage moved_from = Some (Inr (0, [''queue full; retained event: retry-later'', ''received: connected'',
     ''received: data-ready''], []))"
proof -
  let ?q = "\<lparr>mq_slots = [Some ''connected'', Some ''data-ready''], mq_head = 0, mq_tail = 0, mq_size = 2, mq_closed = True\<rparr>"
  have "mq_inv ?q" by (auto simp: mq_inv_def less_2_cases_iff)
  moreover have "mq_items ?q = [''connected'', ''data-ready'']"
    by (simp add: mq_items_def ring_window_def upt_rec)
  ultimately have "receive_all ?q out = Some (Inr (out @ [''received: connected'', ''received: data-ready'']))" for out
    using receive_all_closed [of ?q out] by simp
  then show ?thesis
    by (simp add: queue_usage_def mq_new_def mq_try_push_def mq_slots_size_def mq_push_and_notify_def mq_push_locked_def
        mq_increment_def mq_close_def replicate_two)
qed

text \<open>
  \<open>registry_usage\<close>, for any addresses: the first event reaches the callback; after \<open>reset()\<close> the old snapshot
  still names the subscriber, \<open>try_invoke\<close> refuses the second event and the callback is not entered again, and the
  registry is empty.
\<close>

lemma registry_usage_output:
  "\<exists>r. registry_usage this addr = Some (Inr ([''subscriber received: connected'',
      ''old snapshot safely skipped inactive subscriber''], r)) \<and>
    acquire_snapshot r = [] \<and> delivered_at r addr = 1 \<and> offered_at r addr = 2"
  by (simp add: registry_usage_def rg_subscribe_def core_subscribe_def allocate_id_def rg_new_def ss_new_def
      default_subscription_options_def start_executor_def acquire_snapshot_def deliver_to_def try_invoke_def
      begin_invocation_def execute_callback_def invoke_callback_def finish_section_def finish_counters_def count_defs
      token_of_def token_reset_def registry_control_def rg_unsubscribe_def unsubscribe_section_def stop_delivery_def
      await_idle_def retire_def id_at_def subscribed_at_def delivered_at_def offered_at_def zero_metrics_def Let_def)

text \<open>The shape of the dispatcher programs.\<close>

lemmas example_program_defs = dispatcher_usage_def error_handling_def lifecycle_usage_def object_subscriber_def
  isolated_subscriber_def backpressure_def

lemma example_shapes:
  "program_shape (snd dispatcher_usage)" "program_shape (snd error_handling)" "program_shape (snd lifecycle_usage)"
  "program_shape (snd object_subscriber)" "program_shape (snd isolated_subscriber)" "program_shape (snd backpressure)"
proof -
  show "program_shape (snd dispatcher_usage)"
    unfolding program_shape_def
    by (intro exI [of _ "butlast (snd dispatcher_usage)"]) (auto simp: dispatcher_usage_def Cons_eq_append_conv)
  show "program_shape (snd error_handling)" "program_shape (snd lifecycle_usage)" "program_shape (snd object_subscriber)"
    "program_shape (snd isolated_subscriber)" "program_shape (snd backpressure)"
    using program_shapeI [of "butlast (snd error_handling)"] program_shapeI [of "butlast (snd lifecycle_usage)"]
      program_shapeI [of "butlast (snd object_subscriber)"] program_shapeI [of "butlast (snd isolated_subscriber)"]
      program_shapeI [of "butlast (snd backpressure)"]
    by (auto simp: example_program_defs butlast_append)
qed

lemma example_direct:
  "direct_program (snd dispatcher_usage)" "direct_program (snd error_handling)" "direct_program (snd lifecycle_usage)"
  "direct_program (snd object_subscriber)" "direct_program (snd backpressure)"
  using subscribes_firstI [of "[default_subscription_options, default_subscription_options]" "\<lambda>options. so_delivery options \<noteq> isolated" "drop 2 (snd dispatcher_usage)"]
    subscribes_firstI [of "[default_subscription_options, default_subscription_options]" "\<lambda>options. so_delivery options \<noteq> isolated" "drop 2 (snd error_handling)"]
    subscribes_firstI [of "[default_subscription_options]" "\<lambda>options. so_delivery options \<noteq> isolated" "tl (snd lifecycle_usage)"]
    subscribes_firstI [of "[default_subscription_options]" "\<lambda>options. so_delivery options \<noteq> isolated" "tl (snd object_subscriber)"]
    subscribes_firstI [of "[default_subscription_options]" "\<lambda>options. so_delivery options \<noteq> isolated" "tl (snd backpressure)"]
  by (auto simp: example_program_defs default_subscription_options_def)

lemma published_map:
  "published (map (Publish_call kind) es @ cs) = map (Pair kind) es @ published cs"
  by (induction es) simp_all

lemma example_roomy:
  "roomy (fst dispatcher_usage) (snd dispatcher_usage)" "roomy (fst error_handling) (snd error_handling)"
  "roomy (fst lifecycle_usage) (snd lifecycle_usage)" "roomy (fst object_subscriber) (snd object_subscriber)"
  "roomy (fst isolated_subscriber) (snd isolated_subscriber)"
  by (simp_all add: example_program_defs roomy_def default_config_def)

lemma roomy_exit:
  assumes "program_reached mutex_queue_policy callbacks elapsed config commands (m, s)" "program_shape commands"
    "roomy config commands"
  shows "mt_exit m = 0"
  using mdt.program_reached_ok [OF assms(1,2)] assms(3) by (auto simp: mdt.program_ok_def main_ok_def split: if_splits)

text \<open>
  \<open>lifecycle_usage\<close> under every schedule: when \<open>main\<close> has shut the dispatcher down, the three publications have
  succeeded, the worker has broadcast 1, 2, 3 in this order, the subscriber was delivered three events, and the
  report reads \<open>accepted=3, rejected=0, dropped=0\<close>.
\<close>

lemma lifecycle_usage_result:
  assumes "program_reached mutex_queue_policy callbacks elapsed (fst lifecycle_usage) (snd lifecycle_usage) (m, s)"
    "mt_todo m = []"
  shows "mt_statuses m = [success, success, success] \<and> sy_broadcast_log s = [1, 2, 3] \<and>
    (\<exists>p. acquire_snapshot (d_subscribers (sy_d s)) = [p] \<and> delivered_at (d_subscribers (sy_d s)) p = 3) \<and>
    lifecycle_report (d_metrics (sy_d s)) = ''accepted=3, rejected=0, dropped=0''"
proof -
  have exit0: "mt_exit m = 0" using roomy_exit [OF assms(1)] example_shapes example_roomy by blast
  have cfg: "dc_shutdown (fst lifecycle_usage) = drain" "dc_worker_count (fst lifecycle_usage) = 1"
    "published (snd lifecycle_usage) = [(Try, 1), (Block, 2), (Timed, 3)]" "subscriptions (snd lifecycle_usage) = 1"
    by (simp_all add: lifecycle_usage_def default_config_def)
  note o = mdt.program_drained [OF assms(1) example_shapes(3) cfg(1) assms(2) exit0]
  note d = mdt.program_delivered [OF assms(1) example_shapes(3) example_direct(3) cfg(1) assms(2) exit0]
  have st: "mt_statuses m = [success, success, success]" using o example_roomy(3) cfg(3) by (simp add: numeral_3_eq_3)
  then have log: "sy_accepted_log s = [1, 2, 3]" "sy_broadcast_log s = [1, 2, 3]" using o cfg by simp_all
  obtain p where p: "acquire_snapshot (d_subscribers (sy_d s)) = [p]" using d cfg(4) by (auto simp: length_Suc_conv)
  have "lifecycle_report (d_metrics (sy_d s)) = ''accepted=3, rejected=0, dropped=0''"
    using o st by (simp add: lifecycle_report_def show_word_def show_nat.simps)
  then show ?thesis using st log p d by simp
qed

text \<open>
  Property C35. \<open>error_handling\<close> under every schedule: the subscriber that throws does not keep the other one from its
  event. Both were delivered the event once, the handler got exactly the one exception, and it prints the one line.
  It holds for every draining configuration with room for the event, such as the default one.
\<close>

theorem error_handling_result:
  assumes "program_reached mutex_queue_policy (error_handling_callbacks failing) elapsed config
      (snd error_handling) (m, s)" "mt_todo m = []" "acquire_snapshot (d_subscribers (sy_d s)) = [failing, healthy]"
    "roomy config (snd error_handling)" "dc_shutdown config = drain"
  shows "delivered_at (d_subscribers (sy_d s)) failing = 1 \<and> delivered_at (d_subscribers (sy_d s)) healthy = 1 \<and>
    foldl (\<lambda>err x. report_error (Some (error_handling_handler bad_access)) x err) [] (sy_errors s) =
      [''callback error: subscriber could not process event'']"
proof -
  have exit0: "mt_exit m = 0" using roomy_exit [OF assms(1) example_shapes(2) assms(4)] .
  have cfg: "published (snd error_handling) = [(Block, 7)]" by (simp add: error_handling_def)
  note o = mdt.program_drained [OF assms(1) example_shapes(2) assms(5,2) exit0]
  note d = mdt.program_delivered [OF assms(1) example_shapes(2) example_direct(2) assms(5,2) exit0]
  have dir: "deliveries_ok (error_handling_callbacks failing) s"
    using mdt.program_deliveries [OF assms(1) example_shapes(2) example_direct(2)] by simp
  then have ne: "failing \<noteq> healthy"
    using assms(3) by (auto simp: deliveries_ok_def Let_def all_direct_def acquire_snapshot_def)
  obtain st where st: "rg_heap (d_subscribers (sy_d s)) failing = Some st" "ss_active st"
    using dir assms(3) by (auto simp: deliveries_ok_def Let_def all_direct_def acquire_snapshot_def subscribed_at_def
        split: option.splits)
  have log: "sy_accepted_log s = [7]" using o assms(4) cfg by simp
  have "callback_errors (error_handling_callbacks failing) (d_subscribers (sy_d s)) [failing, healthy] 7 =
      [Runtime_error ''subscriber could not process event'']"
    using st ne by (simp add: callback_errors_def error_handling_callbacks_def map_filter_simps split: option.splits)
  then have "sy_errors s = [Runtime_error ''subscriber could not process event'']" using d log assms(3) by simp
  then show ?thesis using d log assms(3) by (simp add: report_error_def error_handling_handler_def)
qed

definition error_handling_schedule :: "program_action list" where
  "error_handling_schedule = [Main_move False 5, Main_move False 6] @ replicate 3 (Main_move False 7) @
     replicate 7 (Worker_move 0) @ replicate 2 (Main_move False 7) @ [Worker_move 0] @ replicate 4 (Main_move False 7)"

theorem error_handling_result_witness:
  "\<exists>m s. run_program mutex_queue_policy (error_handling_callbacks 5) 0 (default_config\<lparr>dc_queue_capacity := 2\<rparr>) (snd error_handling)
      error_handling_schedule = Some (m, s) \<and> delivered_at (d_subscribers (sy_d s)) 6 = 1 \<and>
    foldl (\<lambda>err x. report_error (Some (error_handling_handler [])) x err) [] (sy_errors s) =
      [''callback error: subscriber could not process event'']"
proof -
  let ?run = "run_program mutex_queue_policy (error_handling_callbacks 5) 0 (default_config\<lparr>dc_queue_capacity := 2\<rparr>) (snd error_handling)
      error_handling_schedule"
  have "case ?run of None \<Rightarrow> False | Some (m, s) \<Rightarrow> mt_todo m = [] \<and> acquire_snapshot (d_subscribers (sy_d s)) = [5, 6]"
    by code_simp
  then obtain m s where ms: "?run = Some (m, s)" "mt_todo m = []" "acquire_snapshot (d_subscribers (sy_d s)) = [5, 6]"
    by (auto split: option.splits)
  have "roomy (default_config\<lparr>dc_queue_capacity := 2\<rparr>) (snd error_handling)"
    by (simp add: roomy_def error_handling_def)
  from error_handling_result [OF run_program_reached [OF ms(1)] ms(2,3) this] ms(1) show ?thesis by (auto simp: default_config_def)
qed

text \<open>\<open>dispatcher_usage\<close>: \<open>main\<close> returns 0 and both subscribers were delivered the event, with two workers.\<close>

lemma dispatcher_usage_result:
  assumes "program_reached mutex_queue_policy callbacks elapsed (fst dispatcher_usage) (snd dispatcher_usage) (m, s)"
    "mt_todo m = []"
  shows "mt_exit m = 0" "sy_broadcast_log s = [42]"
    "\<exists>p q. acquire_snapshot (d_subscribers (sy_d s)) = [p, q] \<and> delivered_at (d_subscribers (sy_d s)) p = 1 \<and>
       delivered_at (d_subscribers (sy_d s)) q = 1"
proof -
  show exit0: "mt_exit m = 0" using roomy_exit [OF assms(1)] example_shapes example_roomy by blast
  have cfg: "dc_shutdown (fst dispatcher_usage) = drain" "published (snd dispatcher_usage) = [(Block, 42)]"
    "subscriptions (snd dispatcher_usage) = 2" by (simp_all add: dispatcher_usage_def default_config_def)
  note o = mdt.program_drained [OF assms(1) example_shapes(1) cfg(1) assms(2) exit0]
  note d = mdt.program_delivered [OF assms(1) example_shapes(1) example_direct(1) cfg(1) assms(2) exit0]
  have log: "sy_accepted_log s = [42]" using o example_roomy(1) cfg(2) by simp
  have "mset (sy_broadcast_log s) = mset (sy_accepted_log s)" using o by blast
  with log show "sy_broadcast_log s = [42]" by simp
  obtain p q where "acquire_snapshot (d_subscribers (sy_d s)) = [p, q]" using d cfg(3) by (auto simp: length_Suc_conv numeral_2_eq_2)
  with d log show "\<exists>p q. acquire_snapshot (d_subscribers (sy_d s)) = [p, q] \<and> delivered_at (d_subscribers (sy_d s)) p = 1 \<and>
       delivered_at (d_subscribers (sy_d s)) q = 1" by simp
qed

text \<open>\<open>object_subscriber\<close>: the object sees its event.\<close>

lemma object_subscriber_result:
  assumes "program_reached mutex_queue_policy callbacks elapsed (fst object_subscriber) (snd object_subscriber) (m, s)"
    "mt_todo m = []"
  shows "sy_broadcast_log s = [''connected'']"
proof -
  have e: "mt_exit m = 0" using roomy_exit [OF assms(1)] example_shapes example_roomy by blast
  have "dc_shutdown (fst object_subscriber) = drain" by (simp add: object_subscriber_def default_config_def)
  from mdt.program_drained [OF assms(1) example_shapes(4) this assms(2) e] example_roomy(4)
  show ?thesis by (simp add: object_subscriber_def default_config_def)
qed

lemma isolated_fits:
  "subscribes_first (mailbox_fits (length (published (snd isolated_subscriber)))) (snd isolated_subscriber)"
proof -
  have "length (published (snd isolated_subscriber)) = 5" by (simp add: isolated_subscriber_def)
  moreover have "subscribes_first (mailbox_fits 5) (snd isolated_subscriber)"
    using subscribes_firstI [of "[\<lparr>so_delivery = isolated, so_guarantee = best_effort, so_mailbox_capacity = 16,
       so_slow_callback_threshold = 5000000\<rparr>]" "mailbox_fits 5" "tl (snd isolated_subscriber)"]
    by (auto simp: isolated_subscriber_def mailbox_fits_def)
  ultimately show ?thesis by (simp only:)
qed

text \<open>
  Property C34. \<open>isolated_subscriber\<close> under every schedule of \<open>main\<close>, worker and executor, when the callback takes the ten
  milliseconds it sleeps, with the default queue capacity as with any other that has room for five events: after the
  shutdown the worker has broadcast 1 to 5 in order, and the metrics of the token report \<open>delivered=5, dropped=0, slow=5\<close>,
  although the subscriber is best effort.
\<close>

theorem isolated_subscriber_result:
  assumes "program_reached mutex_queue_policy callbacks elapsed ((fst isolated_subscriber)\<lparr>dc_queue_capacity := capacity\<rparr>)
      (snd isolated_subscriber) (m, s)" "mt_todo m = []" "10000000 \<le> elapsed" "5 \<le> unat capacity"
  shows "sy_broadcast_log s = [1, 2, 3, 4, 5] \<and> (\<exists>p st. acquire_snapshot (d_subscribers (sy_d s)) = [p] \<and>
    rg_heap (d_subscribers (sy_d s)) p = Some st \<and> isolated_report (ss_metrics st) = ''delivered=5, dropped=0, slow=5'')"
proof -
  let ?config = "(fst isolated_subscriber)\<lparr>dc_queue_capacity := capacity\<rparr>"
  have room: "roomy ?config (snd isolated_subscriber)" using assms(4) by (simp add: isolated_subscriber_def roomy_def)
  have e: "mt_exit m = 0" by (rule roomy_exit [OF assms(1) example_shapes(5) room])
  have cfg: "dc_shutdown ?config = drain" "dc_worker_count ?config = 1"
    "published (snd isolated_subscriber) = map (Pair Block) [1, 2, 3, 4, 5]"
    "options_of (snd isolated_subscriber) = [\<lparr>so_delivery = isolated, so_guarantee = best_effort, so_mailbox_capacity = 16,
       so_slow_callback_threshold = 5000000\<rparr>]"
    by (simp_all add: isolated_subscriber_def default_config_def)
  from mdt.program_drained [OF assms(1) example_shapes(5) cfg(1) assms(2) e] room cfg(2,3)
  have log: "sy_accepted_log s = [1, 2, 3, 4, 5]" "sy_broadcast_log s = sy_accepted_log s" by (simp_all add: eval_nat_numeral)
  from mdt.program_metrics [OF assms(1) example_shapes(5) isolated_fits cfg(1) assms(2) e, unfolded cfg(4)] log(1) assms(3)
  obtain p st where "acquire_snapshot (d_subscribers (sy_d s)) = [p]" "rg_heap (d_subscribers (sy_d s)) p = Some st"
    "ss_metrics st = metrics_after (throws_on (callbacks p) st) True 5 [1, 2, 3, 4, 5]"
    by (auto simp: list_all2_Cons2 is_slow_def eval_nat_numeral)
  then show ?thesis using log by (simp add: isolated_report_def show_word_def show_nat.simps)
qed

text \<open>A run in which the executor handles two events while the worker is busy, and the shutdown waits for the rest.\<close>

definition isolated_schedule :: "program_action list" where
  "isolated_schedule = Main_move False 5 # replicate 15 (Main_move False 6) @ replicate 12 (Worker_move 0) @
     replicate 2 (Executor_move 5) @ replicate 18 (Worker_move 0) @ replicate 2 (Main_move False 6) @ [Worker_move 0] @
     replicate 4 (Main_move False 6)"

theorem isolated_subscriber_result_witness:
  "\<exists>m s. run_program mutex_queue_policy (\<lambda>_ _ _. None) 10000000 ((fst isolated_subscriber)\<lparr>dc_queue_capacity := 5\<rparr>)
      (snd isolated_subscriber) isolated_schedule = Some (m, s) \<and> sy_broadcast_log s = [1, 2, 3, 4, 5]"
proof -
  let ?run = "run_program mutex_queue_policy (\<lambda>_ _ _. None) 10000000 ((fst isolated_subscriber)\<lparr>dc_queue_capacity := 5\<rparr>)
      (snd isolated_subscriber) isolated_schedule"
  have "case ?run of None \<Rightarrow> False | Some (m, s) \<Rightarrow> mt_todo m = []" by code_simp
  then obtain m s where ms: "?run = Some (m, s)" "mt_todo m = []" by (auto split: option.splits)
  from isolated_subscriber_result [OF run_program_reached [OF ms(1)] ms(2)] ms(1) show ?thesis by simp
qed

text \<open>A program that never tests a status does not return early.\<close>

lemma no_return_exit:
  assumes "program_reached mutex_queue_policy callbacks elapsed config commands c" "program_shape commands"
    "\<And>code. Return_unless_success code \<notin> set commands"
  shows "mt_exit (fst c) = 0"
  using assms
proof (induction rule: program_reached.induct)
  case (step c c')
  then have e: "mt_exit (fst c) = 0" by blast
  have "main_ok config commands (fst c) (snd c)"
    using mdt.program_reached_ok [OF step.hyps(1) step.prems(1)] by (simp add: mdt.program_ok_def)
  then obtain pre where "pre @ mt_todo (fst c) = commands" using e by (auto simp: main_ok_def main_at_def)
  then have no: "mt_todo (fst c) \<noteq> Return_unless_success code # todo" for code todo
    using step.prems(2) [of code] by auto
  show ?case using step.hyps(2)
  proof (cases rule: program_step.cases)
    case (main expired addr m s m' s')
    with e no show ?thesis by (auto simp: main_move_def split: list.splits main_command.splits option.splits
          sum.splits prod.splits if_splits)
  qed (use e in auto)
qed (simp add: main_start_def)

lemma sent_zip: "length es = length sts \<Longrightarrow> sent (map (Pair kind) es) sts = map fst (filter (\<lambda>(e, st). st = success) (zip es sts))"
  by (induction es sts rule: list_induct2) auto

lemma timed_out_count:
  assumes "list_all2 status_fits (map (Pair Timed) es) sts"
  shows "length (filter (\<lambda>(e, st). st = timeout) (zip es sts)) = length (filter ((\<noteq>) success) sts)"
  using assms by (induction es arbitrary: sts) (auto simp: list_all2_Cons1)

text \<open>
  \<open>backpressure\<close> under every schedule: each of the ten timed publications succeeds or times out; the events that
  were accepted were broadcast in order; \<open>main\<close> prints one line per timeout and a last one; and the two counters on that
  line add up to ten.
\<close>

lemma backpressure_result:
  assumes "program_reached mutex_queue_policy callbacks elapsed (fst backpressure) (snd backpressure) (m, s)" "mt_todo m = []"
  shows "length (mt_statuses m) = 10 \<and> set (mt_statuses m) \<subseteq> {success, timeout} \<and>
    sy_broadcast_log s = map fst (filter (\<lambda>(event, st). st = success) (zip [0..<10] (mt_statuses m))) \<and>
    unat (dm_accepted (d_metrics (sy_d s))) + unat (dm_rejected (d_metrics (sy_d s))) = 10 \<and>
    length (backpressure_output (mt_statuses m) (d_metrics (sy_d s))) = Suc (unat (dm_rejected (d_metrics (sy_d s))))"
proof -
  have exit0: "mt_exit m = 0" using no_return_exit [OF assms(1) example_shapes(6)] by (auto simp: backpressure_def)
  have cfg: "dc_shutdown (fst backpressure) = drain" "dc_worker_count (fst backpressure) = 1"
    "published (snd backpressure) = map (Pair Timed) [0..<10]"
    using published_map [of Timed "[0..<10]" "[Shutdown_call]"] by (simp_all add: backpressure_def default_config_def)
  from mdt.program_drained [OF assms(1) example_shapes(6) cfg(1) assms(2) exit0] cfg(2)
  have o: "list_all2 status_fits (map (Pair Timed) [0..<10]) (mt_statuses m)"
    "sy_broadcast_log s = sent (map (Pair Timed) [0..<10]) (mt_statuses m)"
    "d_metrics (sy_d s) = \<lparr>dm_accepted = of_nat (length (filter ((=) success) (mt_statuses m))),
      dm_rejected = of_nat (length (filter ((\<noteq>) success) (mt_statuses m))), dm_dropped = 0\<rparr>"
    unfolding cfg(3) by auto
  have len: "length (mt_statuses m) = 10" using list_all2_lengthD [OF o(1)] by simp
  have "set (mt_statuses m) \<subseteq> {success, timeout}" using o(1) by (auto simp: list_all2_conv_all_nth in_set_conv_nth)
  moreover have "length (filter ((=) success) (mt_statuses m)) + length (filter ((\<noteq>) success) (mt_statuses m)) = 10"
    using sum_length_filter_compl [of "(=) success" "mt_statuses m"] len by simp
  moreover have small: "unat (of_nat (length (filter Q (mt_statuses m))) :: uint64_t) = length (filter Q (mt_statuses m))" for Q
    using length_filter_le [of Q "mt_statuses m"] len by (intro unat_of_nat_small) simp
  ultimately show ?thesis
    using len o sent_zip [of "[0..<10]" "mt_statuses m" Timed] timed_out_count [OF o(1)]
    by (simp add: backpressure_output_def small del: upt_Suc)
qed

end
