(* ===== verification/Spec2Isabelle.thy ===== *)
theory Spec2Isabelle
  imports Mutex_Queue_Threads Lock_Free_Threads Ring_Solo Subscriber_Threads Registry_Threads Examples
begin

text \<open>
  A verification development for the event dispatcher: a C++ library in which publishers put events
  into a bounded queue, worker threads take them out in batches and hand each event to every
  subscriber of a copy-on-write registry, and a shutdown either drains or discards what is queued.

  \<^bold>\<open>The parts and how they interact.\<close> \<open>dispatcher\<close> (\<open>dispatcher.hpp\<close>) owns a queue policy, a
  \<open>snapshot_registry\<close> and a \<open>worker_pool\<close>. \<open>publish_with\<close> checks the lifecycle, pushes and counts. Each
  worker runs \<open>run\<close>: wait for one event, fill a batch without waiting, take one snapshot, and call
  \<open>subscriber_state::try_invoke\<close> for every event and subscriber. A subscriber runs its callback on the
  worker (concurrently or under its serial mutex) or copies the event into a bounded mailbox that its
  own executor thread empties. A \<open>subscription\<close> token unsubscribes through the type-erased
  \<open>subscription_control\<close>. \<open>shutdown\<close> closes the queue, joins the workers and stops the mailboxes.

  \<^bold>\<open>Theories.\<close> All paths are below \<open>src/include/event_dispatcher/\<close> unless they end in \<open>.cpp\<close>
  (below \<open>src/src/\<close>).
  \<^item> \<open>Prelude\<close>: word lemmas, windows of rings, tallies over threads, the exceptions (\<open>exn\<close>) and the
    result of waiting on a condition variable.
  \<^item> \<open>Queue_Contract\<close> (\<open>queue/queue_status.hpp\<close>, \<open>queue/pop_result.hpp\<close>, \<open>queue/concurrent_queue.hpp\<close>): the
    operations of a queue policy as a record, the abstract bounded queue with one specification
    function per operation, the locale \<open>concurrent_queue\<close> that says a policy implements it, and the
    consequences for every history of calls (FIFO, conservation, capacity). The abstract queue is
    itself a policy (\<open>reference_policy\<close>) whose responses every implementation gives.
  \<^item> \<open>Mutex_Queue\<close> (\<open>queue/bounded_mutex_queue.hpp\<close>): the ring of optional slots with its 64-bit indices,
    one function per method; interpretation \<open>mq\<close> of the contract. \<open>Mutex_Queue_Threads\<close>: the threads
    that call it, with the two condition variables and their notifications; no lost wake-up, and the
    one case in which a wake-up is lost.
  \<^item> \<open>Circular_Index_Queue\<close> (\<open>queue/detail/scalable_circular_index_queue.hpp\<close>): the SCQ ring at word level
    (tickets, cycles, safe bits, threshold), its refinement to a FIFO of indices, and the locale
    \<open>index_ring\<close> that the lock-free queue uses, interpreted by \<open>ring\<close>.
    \<open>Ring_Entries\<close>, \<open>Ring_Threads\<close>: any number of threads inside \<open>enqueue\<close>, \<open>try_dequeue\<close> and \<open>catch_up\<close>, one step per
    atomic access, in which a weak compare-exchange may also fail spuriously; \<open>Ring_Solo\<close>: a call that is not
    interleaved has the effect of the sequential function.
  \<^item> \<open>Lock_Free_Queue\<close> (\<open>queue/bounded_lock_free_queue.hpp\<close>): gates, slots, the two rings, every method,
    run one call at a time; interpretation \<open>lfq\<close> of the same contract. \<open>Lock_Free_Threads\<close>: any number of
    producers, consumers and closing threads, one step per atomic access or ring operation, with the
    two epochs and their notifications; who owns which slot, the order of the events, the barrier of
    \<open>close\<close>, and two executable schedules (\<open>lf_run\<close>) in which \<open>close\<close> falls short.
  \<^item> \<open>Subscriber\<close> (\<open>subscription/subscriber_state.hpp\<close>, \<open>delivery.hpp\<close>): options, counters, invocation,
    mailbox, executor loop, stop and destructor. \<open>Subscriber_Threads\<close>: workers, executor, unsubscribing
    threads and a stopping thread on one subscriber, one step per critical section.
  \<^item> \<open>Registry\<close> (\<open>registry/snapshot_registry.hpp\<close>): the published list over a heap of subscribers, one call at a time.
    \<open>Registry_Threads\<close>: threads in the separate critical sections of \<open>subscribe\<close>, \<open>unsubscribe\<close> and \<open>retire\<close>, any
    allocation of which may fail and leave a tombstone in the list; a call that nobody overlaps does what \<open>Registry\<close> says.
    \<open>Subscription\<close> (\<open>subscription/subscription.cpp\<close>, \<open>detail/subscription_control.hpp\<close>): the RAII token
    over the locale \<open>control_block\<close>, interpreted by the registry (\<open>registry_token\<close>).
  \<^item> \<open>Worker_Pool\<close> (\<open>execution/worker_pool.cpp\<close>): start, stop request, join and destruction.
  \<^item> \<open>Dispatcher\<close> (\<open>dispatcher.hpp\<close>, \<open>config.cpp\<close>): construction, publishing, the worker loop, broadcasting
    and shutdown, over any queue that meets the contract (locale \<open>dispatcher_queue\<close>, interpreted for
    the lock-free queue below and for the mutex queue through \<open>mdt\<close>). \<open>Dispatcher_Threads\<close>: publishers,
    workers and stopping threads interleaved (locale \<open>dispatcher_threads\<close>, interpreted for the mutex
    queue by \<open>mdt\<close>). \<open>Programs\<close>: a \<open>main\<close> that subscribes, publishes and shuts down, interleaved with the
    workers and executors, with callbacks that may throw; \<open>Program_Metrics\<close>: the metrics of its subscribers when it has
    ended.
  \<^item> \<open>Examples\<close> (\<open>src/examples/\<close>): the nine example programs and what they print.
  \<^item> This theory: the interpretation \<open>lfd\<close> of the dispatcher's locale for the lock-free queue, and the
    properties that span the queues and the dispatcher: the two queues answer every sequence of calls
    alike, batch publication, draining, and a shutdown from the queue to the last callback.

  \<^bold>\<open>What the lemmas show.\<close> Queues: refinement of the abstract queue for every call, hence FIFO order
  and conservation for every history; no reading of a disengaged slot; exact capacities; wake-ups;
  for the lock-free queue, under every interleaving, a partition of the slots among rings and threads, FIFO order, and that
  nothing is accepted once \<open>close\<close> has returned; for the ring, conservation and
  the order of tickets under every interleaving of accesses; the responses of every call are those its operation declares.
  Subscribers: synchronous unsubscription, the balance of the metrics, mailbox order and bounds,
  exclusion of serialized callbacks, drain by the executor. Registry and token: the published list holds every
  active subscriber in the order of registration, and else only subscribers that are being retired or whose removal copy could
  not be allocated; identifiers are fresh, unsubscription is idempotent and undoes a subscription. Dispatcher: outcomes and
  counters of publishing, batch prefixes, isolation of callback errors, and for every interleaving
  conservation of events, complete drains, accounted discards and the order of a single worker. Programs: statuses,
  counters, deliveries, reported errors and subscriber metrics at the end of a program, for every schedule; the
  output of the examples is an instance.

  \<^bold>\<open>Choices.\<close> \<open>std::size_t\<close> and the counters are 64-bit words; indices and counters wrap as in the code.
  An exception is a value of \<open>exn\<close>; a push gets the outcome of constructing its event, so that a throwing
  copy is an input. A call that waits for another thread returns \<open>None\<close> in the one-thread functions and is
  a guarded step in the thread models. Loops that may not end are \<open>partial_function (option)\<close> and are
  proved to return where the code returns; the worker's fill loop and the executor loop have measures
  (the room in the batch, the length of the mailbox), so no fuel is chosen anywhere. The admissible
  capacities of the lock-free queue are the powers of two from 2 to 2^61, and the thread model
  of the lock-free queue needs fewer than 2^63 threads (the width of a gate's counter). The results on
  threads inside the ring are for the first 2^61 steps, after which a ticket could meet one that is a full wrap of the
  counter older.

  \<^bold>\<open>Not modelled.\<close> Memory orders: every atomic access is sequentially consistent. The interleavings inside
  \<open>enqueue\<close> and \<open>try_dequeue\<close> are covered for the ring alone; in \<open>Lock_Free_Threads\<close> a ring operation is one step. That the
  threshold makes \<open>try_dequeue\<close> answer \<open>nullopt\<close> only for a ring that was empty at some moment is shown for calls that are not
  interleaved. Allocation failure outside \<open>Registry_Threads\<close>. Everywhere else (\<open>Registry\<close>, the token, the dispatcher's
  thread models and the programs) an operation of the registry is one step that does not fail; the dispatcher's thread model
  lets the registry change arbitrarily between two deliveries. Callbacks are functions to an optional exception: what a
  callback does to the dispatcher itself (publishing, subscribing, unsubscribing from inside) is covered as a step of another
  thread, and for unsubscribing from inside by \<open>Subscriber_Threads\<close>. Exceptions of isolated callbacks are counted in the
  metrics, but their report to the error handler is not in the log of reported errors. In \<open>Subscriber_Threads\<close> some
  counter updates are part of the section next to them, and an executor that unsubscribes itself does so in one step;
  in \<open>Lock_Free_Threads\<close> the wait of \<open>close\<close> on a gate is a guard. The thread model of the
  dispatcher takes a queue call as one step, which holds for the mutex queue; that the lock-free queue
  does not behave so across a \<open>close\<close> is shown in \<open>Lock_Free_Threads\<close>. The error handler's own effects, but for \<open>report_error\<close>
  in \<open>Programs\<close>: the functions return what is reported to it. The clock is a parameter (elapsed time, expired
  deadline). What callbacks print. \<open>atomics_are_lock_free\<close> and \<open>data_path_is_lock_free\<close> query the platform.
  \<open>detail/cache_line.hpp\<close> is a padding constant. Benchmarks and tests only call the library.
  The condition variables of \<open>subscriber_state\<close> are guards of steps rather than explicit wait sets.
\<close>

section \<open>The lock-free queue under the dispatcher\<close>

interpretation lfd: dispatcher_queue lock_free_queue_policy lf_abs lf_inv
  by (intro dispatcher_queue.intro lfq.concurrent_queue_axioms)

section \<open>The two queues are interchangeable\<close>

text \<open>
  Property C15. The two queue policies are observationally equivalent: two queues of the same capacity, one
  of each kind, give the same response to every call of every sequence of calls (status or exception,
  whether the argument was consumed, popped value, number of discarded events, and whether the call
  waits), namely that of the abstract bounded queue.
\<close>

theorem queues_equivalent:
  assumes "mq_new n = Inr q1" "lf_new n = Inr q2"
  shows "responses mutex_queue_policy q1 calls = responses lock_free_queue_policy q2 calls \<and>
    responses mutex_queue_policy q1 calls =
      responses reference_policy \<lparr>aq_cap = unat n, aq_items = [], aq_closed = False\<rparr> calls"
  using mq.new_responses [of n q1 calls] lfq.new_responses [of n q2 calls] assms
  by (simp add: mutex_queue_policy_def lock_free_queue_policy_def)

theorem queues_equivalent_witness:
  "\<exists>(q1 :: nat bounded_mutex_queue) (q2 :: nat bounded_lock_free_queue). mq_new 2 = Inr q1 \<and> lf_new 2 = Inr q2 \<and>
     responses mutex_queue_policy q1 [Try_push (Inr 5), Try_pop, Try_pop] =
       responses lock_free_queue_policy q2 [Try_push (Inr 5), Try_pop, Try_pop]"
proof -
  obtain q2 :: "nat bounded_lock_free_queue" where q2: "lf_new 2 = Inr q2" using lf_new_2 by blast
  obtain q1 :: "nat bounded_mutex_queue" where q1: "mq_new 2 = Inr q1" by (simp add: mq_new_def)
  from queues_equivalent [OF q1 q2] q1 q2 show ?thesis by blast
qed

text \<open>
  Property C16. The calls of both queues are well typed: on a queue that satisfies its class invariant every call
  re-establishes the invariant, and its response is one that the operation declares. A push answers with a
  status of its own (\<open>full\<close> or \<open>closed\<close> without waiting, \<open>closed\<close>, \<open>stopped\<close> or \<open>timeout\<close> when waiting) and
  then has not touched its argument, or it consumed the argument and succeeded or propagates the
  constructor's exception; a pop result carries a value exactly when its status is \<open>success\<close>; and a call parks
  only if it is a waiting one that was not asked to stop and whose deadline has not passed.
\<close>

theorem calls_well_typed:
  "(mq_inv q1 \<longrightarrow> mq_inv (snd (respond mutex_queue_policy q1 call)) \<and>
      response_typed call (fst (respond mutex_queue_policy q1 call))) \<and>
   (lf_inv q2 \<longrightarrow> lf_inv (snd (respond lock_free_queue_policy q2 call)) \<and>
      response_typed call (fst (respond lock_free_queue_policy q2 call)))"
  using mq.respond_inv mq.respond_typed lfq.respond_inv lfq.respond_typed by blast

theorem calls_well_typed_witness:
  "\<exists>(q1 :: nat bounded_mutex_queue) (q2 :: nat bounded_lock_free_queue). mq_new 2 = Inr q1 \<and> lf_new 2 = Inr q2 \<and>
     response_typed (Wait_pop True) (fst (respond mutex_queue_policy q1 (Wait_pop True))) \<and>
     response_typed (Try_push (Inr 5)) (fst (respond lock_free_queue_policy q2 (Try_push (Inr 5))))"
proof -
  obtain q2 :: "nat bounded_lock_free_queue" where q2: "lf_new 2 = Inr q2" using lf_new_2 by blast
  obtain q1 :: "nat bounded_mutex_queue" where q1: "mq_new 2 = Inr q1" by (simp add: mq_new_def)
  have "mq_inv q1" "lf_inv q2"
    using mq.new_ok [of 2 q1] lfq.new_ok [of 2 q2] q1 q2
    by (simp_all add: mutex_queue_policy_def lock_free_queue_policy_def)
  with calls_well_typed q1 q2 show ?thesis by blast
qed

section \<open>Batch publication\<close>

text \<open>
  Property C19. Batch publication of a running dispatcher over the mutex queue accepts an ordered prefix:
  exactly as many events as the queue has room for (none when it is closed) are appended in order, the
  result reports that number and the status of the first event that was not accepted, \<open>complete()\<close> says
  whether all were, every accepted event is counted once, and only the first failure counts as a
  rejection.
\<close>

theorem mutex_batch_prefix:
  assumes "mq_inv (d_events d)" "d_lifecycle d = running" "length es < 18446744073709551616"
  shows "\<exists>res d' n. try_publish_batch mutex_queue_policy (map Inr es) d = Some (Inr res, d') \<and>
    n = (if mq_closed (d_events d) then 0
         else min (length es) (unat (mq_capacity (d_events d)) - unat (mq_size (d_events d)))) \<and>
    mq_items (d_events d') = mq_items (d_events d) @ take n es \<and> mq_inv (d_events d') \<and>
    bp_requested res = of_nat (length es) \<and> bp_accepted res = of_nat n \<and>
    bp_status res = (if n = length es then success else if mq_closed (d_events d) then closed else full) \<and>
    complete res = (n = length es) \<and>
    d_accepted d' = d_accepted d + of_nat n \<and> d_rejected d' = d_rejected d + of_bool (n \<noteq> length es)"
proof -
  have cap: "unat (mq_capacity (d_events d)) = length (mq_slots (d_events d))"
    using mq.capacity_ref [OF assms(1)] by (simp add: mutex_queue_policy_def)
  define n where "n = batch_room (mq_abs (d_events d)) (length es)"
  have n: "n = (if mq_closed (d_events d) then 0
         else min (length es) (unat (mq_capacity (d_events d)) - unat (mq_size (d_events d))))"
    by (simp add: n_def batch_room_def cap)
  let ?res = "\<lparr>bp_requested = of_nat (length es), bp_accepted = of_nat n, bp_status = if n = length es
        then success else if mq_closed (d_events d) then closed else full\<rparr>"
  obtain d' where d': "publish_batch_loop mutex_queue_policy (of_nat (length es)) (map Inr es) 0 d =
      Some (Inr ?res, d')" "mq_inv (d_events d')"
    "mq_abs (d_events d') = (mq_abs (d_events d))\<lparr>aq_items := mq_items (d_events d) @ take n es\<rparr>"
    "d_accepted d' = d_accepted d + of_nat n" "d_rejected d' = d_rejected d + of_bool (n \<noteq> length es)"
    using mdt.publish_batch_ok [OF assms(1,2), of "of_nat (length es)" es 0] by (auto simp: n_def)
  have items: "mq_items (d_events d') = mq_items (d_events d) @ take n es"
    using arg_cong [OF d'(3), of aq_items] by simp
  have "n \<le> length es" by (simp add: n)
  then have "(of_nat n = (of_nat (length es) :: size_t)) = (n = length es)"
    using assms(3) eq_of_nat_iff [of "length es" "of_nat n"] unat_of_nat_small [of n] by auto
  then have "complete ?res = (n = length es)" by (auto simp: complete_def)
  moreover have "bp_requested ?res = of_nat (length es)" "bp_accepted ?res = of_nat n"
    "bp_status ?res = (if n = length es then success else if mq_closed (d_events d) then closed else full)"
    by simp_all
  ultimately show ?thesis using d'(1,2,4,5) items n unfolding try_publish_batch_def length_map by blast
qed

definition mutex_dispatcher :: "(nat, nat bounded_mutex_queue) dispatcher" where
  "mutex_dispatcher = \<lparr>d_events = \<lparr>mq_slots = [None, None], mq_head = 0, mq_tail = 0, mq_size = 0,
       mq_closed = False\<rparr>, d_worker_batch_size = 2, d_subscribers = rg_new 1, d_lifecycle = running,
     d_accepted = 0, d_rejected = 0, d_dropped = 0, d_workers = wp_new 2, d_shutdown_policy = drain\<rparr>"

theorem mutex_batch_prefix_witness:
  "\<exists>res d'. try_publish_batch mutex_queue_policy (map Inr [5, 6, 7]) mutex_dispatcher = Some (Inr res, d') \<and>
     bp_accepted res = 2 \<and> bp_status res = full \<and> mq_items (d_events d') = [5, 6] \<and> \<not> complete res"
proof -
  have inv: "mq_inv (d_events mutex_dispatcher)"
    by (auto simp: mutex_dispatcher_def mq_inv_def less_Suc_eq numeral_2_eq_2)
  have f: "d_lifecycle mutex_dispatcher = running" "\<not> mq_closed (d_events mutex_dispatcher)"
    "mq_items (d_events mutex_dispatcher) = []" "unat (mq_capacity (d_events mutex_dispatcher)) = 2"
    "mq_size (d_events mutex_dispatcher) = 0"
    by (simp_all add: mutex_dispatcher_def mq_items_def ring_window_def mq_capacity_def mq_slots_size_def)
  from mutex_batch_prefix [OF inv f(1), of "[5, 6, 7]"] show ?thesis
    using f(2-5) by auto
qed

section \<open>Draining\<close>

text \<open>
  The worker loop over a closed mutex queue returns, after it handed every queued event to
  \<open>broadcast_batch\<close>, in FIFO order, in non-empty batches of at most the configured size, and left the
  queue empty: this is what a draining shutdown waits for.
\<close>

lemma mutex_worker_drains:
  assumes "mq_inv q" "mq_closed q" "batch_size \<noteq> 0"
  shows "\<exists>q' batches. run mutex_queue_policy batch_size (\<lambda>batch w. Some (broadcast batch w)) q w =
      Some (q', foldl (\<lambda>w batch. broadcast batch w) w batches) \<and>
    mq_items q' = [] \<and> concat batches = mq_items q \<and>
    list_all (\<lambda>batch. batch \<noteq> [] \<and> length batch \<le> unat batch_size) batches"
  using mdt.run_drains [OF assms(1) _ assms(3), of broadcast w] assms(2) by (auto simp: list_all_iff)

section \<open>A draining shutdown from beginning to end\<close>

text \<open>
  Property C11. A draining \<open>shutdown\<close> from outside the dispatcher, over the mutex queue and direct
  subscribers, returns normally, whatever the callbacks throw: it leaves the dispatcher stopped and its
  queue closed and empty, the error handler has seen exactly the exceptions of the queued events, event
  by event in FIFO order and in the order of registration, and every subscriber was delivered every
  queued event exactly once. The destructor of a dispatcher configured to drain does the same.
\<close>

theorem shutdown_delivers_everything:
  assumes "mq_inv (d_events d)" "d_lifecycle d = running" "d_worker_batch_size d \<noteq> 0"
    "wp_workers (d_workers d) \<noteq> []" "rg_reachable (d_subscribers d)"
    "list_all (direct_at (d_subscribers d)) (acquire_snapshot (d_subscribers d))"
  shows "\<exists>d'. shutdown mutex_queue_policy copyable callbacks elapsed copies drain None [] d =
      Some (Inr (concat (map (callback_errors callbacks (d_subscribers d) (acquire_snapshot (d_subscribers d)))
        (mq_items (d_events d)))), d') \<and>
    d_lifecycle d' = lifecycle_stopped \<and> mq_items (d_events d') = [] \<and> mq_closed (d_events d') \<and>
    acquire_snapshot (d_subscribers d') = acquire_snapshot (d_subscribers d) \<and>
    (\<forall>p. delivered_at (d_subscribers d') p = delivered_at (d_subscribers d) p +
       (if p \<in> set (acquire_snapshot (d_subscribers d)) then of_nat (length (mq_items (d_events d))) else 0)) \<and>
    (d_shutdown_policy d = drain \<longrightarrow>
       dispatcher_destroy mutex_queue_policy copyable callbacks elapsed copies None [] d =
         Some (Some (concat (map (callback_errors callbacks (d_subscribers d) (acquire_snapshot (d_subscribers d)))
           (mq_items (d_events d))), d')))"
proof -
  let ?ps = "acquire_snapshot (d_subscribers d)"
  note D = rg_inv_D [OF rg_reachable_inv [OF assms(5)]]
  have count: "count_list ?ps p = of_bool (p \<in> set ?ps)" for p
    using D(1) by (simp only: acquire_snapshot_def count_list_distinct)
  have sub: "subscribed_at (d_subscribers d) p = (p \<in> set ?ps)" for p
    using D(2) by (simp add: acquire_snapshot_def)
  have outside: "\<not> is_worker_thread (d_workers d) None" "\<not> callback_active_on_this_thread (d_subscribers d) []"
    by (simp_all add: is_worker_thread_def callback_active_on_this_thread_def)
  from mdt.shutdown_drains [OF assms(1-4,6) outside, of copyable callbacks elapsed copies] obtain d' where
    "shutdown mutex_queue_policy copyable callbacks elapsed copies drain None [] d =
      Some (Inr (concat (map (callback_errors callbacks (d_subscribers d) ?ps) (mq_items (d_events d)))), d')"
    "d_lifecycle d' = lifecycle_stopped" "mq_items (d_events d') = []" "mq_closed (d_events d')"
    "same_heap (d_subscribers d) (d_subscribers d')"
    "\<forall>p. delivered_at (d_subscribers d') p = delivered_at (d_subscribers d) p + of_nat (if p \<in> set ?ps
       then length (mq_items (d_events d)) * of_bool (p \<in> set ?ps) else 0)"
    unfolding count sub by auto
  then show ?thesis using same_heap_facts(4) [of "d_subscribers d" "d_subscribers d'"]
    by (intro exI [of _ d']) (auto simp: dispatcher_destroy_def acquire_snapshot_def)
qed

definition loaded_dispatcher :: "(nat, nat bounded_mutex_queue) dispatcher" where
  "loaded_dispatcher = mutex_dispatcher\<lparr>d_events := \<lparr>mq_slots = [Some 5, Some 6], mq_head = 0, mq_tail = 0,
     mq_size = 2, mq_closed = False\<rparr>, d_subscribers := registry_one,
     d_workers := \<lparr>wp_this = 2, wp_workers = [fresh_worker, fresh_worker]\<rparr>\<rparr>"

theorem shutdown_delivers_everything_witness:
  "\<exists>d'. shutdown mutex_queue_policy True (\<lambda>_ _ e. if e = 6 then Some (User_exception 1) else None) 0 (\<lambda>_. Inr)
      drain None [] loaded_dispatcher = Some (Inr [User_exception 1], d') \<and>
    d_lifecycle d' = lifecycle_stopped \<and> mq_items (d_events d') = [] \<and>
    delivered_at (d_subscribers d') 5 = delivered_at registry_one 5 + 2"
proof -
  have inv: "mq_inv (d_events loaded_dispatcher)"
    by (auto simp: loaded_dispatcher_def mutex_dispatcher_def mq_inv_def less_2_cases_iff)
  have f: "d_lifecycle loaded_dispatcher = running" "d_worker_batch_size loaded_dispatcher \<noteq> 0"
    "wp_workers (d_workers loaded_dispatcher) \<noteq> []" "d_subscribers loaded_dispatcher = registry_one"
    by (simp_all add: loaded_dispatcher_def mutex_dispatcher_def)
  have items: "mq_items (d_events loaded_dispatcher) = [5, 6]"
    by (simp add: loaded_dispatcher_def mutex_dispatcher_def mq_items_def ring_window_def upt_rec)
  have reach: "rg_reachable (d_subscribers loaded_dispatcher)" using registry_one_ok(1) by (simp add: f)
  have direct: "list_all (direct_at (d_subscribers loaded_dispatcher))
      (acquire_snapshot (d_subscribers loaded_dispatcher))"
    using registry_one_ok(3) registry_one_direct by (auto simp: f acquire_snapshot_def direct_at_def)
  from shutdown_delivers_everything [OF inv f(1-3) reach direct, of True
      "\<lambda>_ _ e. if e = 6 then Some (User_exception 1) else None" 0 "\<lambda>_. Inr"]
  show ?thesis
    using registry_one_ok(3) registry_one_direct
    by (auto simp: f items acquire_snapshot_def callback_errors_def map_filter_simps)
qed

text \<open>The same for the lock-free queue, with its workers running alone after the close.\<close>

lemma lock_free_shutdown_delivers:
  assumes "lf_inv (d_events d)" "d_lifecycle d = running" "d_worker_batch_size d \<noteq> 0"
    "wp_workers (d_workers d) \<noteq> []"
    "list_all (direct_at (d_subscribers d)) (acquire_snapshot (d_subscribers d))"
  shows "\<exists>d'. shutdown lock_free_queue_policy copyable callbacks elapsed copies drain None [] d =
      Some (Inr (concat (map (callback_errors callbacks (d_subscribers d) (acquire_snapshot (d_subscribers d)))
        (aq_items (lf_abs (d_events d))))), d') \<and>
    d_lifecycle d' = lifecycle_stopped \<and> aq_items (lf_abs (d_events d')) = []"
  using lfd.shutdown_drains [OF assms, of None "[]" copyable callbacks elapsed copies]
  by (auto simp: is_worker_thread_def callback_active_on_this_thread_def)

end
